(* ===== verification/Prelude.thy ===== *)
theory Prelude
  imports Main "HOL-Library.Word" "HOL-Library.Multiset"
begin

unbundle bit_operations_syntax

text \<open>
  The types and generic facts that the components share.  A byte address is a \<^typ>\<open>nat\<close> with
  \<open>NULL = 0\<close>; a C++ \<open>size_t\<close> is a 64-bit word, so that additions wrap around as they do in
  the code; an \<open>int\<close> is a 32-bit word read with \<^const>\<open>sint\<close>.  A C++ call that can abort
  (a failed \<open>assert\<close>), dereference a bad pointer or fail to return is a \<open>result\<close>: \<open>Inl\<close>
  of a \<open>fault\<close>, or \<open>Inr\<close> of what the call returns.
\<close>

section \<open>Machine types\<close>

type_synonym byte = "8 word"
type_synonym size_t = "64 word"
type_synonym int32 = "32 word"
type_synonym addr = nat

abbreviation NULL :: addr where
  "NULL \<equiv> 0"

datatype fault =
    AssertFail  \<comment> \<open>an \<open>assert\<close> evaluated to false: abort\<close>
  | BadAddress  \<comment> \<open>a read or write through a null or failed pointer\<close>
  | Diverge     \<comment> \<open>a loop that does not end\<close>
  | Fatal       \<comment> \<open>a fatal log message or an \<open>exit\<close>\<close>
  | OutOfRange  \<comment> \<open>\<open>std::out_of_range\<close> that nothing catches\<close>

type_synonym 'a result = "fault + 'a"

definition rbind :: "'a result \<Rightarrow> ('a \<Rightarrow> 'b result) \<Rightarrow> 'b result" where
  "rbind r f = (case r of Inl e \<Rightarrow> Inl e | Inr x \<Rightarrow> f x)"

definition of_opt :: "'a option \<Rightarrow> 'a result" where
  "of_opt r = (case r of None \<Rightarrow> Inl Diverge | Some x \<Rightarrow> Inr x)"

lemma rbind_simps [simp]:
  "rbind (Inl e) f = Inl e"
  "rbind (Inr x) f = f x"
  by (simp_all add: rbind_def)

lemma rbind_Inr_iff: "rbind r f = Inr y \<longleftrightarrow> (\<exists>x. r = Inr x \<and> f x = Inr y)"
  by (cases r) auto

lemma of_opt_simps [simp]:
  "of_opt None = Inl Diverge"
  "of_opt (Some x) = Inr x"
  by (simp_all add: of_opt_def)

section \<open>Words read as naturals\<close>

text \<open>Facts that move arithmetic on \<open>size_t\<close> to \<^typ>\<open>nat\<close> when nothing wraps.\<close>

named_theorems unat_simps

lemma unat_add_nowrap [unat_simps]:
  fixes a b :: "'a::len word"
  assumes "unat a + unat b < 2 ^ LENGTH('a)"
  shows "unat (a + b) = unat a + unat b"
  using assms by (simp add: unat_word_ariths)

lemma unat_sub_nowrap [unat_simps]:
  fixes a b :: "'a::len word"
  assumes "b \<le> a"
  shows "unat (a - b) = unat a - unat b"
  using assms by (rule unat_sub)

lemma unat_div_word [unat_simps]:
  fixes a b :: "'a::len word"
  shows "unat (a div b) = unat a div unat b"
  by (rule unat_div)

lemma unat_of_nat_small:
  assumes "n < 2 ^ 64"
  shows "unat (of_nat n :: size_t) = n"
  using assms by (simp add: unat_of_nat)

lemma sint_small:
  fixes w :: size_t
  assumes "unat w < 2 ^ 63"
  shows "sint w = int (unat w)"
proof -
  have "int (unat w) < int (2 ^ 63)"
    using assms by (simp only: of_nat_less_iff)
  then have "uint w < 2 ^ 63"
    by (simp only: uint_nat of_nat_power of_nat_numeral)
  then have "signed_take_bit 63 (uint w) = uint w"
    by (intro signed_take_bit_int_eq_self order_trans [OF _ unsigned_greater_eq]) simp_all
  moreover have "sint w = signed_take_bit 63 (uint w)"
    by (simp add: sint_uint)
  ultimately show ?thesis
    by (metis uint_nat)
qed

text \<open>Rounding with a mask: \<open>x & ~(2^n - 1)\<close>.\<close>

lemma and_not_mask: "w AND NOT (mask n) = push_bit n (drop_bit n w)" for w :: "'a::len word"
  by (rule bit_word_eqI) (auto simp: bit_and_iff bit_not_iff bit_mask_iff bit_push_bit_iff bit_drop_bit_eq)

lemma unat_and_not_mask:
  fixes w :: "'a::len word"
  shows "unat (w AND NOT (mask n)) = unat w div 2 ^ n * 2 ^ n"
proof -
  have "push_bit n (drop_bit n w) = w - take_bit n w"
    using bits_ident [of n w] by (metis add_diff_cancel_right')
  moreover have t: "unat (take_bit n w) = unat w mod 2 ^ n"
    by (subst unsigned_take_bit_eq) (rule take_bit_eq_mod)
  moreover have "take_bit n w \<le> w"
    by (simp add: word_le_nat_alt t)
  ultimately have "unat (push_bit n (drop_bit n w)) = unat w - unat w mod 2 ^ n"
    by (simp add: unat_sub)
  then show ?thesis
    by (simp add: and_not_mask minus_mod_eq_div_mult)
qed

section \<open>Lists of lists\<close>

lemma mset_concat_update:
  assumes "i < length L"
  shows "mset (concat (L[i := ys])) + mset (L ! i) = mset (concat L) + mset ys"
proof -
  have "concat L = concat (take i L) @ L ! i @ concat (drop (Suc i) L)"
    using id_take_nth_drop [OF assms] by (metis concat.simps(2) concat_append)
  then show ?thesis
    by (simp add: upd_conv_take_nth_drop [OF assms])
qed

lemma concat_nth_subset: "i < length L \<Longrightarrow> set (L ! i) \<subseteq> set (concat L)"
  by (auto dest: nth_mem)

lemma distinct_concat_nth:
  assumes "distinct (concat L)" "i < length L"
  shows "distinct (L ! i)"
  using assms by (simp add: distinct_concat_iff)

lemma distinct_concat_disjoint:
  assumes "distinct (concat L)" "i < length L" "j < length L" "i < j"
  shows "set (L ! i) \<inter> set (L ! j) = {}"
  using assms
proof (induction L arbitrary: i j)
  case (Cons l L)
  from Cons.prems obtain j' where j: "j = Suc j'" "j' < length L"
    by (cases j) auto
  show ?case
  proof (cases i)
    case 0
    have "set (L ! j') \<subseteq> set (concat L)"
      using j(2) by (rule concat_nth_subset)
    moreover have "set l \<inter> set (concat L) = {}"
      using Cons.prems(1) by simp
    ultimately have "set l \<inter> set (L ! j') = {}" by blast
    with 0 j show ?thesis by simp
  next
    case (Suc i')
    with Cons j show ?thesis by simp
  qed
qed simp

end
