(* ===== verification/Byte_Memory.thy ===== *)
theory Byte_Memory
  imports Prelude
begin

text \<open>
  The memory of the process: one byte per address.  The allocators store their bookkeeping in the
  memory they hand out, as 32-bit flags, 64-bit sizes and 64-bit pointers in little-endian order;
  \<open>load\<close> and \<open>store\<close> read and write them, so that two overlapping objects interfere as they do
  on the machine.  The lemmas say when they do not.
\<close>

section \<open>Words as byte lists\<close>

type_synonym mem = "addr \<Rightarrow> byte"

definition word_bytes :: "nat \<Rightarrow> 'a::len word \<Rightarrow> byte list" where
  "word_bytes n w = map (\<lambda>i. ucast (drop_bit (8 * i) w)) [0..<n]"

primrec bytes_word :: "byte list \<Rightarrow> 'a::len word" where
  "bytes_word [] = 0"
| "bytes_word (b # bs) = ucast b OR push_bit 8 (bytes_word bs)"

lemma length_word_bytes [simp]: "length (word_bytes n w) = n"
  by (simp add: word_bytes_def)

lemma bit_bytes_word:
  "bit (bytes_word bs :: 'a::len word) k \<longleftrightarrow>
     k < LENGTH('a) \<and> k div 8 < length bs \<and> bit (bs ! (k div 8)) (k mod 8)"
proof (induction bs arbitrary: k)
  case Nil
  then show ?case by simp
next
  case (Cons b bs)
  show ?case
  proof (cases "k < 8")
    case True
    then show ?thesis
      by (auto simp: bit_or_iff bit_push_bit_iff bit_ucast_iff dest: bit_imp_le_length)
  next
    case False
    then have "k div 8 = Suc ((k - 8) div 8)" "k mod 8 = (k - 8) mod 8"
      by (simp_all add: le_div_geq le_mod_geq)
    moreover have "\<not> bit b k"
      using False bit_imp_le_length by force
    ultimately show ?thesis
      using False by (auto simp: bit_or_iff bit_push_bit_iff bit_ucast_iff Cons.IH)
  qed
qed

lemma bytes_word_word_bytes:
  assumes "LENGTH('a) \<le> 8 * n"
  shows "bytes_word (word_bytes n w) = (w :: 'a::len word)"
proof (rule bit_word_eqI)
  fix k
  assume "k < LENGTH('a)"
  moreover from this assms have "k div 8 < n"
    by linarith
  ultimately show "bit (bytes_word (word_bytes n w) :: 'a word) k = bit w k"
    by (simp add: bit_bytes_word word_bytes_def bit_ucast_iff bit_drop_bit_eq)
qed

section \<open>Reading and writing ranges\<close>

definition write_bytes :: "mem \<Rightarrow> addr \<Rightarrow> byte list \<Rightarrow> mem" where
  "write_bytes m a bs = (\<lambda>x. if a \<le> x \<and> x < a + length bs then bs ! (x - a) else m x)"

definition read_bytes :: "mem \<Rightarrow> addr \<Rightarrow> nat \<Rightarrow> byte list" where
  "read_bytes m a n = map (\<lambda>i. m (a + i)) [0..<n]"

definition load32 :: "mem \<Rightarrow> addr \<Rightarrow> int32" where
  "load32 m a = bytes_word (read_bytes m a 4)"

definition store32 :: "mem \<Rightarrow> addr \<Rightarrow> int32 \<Rightarrow> mem" where
  "store32 m a w = write_bytes m a (word_bytes 4 w)"

definition load64 :: "mem \<Rightarrow> addr \<Rightarrow> size_t" where
  "load64 m a = bytes_word (read_bytes m a 8)"

definition store64 :: "mem \<Rightarrow> addr \<Rightarrow> size_t \<Rightarrow> mem" where
  "store64 m a w = write_bytes m a (word_bytes 8 w)"

lemma read_write_same [simp]:
  "n = length bs \<Longrightarrow> read_bytes (write_bytes m a bs) a n = bs"
  by (auto simp: read_bytes_def write_bytes_def intro: nth_equalityI)

lemma read_write_other:
  "a + length bs \<le> b \<or> b + n \<le> a \<Longrightarrow> read_bytes (write_bytes m a bs) b n = read_bytes m b n"
  by (auto simp: read_bytes_def write_bytes_def)

lemma load_store_same [simp]:
  "load32 (store32 m a v) a = v"
  "load64 (store64 m a w) a = w"
  by (simp_all add: load32_def store32_def load64_def store64_def bytes_word_word_bytes)

lemma load64_store64_other [simp]:
  "a + 8 \<le> b \<or> b + 8 \<le> a \<Longrightarrow> load64 (store64 m a w) b = load64 m b"
  by (simp add: load64_def store64_def read_write_other)

lemma load64_store32_other [simp]:
  "a + 4 \<le> b \<or> b + 8 \<le> a \<Longrightarrow> load64 (store32 m a v) b = load64 m b"
  by (simp add: load64_def store32_def read_write_other)

lemma load32_store64_other [simp]:
  "a + 8 \<le> b \<or> b + 4 \<le> a \<Longrightarrow> load32 (store64 m a w) b = load32 m b"
  by (simp add: load32_def store64_def read_write_other)

lemma load32_store32_other [simp]:
  "a + 4 \<le> b \<or> b + 4 \<le> a \<Longrightarrow> load32 (store32 m a w) b = load32 m b"
  by (simp add: load32_def store32_def read_write_other)

section \<open>Agreement of memories\<close>

text \<open>
  \<open>same_on A m m'\<close>: the two memories hold the same bytes in \<open>A\<close>.  What a predicate reads of the
  memory lies in some range; agreement on the range carries the predicate over.
\<close>

definition same_on :: "addr set \<Rightarrow> mem \<Rightarrow> mem \<Rightarrow> bool" where
  "same_on A m m' \<longleftrightarrow> (\<forall>a \<in> A. m' a = m a)"

lemma same_on_refl [simp]: "same_on A m m"
  by (simp add: same_on_def)

lemma same_on_mono: "same_on A m m' \<Longrightarrow> B \<subseteq> A \<Longrightarrow> same_on B m m'"
  by (auto simp: same_on_def)

lemma same_on_outside: "same_on (- X) m m' \<Longrightarrow> A \<inter> X = {} \<Longrightarrow> same_on A m m'"
  by (auto simp: same_on_def)

lemma same_on_trans: "same_on A m m' \<Longrightarrow> same_on A m' m'' \<Longrightarrow> same_on A m m''"
  by (simp add: same_on_def)

lemma same_on_store64I:
  "same_on A m m' \<Longrightarrow> A \<inter> {a..<a + 8} = {} \<Longrightarrow> same_on A m (store64 m' a w)"
  by (auto simp: same_on_def store64_def write_bytes_def)

lemma same_on_store32I:
  "same_on A m m' \<Longrightarrow> A \<inter> {a..<a + 4} = {} \<Longrightarrow> same_on A m (store32 m' a w)"
  by (auto simp: same_on_def store32_def write_bytes_def)

lemma same_on_write_bytesI:
  "same_on A m m' \<Longrightarrow> A \<inter> {a..<a + length bs} = {} \<Longrightarrow> same_on A m (write_bytes m' a bs)"
  by (auto simp: same_on_def write_bytes_def)

lemma read_bytes_same:
  assumes "same_on {a..<a + n} m m'"
  shows "read_bytes m' a n = read_bytes m a n"
  using assms by (simp add: read_bytes_def same_on_def)

lemma load64_same: "same_on {a..<a + 8} m m' \<Longrightarrow> load64 m' a = load64 m a"
  by (simp add: load64_def read_bytes_same)

lemma load32_same: "same_on {a..<a + 4} m m' \<Longrightarrow> load32 m' a = load32 m a"
  by (simp add: load32_def read_bytes_same)

end
