(* ===== verification/Free_Lists.thy ===== *)
theory Free_Lists
  imports Byte_Memory
begin

text \<open>
  The segregated free lists of the allocators (\<open>myAlloc_1Layer/MyMalloc.cpp\<close>,
  \<open>myAlloc_2Layer_lock/heap_alloc.cpp\<close> and \<open>thread_cache.cpp\<close> share this code).  A block is
  an \<open>ObjHeader\<close> (flags at offset 0, size at offset 8), the user's bytes and a footer of the same
  layout in its last 16 bytes.  While a block is free, a \<open>DualLnkNode\<close> (next at offset 0, prev at
  offset 8) sits right behind the header and links the block into one of 65 lists.
\<close>

section \<open>Headers, nodes and lists in memory\<close>

abbreviation sizeof_ObjHeader :: nat where
  "sizeof_ObjHeader \<equiv> 16"

abbreviation sizeof_DualLnkNode :: nat where
  "sizeof_DualLnkNode \<equiv> 16"

abbreviation NUMOFSIZECLASSES :: nat where
  "NUMOFSIZECLASSES \<equiv> 65"

abbreviation ObjFree :: int32 where
  "ObjFree \<equiv> 0"

abbreviation ObjAllocated :: int32 where
  "ObjAllocated \<equiv> 1"

abbreviation obj_flags :: "mem \<Rightarrow> addr \<Rightarrow> int32" where
  "obj_flags m h \<equiv> load32 m h"

abbreviation obj_size :: "mem \<Rightarrow> addr \<Rightarrow> size_t" where
  "obj_size m h \<equiv> load64 m (8 + h)"

abbreviation set_flags :: "addr \<Rightarrow> int32 \<Rightarrow> mem \<Rightarrow> mem" where
  "set_flags h v m \<equiv> store32 m h v"

abbreviation set_size :: "addr \<Rightarrow> size_t \<Rightarrow> mem \<Rightarrow> mem" where
  "set_size h v m \<equiv> store64 m (8 + h) v"

abbreviation next_of :: "mem \<Rightarrow> addr \<Rightarrow> addr" where
  "next_of m p \<equiv> unat (load64 m p)"

abbreviation prev_of :: "mem \<Rightarrow> addr \<Rightarrow> addr" where
  "prev_of m p \<equiv> unat (load64 m (8 + p))"

abbreviation set_next :: "addr \<Rightarrow> addr \<Rightarrow> mem \<Rightarrow> mem" where
  "set_next p q m \<equiv> store64 m p (of_nat q)"

abbreviation set_prev :: "addr \<Rightarrow> addr \<Rightarrow> mem \<Rightarrow> mem" where
  "set_prev p q m \<equiv> store64 m (8 + p) (of_nat q)"

text \<open>The header in front of a node: \<open>(unsigned char*)node - sizeof(ObjHeader)\<close>.\<close>

abbreviation header_of :: "addr \<Rightarrow> addr" where
  "header_of p \<equiv> p - sizeof_ObjHeader"

text \<open>
  The two search loops of the last list, which is kept in non-decreasing order of size.  A list
  with a cycle would keep them running, so they are partial: \<^const>\<open>None\<close> is not returning.
\<close>

partial_function (option) find_slot :: "mem \<Rightarrow> size_t \<Rightarrow> addr \<Rightarrow> addr \<Rightarrow> (addr \<times> addr) option" where
  "find_slot m toinsertSize preiter iter =
     (if iter = NULL then Some (preiter, iter)
      else if obj_size m (header_of iter) \<ge> toinsertSize then Some (preiter, iter)
      else find_slot m toinsertSize iter (next_of m iter))"

partial_function (option) find_fit :: "mem \<Rightarrow> size_t \<Rightarrow> addr \<Rightarrow> addr option" where
  "find_fit m totsize iter =
     (if iter = NULL then Some iter
      else if obj_size m (header_of iter) \<ge> totsize then Some iter
      else find_fit m totsize (next_of m iter))"

definition clamp_pos :: "int \<Rightarrow> nat" where
  "clamp_pos pos = (if pos > int NUMOFSIZECLASSES - 1 then NUMOFSIZECLASSES - 1 else nat pos)"

definition insertFreeBlock ::
    "addr \<Rightarrow> int \<Rightarrow> mem \<Rightarrow> addr list \<Rightarrow> (bool \<times> mem \<times> addr list) result" where
  "insertFreeBlock toinsert pos0 m freels =
     (if pos0 < 0 then Inr (False, m, freels)
      else
        let pos = clamp_pos pos0 in
        if pos = NUMOFSIZECLASSES - 1 \<and> freels ! pos \<noteq> NULL then
          let toinsertSize = obj_size m (header_of toinsert) in
          rbind (of_opt (find_slot m toinsertSize NULL (freels ! pos))) (\<lambda>(preiter, iter).
            if iter = NULL then
              let m = set_next preiter toinsert m;
                  m = set_prev toinsert preiter m;
                  m = set_next toinsert NULL m
              in Inr (True, m, freels)
            else if preiter = NULL then
              let freels = freels[pos := toinsert];
                  m = set_next toinsert iter m;
                  m = set_prev toinsert NULL m;
                  m = set_prev iter toinsert m
              in Inr (True, m, freels)
            else
              let m = set_next preiter toinsert m;
                  m = set_next toinsert iter m;
                  m = set_prev iter toinsert m;
                  m = set_prev toinsert preiter m
              in Inr (True, m, freels))
        else
          let tmpnext = freels ! pos;
              m = set_next toinsert tmpnext m;
              m = (if tmpnext \<noteq> NULL then set_prev tmpnext toinsert m else m);
              m = set_prev toinsert NULL m;
              freels = freels[pos := toinsert]
          in Inr (True, m, freels))"

definition rmFromFreeLs ::
    "int \<Rightarrow> size_t \<Rightarrow> mem \<Rightarrow> addr list \<Rightarrow> (addr \<times> mem \<times> addr list) result" where
  "rmFromFreeLs pos0 totsize m freels =
     (if pos0 < 0 then Inr (NULL, m, freels)
      else
        let pos = clamp_pos pos0 in
        if freels ! pos = NULL then Inr (NULL, m, freels)
        else if pos = NUMOFSIZECLASSES - 1 then
          rbind (of_opt (find_fit m totsize (freels ! pos))) (\<lambda>iter.
            if iter = NULL then Inr (NULL, m, freels)
            else if iter = freels ! pos then
              let freels = freels[pos := next_of m iter];
                  m = (if next_of m iter \<noteq> NULL then set_prev (next_of m iter) NULL m else m)
              in Inr (iter, m, freels)
            else if prev_of m iter = NULL then Inl BadAddress
            else
              let m = set_next (prev_of m iter) (next_of m iter) m;
                  m = (if next_of m iter \<noteq> NULL
                       then set_prev (next_of m iter) (prev_of m iter) m else m)
              in Inr (iter, m, freels))
        else
          let firstNode = freels ! pos;
              freels = freels[pos := next_of m firstNode];
              m = (if next_of m firstNode \<noteq> NULL
                   then set_prev (next_of m firstNode) NULL m else m)
          in Inr (firstNode, m, freels))"

text \<open>
  \<open>dll m pr p hs nx\<close>: starting from the node pointer \<open>p\<close>, the memory holds a doubly linked chain
  through the blocks with headers \<open>hs\<close>, whose first \<open>prev\<close> is \<open>pr\<close> and whose last \<open>next\<close> is \<open>nx\<close>.
\<close>

primrec dll :: "mem \<Rightarrow> addr \<Rightarrow> addr \<Rightarrow> addr list \<Rightarrow> addr \<Rightarrow> bool" where
  "dll m pr p [] nx \<longleftrightarrow> p = nx"
| "dll m pr p (h # hs) nx \<longleftrightarrow>
     p = 16 + h \<and> 16 + h < 2 ^ 64 \<and> prev_of m (16 + h) = pr \<and>
     dll m (16 + h) (next_of m (16 + h)) hs nx"

definition last_node :: "addr \<Rightarrow> addr list \<Rightarrow> addr" where
  "last_node pr hs = (if hs = [] then pr else 16 + last hs)"

lemma last_node_simps [simp]:
  "last_node pr [] = pr"
  "last_node pr (hs @ [h]) = 16 + h"
  "last_node pr (h # hs) = last_node (16 + h) hs"
  by (simp_all add: last_node_def)

lemma dll_append:
  "dll m pr p (xs @ ys) nx \<longleftrightarrow> (\<exists>q. dll m pr p xs q \<and> dll m (last_node pr xs) q ys nx)"
  by (induction xs arbitrary: pr p) auto

lemma dll_NULL_iff: "dll m pr p hs NULL \<Longrightarrow> p = NULL \<longleftrightarrow> hs = []"
  by (cases hs) auto

section \<open>Blocks\<close>

text \<open>
  A region can hold a block when it has room for header, node and footer (48 bytes), is 8-aligned,
  is small enough for its class number to fit an \<open>int\<close>, and ends below the top of the address
  space.  A set of blocks is well placed when each is such a region and no two overlap.
\<close>

definition bsize :: "mem \<Rightarrow> addr \<Rightarrow> nat" where
  "bsize m h = unat (obj_size m h)"

definition region_ok :: "addr \<Rightarrow> nat \<Rightarrow> bool" where
  "region_ok h n \<longleftrightarrow> 48 \<le> n \<and> n < 2 ^ 34 \<and> 8 dvd n \<and> 8 dvd h \<and> h + n < 2 ^ 64"

definition blocks_ok :: "mem \<Rightarrow> addr set \<Rightarrow> bool" where
  "blocks_ok m B \<longleftrightarrow>
     (\<forall>x \<in> B. region_ok x (bsize m x)) \<and>
     (\<forall>x \<in> B. \<forall>y \<in> B. x \<noteq> y \<longrightarrow> x + bsize m x \<le> y \<or> y + bsize m y \<le> x)"

definition apart :: "addr set \<Rightarrow> bool" where
  "apart X \<longleftrightarrow> (\<forall>x \<in> X. \<forall>y \<in> X. x \<noteq> y \<longrightarrow> x + 48 \<le> y \<or> y + 48 \<le> x)"

lemma apartD: "apart X \<Longrightarrow> x \<in> X \<Longrightarrow> y \<in> X \<Longrightarrow> x \<noteq> y \<Longrightarrow> x + 48 \<le> y \<or> y + 48 \<le> x"
  by (auto simp: apart_def)

lemma apart_mono: "apart X \<Longrightarrow> Y \<subseteq> X \<Longrightarrow> apart Y"
  by (auto simp: apart_def)

lemma blocks_ok_apart: "blocks_ok m B \<Longrightarrow> apart B"
  unfolding blocks_ok_def apart_def region_ok_def by (meson add_left_mono order_trans)

lemma blocks_okD:
  assumes "blocks_ok m B" "x \<in> B"
  shows "48 \<le> bsize m x" "x + bsize m x < 2 ^ 64"
  using assms by (auto simp: blocks_ok_def region_ok_def)

lemma blocks_ok_mono: "blocks_ok m B \<Longrightarrow> C \<subseteq> B \<Longrightarrow> blocks_ok m C"
  by (auto simp: blocks_ok_def)

lemma blocks_ok_cong:
  assumes "\<And>b. b \<in> B \<Longrightarrow> bsize m' b = bsize m b"
  shows "blocks_ok m' B \<longleftrightarrow> blocks_ok m B"
  using assms by (auto simp: blocks_ok_def)

section \<open>Frames of the linked lists\<close>

lemma dll_cong:
  assumes "\<And>h. h \<in> set hs \<Longrightarrow> load64 m' (16 + h) = load64 m (16 + h)"
    and "\<And>h. h \<in> set hs \<Longrightarrow> load64 m' (24 + h) = load64 m (24 + h)"
  shows "dll m' pr p hs nx = dll m pr p hs nx"
  using assms by (induction hs arbitrary: pr p) auto

lemma dll_same_on:
  assumes "same_on (\<Union>h \<in> set hs. {16 + h..<32 + h}) m m'"
  shows "dll m' pr p hs nx = dll m pr p hs nx"
proof (rule dll_cong)
  fix h
  assume "h \<in> set hs"
  then have "same_on {16 + h..<32 + h} m m'"
    using assms by (auto simp: same_on_def)
  then have "same_on {16 + h..<16 + h + 8} m m'" "same_on {24 + h..<24 + h + 8} m m'"
    by (auto elim!: same_on_mono)
  then show "load64 m' (16 + h) = load64 m (16 + h)" "load64 m' (24 + h) = load64 m (24 + h)"
    by (simp_all add: load64_same)
qed

lemma dll_set_next_other:
  assumes "apart (insert h (set hs))" "h \<notin> set hs"
  shows "dll (store64 m (16 + h) v) pr p hs nx = dll m pr p hs nx"
proof (rule dll_cong)
  fix x
  assume "x \<in> set hs"
  then have "x + 48 \<le> h \<or> h + 48 \<le> x"
    using assms by (metis apartD insertCI)
  then show "load64 (store64 m (16 + h) v) (16 + x) = load64 m (16 + x)"
    "load64 (store64 m (16 + h) v) (24 + x) = load64 m (24 + x)"
    by auto
qed

lemma dll_set_prev_other:
  assumes "apart (insert h (set hs))" "h \<notin> set hs"
  shows "dll (store64 m (24 + h) v) pr p hs nx = dll m pr p hs nx"
proof (rule dll_cong)
  fix x
  assume "x \<in> set hs"
  then have "x + 48 \<le> h \<or> h + 48 \<le> x"
    using assms by (metis apartD insertCI)
  then show "load64 (store64 m (24 + h) v) (16 + x) = load64 m (16 + x)"
    "load64 (store64 m (24 + h) v) (24 + x) = load64 m (24 + x)"
    by auto
qed

lemma dll_distinct:
  assumes "dll m pr p hs NULL"
  shows "distinct hs"
  using assms
proof (induction "length hs" arbitrary: hs pr p rule: less_induct)
  case less
  show ?case
  proof (cases hs)
    case (Cons h t)
    have "h \<notin> set t"
    proof
      assume "h \<in> set t"
      then obtain us vs where t: "t = us @ h # vs"
        by (auto simp: in_set_conv_decomp)
      from less.prems have "\<exists>pr'. dll m pr' (next_of m (16 + h)) t NULL"
        and "\<exists>pr'. dll m pr' (next_of m (16 + h)) vs NULL"
        by (auto simp: Cons t dll_append)
      moreover have "dll m a p xs NULL \<Longrightarrow> dll m b p ys NULL \<Longrightarrow> xs = ys" for a b p xs ys
      proof (induction xs arbitrary: a b p ys)
        case Nil
        then show ?case by (cases ys) auto
      next
        case (Cons x xs)
        then show ?case by (cases ys) auto
      qed
      ultimately have "t = vs" by blast
      with t show False by simp
    qed
    moreover have "distinct t"
      using less.hyps [of t] less.prems Cons by auto
    ultimately show ?thesis by (simp add: Cons)
  qed simp
qed

end
