(* ===== verification/Free_List_Refinement.thy ===== *)
theory Free_List_Refinement
  imports Free_Lists
begin

text \<open>
  The free-list operations against an abstract view of the lists: 65 sequences of block addresses.
  \<open>fl_rep\<close> relates the two views; \<open>insertFreeBlock\<close> and \<open>rmFromFreeLs\<close> are shown to return and to
  simulate \<open>abs_insert\<close> and \<open>abs_rm\<close>, writing nothing but the nodes of the list they work on.
\<close>

section \<open>The abstract free lists\<close>

definition fl_rep :: "mem \<Rightarrow> addr list \<Rightarrow> addr list list \<Rightarrow> bool" where
  "fl_rep m freels L \<longleftrightarrow>
     length freels = NUMOFSIZECLASSES \<and> length L = NUMOFSIZECLASSES \<and> distinct (concat L) \<and>
     (\<forall>i < NUMOFSIZECLASSES. dll m NULL (freels ! i) (L ! i) NULL)"

text \<open>
  Where a block goes in a list: in front, except in the last list, where it goes before the first
  block that is not smaller.  What a request may take: the first block, or, in the last list, the
  first block that is large enough.
\<close>

definition spliced :: "(addr \<Rightarrow> nat) \<Rightarrow> addr \<Rightarrow> nat \<Rightarrow> addr list \<Rightarrow> addr list \<times> addr list" where
  "spliced sz h pos hs =
     (if pos = NUMOFSIZECLASSES - 1
      then (takeWhile (\<lambda>x. sz x < sz h) hs, dropWhile (\<lambda>x. sz x < sz h) hs) else ([], hs))"

definition candidates :: "(addr \<Rightarrow> nat) \<Rightarrow> nat \<Rightarrow> nat \<Rightarrow> addr list \<Rightarrow> addr list" where
  "candidates sz tot pos hs =
     (if pos = NUMOFSIZECLASSES - 1 then dropWhile (\<lambda>x. sz x < tot) hs else hs)"

definition abs_insert ::
    "(addr \<Rightarrow> nat) \<Rightarrow> addr \<Rightarrow> nat \<Rightarrow> addr list list \<Rightarrow> addr list list" where
  "abs_insert sz h pos L = (let (xs, ys) = spliced sz h pos (L ! pos) in L[pos := xs @ h # ys])"

definition abs_remove :: "addr \<Rightarrow> nat \<Rightarrow> addr list list \<Rightarrow> addr list list" where
  "abs_remove h pos L = L[pos := remove1 h (L ! pos)]"

text \<open>The nodes of a list of blocks: all that the list operations may write.\<close>

definition nodes_of :: "addr set \<Rightarrow> addr set" where
  "nodes_of X = (\<Union>x \<in> X. {16 + x..<32 + x})"

definition first_node :: "addr list \<Rightarrow> addr \<Rightarrow> addr" where
  "first_node hs nx = (if hs = [] then nx else 16 + hd hs)"

lemma first_node_simps [simp]:
  "first_node [] nx = nx"
  "first_node (h # hs) nx = 16 + h"
  by (simp_all add: first_node_def)

section \<open>The search loops\<close>

lemma find_slot_dll:
  assumes "dll m pr p hs NULL"
  shows "find_slot m sz pr p =
    Some (last_node pr (takeWhile (\<lambda>x. obj_size m x < sz) hs),
          first_node (dropWhile (\<lambda>x. obj_size m x < sz) hs) NULL)"
  using assms
proof (induction hs arbitrary: pr p)
  case Nil
  then show ?case by (simp add: find_slot.simps)
next
  case (Cons h hs)
  then show ?case by (subst find_slot.simps) (auto simp: not_less)
qed

lemma find_fit_dll:
  assumes "dll m pr p hs NULL"
  shows "find_fit m sz p = Some (first_node (dropWhile (\<lambda>x. obj_size m x < sz) hs) NULL)"
  using assms
proof (induction hs arbitrary: pr p)
  case Nil
  then show ?case by (simp add: find_fit.simps)
next
  case (Cons h hs)
  then show ?case by (subst find_fit.simps) (auto simp: not_less)
qed

section \<open>Splicing chains\<close>

lemma dll_first: "dll m pr p hs nx \<Longrightarrow> p = first_node hs nx"
  by (cases hs) auto

lemma dll_bound: "dll m pr p hs nx \<Longrightarrow> h \<in> set hs \<Longrightarrow> 16 + h < 2 ^ 64"
  by (induction hs arbitrary: pr p) auto

lemma unat_of_nat_addr [simp]: "n < 18446744073709551616 \<Longrightarrow> unat (of_nat n :: size_t) = n"
  using unat_of_nat_small [of n] by simp

text \<open>Reading a node after writing one, where the blocks do not overlap.\<close>

lemma node_load_store:
  assumes "apart X" "x \<in> X" "y \<in> X"
  shows "load64 (store64 m (16 + y) v) (16 + x) = (if x = y then v else load64 m (16 + x))"
    and "load64 (store64 m (24 + y) v) (24 + x) = (if x = y then v else load64 m (24 + x))"
    and "load64 (store64 m (16 + y) v) (24 + x) = load64 m (24 + x)"
    and "load64 (store64 m (24 + y) v) (16 + x) = load64 m (16 + x)"
  using apartD [OF assms] by (cases "x = y"; auto)+

text \<open>
  Linking a block between two chains, and unlinking one, stated on what the new memory holds in each
  node: the order of the writes does not matter.
\<close>

lemma dll_relink_right:
  assumes "dll m pr p ys NULL" "distinct ys" "q < 2 ^ 64"
    and "\<And>x. x \<in> set ys \<Longrightarrow> load64 m' (16 + x) = load64 m (16 + x)"
    and "\<And>x. x \<in> set ys \<Longrightarrow>
           load64 m' (24 + x) = (if x = hd ys then of_nat q else load64 m (24 + x))"
  shows "dll m' q p ys NULL"
proof (cases ys)
  case (Cons y zs)
  have "dll m' (16 + y) (next_of m (16 + y)) zs NULL = dll m (16 + y) (next_of m (16 + y)) zs NULL"
    using assms Cons by (intro dll_cong) auto
  then show ?thesis
    using assms Cons by simp
qed (use assms in simp)

lemma dll_relink_left:
  assumes "dll m pr p xs nx" "distinct xs" "q < 2 ^ 64"
    and "\<And>x. x \<in> set xs \<Longrightarrow> load64 m' (24 + x) = load64 m (24 + x)"
    and "\<And>x. x \<in> set xs \<Longrightarrow>
           load64 m' (16 + x) = (if x = last xs then of_nat q else load64 m (16 + x))"
  shows "dll m' pr (first_node xs q) xs q"
proof (cases xs rule: rev_cases)
  case (snoc zs a)
  have "dll m' pr p zs (16 + a) = dll m pr p zs (16 + a)"
    using assms snoc by (intro dll_cong) auto
  then show ?thesis
    using assms snoc dll_first [of m pr p xs nx] by (cases zs) (auto simp: dll_append)
qed simp

lemma dll_link:
  assumes l: "dll m NULL p (xs @ ys) NULL" and d: "distinct (xs @ ys)" and h: "16 + h < 2 ^ 64"
    and N: "\<And>x. x \<in> set (xs @ ys) \<Longrightarrow> load64 m' (16 + x) =
              (if xs \<noteq> [] \<and> x = last xs then of_nat (16 + h) else load64 m (16 + x))"
    and P: "\<And>x. x \<in> set (xs @ ys) \<Longrightarrow> load64 m' (24 + x) =
              (if ys \<noteq> [] \<and> x = hd ys then of_nat (16 + h) else load64 m (24 + x))"
    and nh: "load64 m' (16 + h) = of_nat (first_node ys NULL)"
    and ph: "load64 m' (24 + h) = of_nat (last_node NULL xs)"
  shows "dll m' NULL (first_node xs (16 + h)) (xs @ h # ys) NULL"
proof -
  obtain q where xs: "dll m NULL p xs q" and ys: "dll m (last_node NULL xs) q ys NULL"
    using l by (auto simp: dll_append)
  have q: "q = first_node ys NULL"
    using ys by (rule dll_first)
  have dj: "xs \<noteq> [] \<Longrightarrow> last xs \<notin> set ys" "ys \<noteq> [] \<Longrightarrow> hd ys \<notin> set xs"
    using d by (auto dest: last_in_set list.set_sel(1))
  have "dll m' NULL (first_node xs (16 + h)) xs (16 + h)"
    using d h N P dj by (intro dll_relink_left [OF xs]) auto
  moreover have "dll m' (16 + h) q ys NULL"
    using d h N P dj by (intro dll_relink_right [OF ys]) auto
  moreover have "q < 2 ^ 64" "last_node NULL xs < 2 ^ 64"
    using dll_bound [OF ys] dll_bound [OF xs] q by (auto simp: first_node_def last_node_def)
  ultimately show ?thesis
    using h nh ph q by (auto simp: dll_append)
qed

lemma dll_unlink:
  assumes l: "dll m NULL p (xs @ h # ys) NULL" and d: "distinct (xs @ h # ys)"
    and N: "\<And>x. x \<in> set (xs @ ys) \<Longrightarrow> load64 m' (16 + x) =
              (if xs \<noteq> [] \<and> x = last xs then load64 m (16 + h) else load64 m (16 + x))"
    and P: "\<And>x. x \<in> set (xs @ ys) \<Longrightarrow> load64 m' (24 + x) =
              (if ys \<noteq> [] \<and> x = hd ys then load64 m (24 + h) else load64 m (24 + x))"
  shows "dll m' NULL (first_node (xs @ ys) NULL) (xs @ ys) NULL"
proof -
  have xs: "dll m NULL p xs (16 + h)" and ph: "prev_of m (16 + h) = last_node NULL xs"
    and ys: "dll m (16 + h) (next_of m (16 + h)) ys NULL"
    using l by (auto simp: dll_append)
  have nh: "next_of m (16 + h) = first_node ys NULL"
    using ys by (rule dll_first)
  have dj: "xs \<noteq> [] \<Longrightarrow> last xs \<notin> set ys" "ys \<noteq> [] \<Longrightarrow> hd ys \<notin> set xs"
    using d by (auto dest: last_in_set list.set_sel(1))
  have "last_node NULL xs < 2 ^ 64" "first_node ys NULL < 2 ^ 64"
    using dll_bound [OF ys] dll_bound [OF xs] by (auto simp: first_node_def last_node_def)
  moreover have "load64 m (16 + h) = of_nat (first_node ys NULL)"
    "load64 m (24 + h) = of_nat (last_node NULL xs)"
    using nh ph by (simp_all flip: nh ph)
  ultimately have "dll m' NULL (first_node xs (first_node ys NULL)) xs (first_node ys NULL)"
    and "dll m' (last_node NULL xs) (next_of m (16 + h)) ys NULL"
    using d N P dj
    by (intro dll_relink_left [OF xs] dll_relink_right [OF ys]; auto)+
  then show ?thesis
    by (cases xs) (auto simp: nh dll_append)
qed

section \<open>Inserting a block\<close>

lemma node_store_frame:
  assumes "same_on (- nodes_of X) m m'" "y \<in> X"
  shows "same_on (- nodes_of X) m (store64 m' (16 + y) v)"
    and "same_on (- nodes_of X) m (store64 m' (24 + y) v)"
proof -
  have "\<And>x. 16 + y \<le> x \<Longrightarrow> x < 32 + y \<Longrightarrow> x \<in> nodes_of X"
    using assms(2) by (auto simp: nodes_of_def)
  then show "same_on (- nodes_of X) m (store64 m' (16 + y) v)"
    "same_on (- nodes_of X) m (store64 m' (24 + y) v)"
    using assms(1) by (auto intro!: same_on_store64I)
qed

lemma obj_size_less_iff: "obj_size m x < obj_size m' y \<longleftrightarrow> bsize m x < bsize m' y"
  by (simp add: bsize_def word_less_nat_alt)

lemma insert_push_list:
  assumes l: "dll m NULL p hs NULL" and ap: "apart (insert h (set hs))"
    and d: "distinct (h # hs)" and h: "16 + h < 2 ^ 64"
    and m': "m' = set_prev (16 + h) NULL
               (if p \<noteq> NULL then set_prev p (16 + h) (set_next (16 + h) p m) else set_next (16 + h) p m)"
  shows "dll m' NULL (16 + h) (h # hs) NULL" "same_on (- nodes_of (insert h (set hs))) m m'"
proof -
  note ls = node_load_store [OF ap]
  have p: "p = first_node hs NULL"
    using l by (rule dll_first)
  have "dll m' NULL (first_node [] (16 + h)) ([] @ h # hs) NULL"
    using l d h by (intro dll_link [of m p]) (cases hs; auto simp: m' p ls)+
  then show "dll m' NULL (16 + h) (h # hs) NULL" by simp
  show "same_on (- nodes_of (insert h (set hs))) m m'"
    by (cases hs) (auto simp: m' p intro!: node_store_frame)
qed

text \<open>The three ways of inserting into the ordered list, as one description of the new memory.\<close>

definition link_writes :: "addr \<Rightarrow> addr list \<Rightarrow> addr list \<Rightarrow> mem \<Rightarrow> mem" where
  "link_writes h xs ys m =
     (if ys = [] then
        set_next (16 + h) NULL (set_prev (16 + h) (last_node NULL xs) (set_next (last_node NULL xs) (16 + h) m))
      else if xs = [] then
        set_prev (16 + hd ys) (16 + h) (set_prev (16 + h) NULL (set_next (16 + h) (16 + hd ys) m))
      else
        set_prev (16 + h) (last_node NULL xs) (set_prev (16 + hd ys) (16 + h)
          (set_next (16 + h) (16 + hd ys) (set_next (last_node NULL xs) (16 + h) m))))"

lemma link_writes_list:
  assumes l: "dll m NULL p (xs @ ys) NULL" and ne: "xs @ ys \<noteq> []"
    and ap: "apart (insert h (set (xs @ ys)))"
    and d: "distinct (h # xs @ ys)" and h: "16 + h < 2 ^ 64"
  shows "dll (link_writes h xs ys m) NULL (first_node xs (16 + h)) (xs @ h # ys) NULL"
    and "same_on (- nodes_of (insert h (set (xs @ ys)))) m (link_writes h xs ys m)"
proof -
  note ls = node_load_store [OF ap]
  have xs: "xs \<noteq> [] \<Longrightarrow> last xs \<in> set xs" and ys: "ys \<noteq> [] \<Longrightarrow> hd ys \<in> set ys"
    by simp_all
  have dj: "xs \<noteq> [] \<Longrightarrow> last xs \<notin> set ys" "ys \<noteq> [] \<Longrightarrow> hd ys \<notin> set xs"
    "xs \<noteq> [] \<Longrightarrow> ys \<noteq> [] \<Longrightarrow> last xs \<noteq> hd ys"
    using d xs ys by (auto simp del: last_in_set list.set_sel(1))
  have hx: "h \<notin> set xs" "h \<notin> set ys" "xs \<noteq> [] \<Longrightarrow> last xs \<noteq> h" "ys \<noteq> [] \<Longrightarrow> hd ys \<noteq> h"
    using d xs ys by (auto simp del: last_in_set list.set_sel(1))
  show "dll (link_writes h xs ys m) NULL (first_node xs (16 + h)) (xs @ h # ys) NULL"
    using d h ne xs ys dj hx
    by (intro dll_link [OF l]) (auto simp: link_writes_def ls last_node_def first_node_def)
  show "same_on (- nodes_of (insert h (set (xs @ ys)))) m (link_writes h xs ys m)"
    using ne xs ys by (auto simp: link_writes_def last_node_def intro!: node_store_frame)
qed

lemma insertFreeBlock_list:
  assumes l: "dll m NULL (freels ! i) hs NULL" and i: "i = clamp_pos pos" "0 \<le> pos" "i < length freels"
    and ap: "apart (insert h (set hs))" and d: "distinct (h # hs)" and h: "16 + h < 2 ^ 64"
    and sp: "(xs, ys) = spliced (bsize m) h i hs"
  shows "\<exists>m'. insertFreeBlock (16 + h) pos m freels =
                Inr (True, m', freels[i := first_node xs (16 + h)]) \<and>
              dll m' NULL (first_node xs (16 + h)) (xs @ h # ys) NULL \<and>
              same_on (- nodes_of (insert h (set hs))) m m'"
proof (cases "i = NUMOFSIZECLASSES - 1 \<and> freels ! i \<noteq> NULL")
  case True
  have hs: "hs = xs @ ys" and xs: "xs = takeWhile (\<lambda>x. bsize m x < bsize m h) hs"
    and ys: "ys = dropWhile (\<lambda>x. bsize m x < bsize m h) hs"
    using sp True by (auto simp: spliced_def)
  have ne: "xs @ ys \<noteq> []"
    using True l by (auto simp: hs dest: dll_NULL_iff)
  have p: "freels ! i = first_node (xs @ ys) NULL"
    using l unfolding hs by (rule dll_first)
  have fs: "find_slot m (obj_size m h) NULL (freels ! i) = Some (last_node NULL xs, first_node ys NULL)"
    using find_slot_dll [OF l] by (simp add: obj_size_less_iff xs ys)
  have upd: "xs \<noteq> [] \<Longrightarrow> freels[i := first_node xs (16 + h)] = freels"
    using p i(3) by (auto simp: first_node_def intro: list_update_same_conv [THEN iffD2])
  have "insertFreeBlock (16 + h) pos m freels =
          Inr (True, link_writes h xs ys m, freels[i := first_node xs (16 + h)])"
    using True i ne upd fs
    by (cases xs rule: rev_cases; cases ys)
      (auto simp: insertFreeBlock_def Let_def link_writes_def)
  then show ?thesis
    using link_writes_list [of m _ xs ys h] l ne ap d h by (auto simp: hs)
next
  case False
  then have sp': "xs = []" "ys = hs"
    using sp l by (auto simp: spliced_def dest: dll_NULL_iff split: if_splits)
  show ?thesis
    using False i insert_push_list [OF l ap d h refl]
    by (auto simp: insertFreeBlock_def Let_def sp')
qed

section \<open>Removing a block\<close>

definition unlink_writes :: "addr \<Rightarrow> addr list \<Rightarrow> addr list \<Rightarrow> mem \<Rightarrow> mem" where
  "unlink_writes h xs ys m =
     (let m' = (if xs = [] then m else set_next (last_node NULL xs) (first_node ys NULL) m)
      in if ys = [] then m' else set_prev (16 + hd ys) (last_node NULL xs) m')"

lemma unlink_writes_list:
  assumes l: "dll m NULL p (xs @ h # ys) NULL" and ap: "apart (set (xs @ h # ys))"
    and d: "distinct (xs @ h # ys)"
  shows "dll (unlink_writes h xs ys m) NULL (first_node (xs @ ys) NULL) (xs @ ys) NULL"
    and "same_on (- nodes_of (set (xs @ h # ys))) m (unlink_writes h xs ys m)"
proof -
  note ls = node_load_store [OF ap]
  have ys': "dll m (16 + h) (next_of m (16 + h)) ys NULL" and pv: "prev_of m (16 + h) = last_node NULL xs"
    using l by (auto simp: dll_append)
  have nh: "next_of m (16 + h) = first_node ys NULL"
    using ys' by (rule dll_first)
  have ld: "load64 m (16 + h) = of_nat (first_node ys NULL)" "load64 m (24 + h) = of_nat (last_node NULL xs)"
    using nh pv by (simp_all flip: nh pv)
  have xs: "xs \<noteq> [] \<Longrightarrow> last xs \<in> set xs" and ys: "ys \<noteq> [] \<Longrightarrow> hd ys \<in> set ys"
    by simp_all
  have dj: "xs \<noteq> [] \<Longrightarrow> last xs \<notin> set ys" "ys \<noteq> [] \<Longrightarrow> hd ys \<notin> set xs"
    "xs \<noteq> [] \<Longrightarrow> ys \<noteq> [] \<Longrightarrow> last xs \<noteq> hd ys"
    using d xs ys by (auto simp del: last_in_set list.set_sel(1))
  show "dll (unlink_writes h xs ys m) NULL (first_node (xs @ ys) NULL) (xs @ ys) NULL"
    using d xs ys dj
    by (intro dll_unlink [OF l]) (auto simp: unlink_writes_def Let_def ls ld last_node_def first_node_def)
  show "same_on (- nodes_of (set (xs @ h # ys))) m (unlink_writes h xs ys m)"
    using xs ys by (auto simp: unlink_writes_def Let_def last_node_def intro!: node_store_frame)
qed

lemma candidates_suffix: "\<exists>xs. hs = xs @ candidates sz tot pos hs"
  by (auto simp: candidates_def intro: exI [of _ "takeWhile (\<lambda>x. sz x < tot) hs"] exI [of _ "[]"])

lemma rmFromFreeLs_none:
  assumes l: "dll m NULL (freels ! i) hs NULL" and i: "i = clamp_pos pos" "0 \<le> pos"
    and c: "candidates (bsize m) (unat tot) i hs = []"
  shows "rmFromFreeLs pos tot m freels = Inr (NULL, m, freels)"
proof -
  have "dropWhile (\<lambda>x. obj_size m x < tot) hs = []" if "i = 64"
    using c that by (simp add: candidates_def bsize_def word_less_nat_alt)
  then have "find_fit m tot (freels ! i) = Some NULL" if "i = 64"
    using find_fit_dll [OF l, of tot] that by (simp add: first_node_def)
  moreover have "freels ! i = NULL" if "i \<noteq> 64"
    using c l that by (simp add: candidates_def)
  ultimately show ?thesis
    using i by (auto simp: rmFromFreeLs_def Let_def)
qed

lemma rmFromFreeLs_list:
  assumes l: "dll m NULL (freels ! i) hs NULL" and i: "i = clamp_pos pos" "0 \<le> pos" "i < length freels"
    and ap: "apart (set hs)" and d: "distinct hs"
    and c: "candidates (bsize m) (unat tot) i hs = h # ys" and hs: "hs = xs @ h # ys"
  shows "rmFromFreeLs pos tot m freels =
           Inr (16 + h, unlink_writes h xs ys m, freels[i := first_node (xs @ ys) NULL])"
proof -
  have ff: "find_fit m tot (freels ! i) = Some (16 + h)" if "i = 64"
    using find_fit_dll [OF l, of tot] c that
    by (simp add: candidates_def bsize_def word_less_nat_alt)
  have xs0: "xs = []" if "i \<noteq> 64"
    using c that hs by (simp add: candidates_def)
  have pv: "prev_of m (16 + h) = last_node NULL xs"
    and ys: "dll m (16 + h) (next_of m (16 + h)) ys NULL"
    using l by (auto simp: hs dll_append)
  have nx: "next_of m (16 + h) = first_node ys NULL"
    using ys by (rule dll_first)
  have p: "freels ! i = first_node (xs @ [h]) NULL"
    using dll_first [OF l] by (simp add: hs first_node_def hd_append)
  show ?thesis
  proof (cases xs rule: rev_cases)
    case Nil
    then show ?thesis
      using i p nx pv ff ys
      by (cases "i = 64"; cases ys) (auto simp: rmFromFreeLs_def unlink_writes_def Let_def)
  next
    case (snoc us a)
    with xs0 have i64: "i = 64" by blast
    have "16 + h \<noteq> freels ! i" "freels ! i \<noteq> NULL"
      using p d by (cases us; auto simp: hs snoc)+
    moreover have "freels[i := first_node (xs @ ys) NULL] = freels"
      using p i(3) by (cases us) (auto simp: snoc intro: list_update_same_conv [THEN iffD2])
    moreover have "load64 (store64 m (16 + a) v) (16 + h) = load64 m (16 + h)"
      "load64 (store64 m (16 + a) v) (24 + h) = load64 m (24 + h)" for v
      using node_load_store [OF ap, of h a] d by (auto simp: hs snoc)
    ultimately show ?thesis
      using i p nx pv ff i64 ys snoc
      by (cases ys) (auto simp: rmFromFreeLs_def unlink_writes_def Let_def)
  qed
qed

section \<open>Arenas\<close>

text \<open>
  An arena is one set of 65 lists.  Every block on its lists is marked free in its header and in its
  footer, both tags carry the same size, list \<open>i\<close> holds blocks of at least \<open>i\<close> units (of exactly
  \<open>i\<close> units below the last list, when \<open>ex\<close> is asked for), and the last list is in order of size.
\<close>

definition free_block :: "mem \<Rightarrow> addr \<Rightarrow> bool" where
  "free_block m h \<longleftrightarrow>
     obj_flags m h = ObjFree \<and> obj_flags m (h + bsize m h - 16) = ObjFree \<and>
     bsize m (h + bsize m h - 16) = bsize m h"

definition class_ok :: "nat \<Rightarrow> bool \<Rightarrow> nat \<Rightarrow> nat \<Rightarrow> bool" where
  "class_ok u ex i s \<longleftrightarrow> i * u \<le> s \<and> (ex \<and> i < NUMOFSIZECLASSES - 1 \<longrightarrow> s = i * u)"

definition arena_ok :: "nat \<Rightarrow> bool \<Rightarrow> mem \<Rightarrow> addr list \<Rightarrow> addr list list \<Rightarrow> bool" where
  "arena_ok u ex m freels L \<longleftrightarrow>
     fl_rep m freels L \<and>
     (\<forall>i < NUMOFSIZECLASSES. \<forall>h \<in> set (L ! i). free_block m h \<and> class_ok u ex i (bsize m h)) \<and>
     sorted (map (bsize m) (L ! (NUMOFSIZECLASSES - 1)))"

lemma arena_okD:
  assumes "arena_ok u ex m freels L"
  shows "length freels = 65" "length L = 65" "distinct (concat L)"
    "i < 65 \<Longrightarrow> dll m NULL (freels ! i) (L ! i) NULL"
    "i < 65 \<Longrightarrow> h \<in> set (L ! i) \<Longrightarrow> free_block m h"
    "i < 65 \<Longrightarrow> h \<in> set (L ! i) \<Longrightarrow> class_ok u ex i (bsize m h)"
    "sorted (map (bsize m) (L ! 64))"
  using assms by (auto simp: arena_ok_def fl_rep_def)

subsection \<open>What list operations leave alone\<close>

lemma nodes_of_mono: "X \<subseteq> Y \<Longrightarrow> nodes_of X \<subseteq> nodes_of Y"
  by (auto simp: nodes_of_def)

lemma block_outside_nodes:
  assumes ok: "blocks_ok m B" and b: "b \<in> B" and N: "N \<subseteq> B"
  shows "{b..<16 + b} \<inter> nodes_of N = {}"
    and "{b + bsize m b - 16..<b + bsize m b} \<inter> nodes_of N = {}"
    and "b \<notin> N \<Longrightarrow> {b..<b + bsize m b} \<inter> nodes_of N = {}"
proof -
  have sz: "48 \<le> bsize m b"
    using ok b by (rule blocks_okD)
  have *: "x = b \<or> x + 48 \<le> b \<or> b + bsize m b \<le> x" if "x \<in> N" for x
  proof -
    have "x \<in> B" "48 \<le> bsize m x"
      using N that ok by (auto dest: blocks_okD)
    then show ?thesis
      using ok b unfolding blocks_ok_def by fastforce
  qed
  show "{b..<16 + b} \<inter> nodes_of N = {}"
    "{b + bsize m b - 16..<b + bsize m b} \<inter> nodes_of N = {}"
    using sz by (auto simp: nodes_of_def dest!: *)
  assume "b \<notin> N"
  with * have **: "x + 48 \<le> b \<or> b + bsize m b \<le> x" if "x \<in> N" for x
    using that by blast
  show "{b..<b + bsize m b} \<inter> nodes_of N = {}"
    using sz by (auto simp: nodes_of_def dest!: **)
qed

lemma bsize_same_on:
  assumes "same_on {8 + b..<16 + b} m m'"
  shows "bsize m' b = bsize m b"
  using load64_same [of "8 + b" m m'] assms by (simp add: bsize_def)

lemma bsize_frame:
  assumes "blocks_ok m B" "N \<subseteq> B" "same_on (- nodes_of N) m m'" "b \<in> B"
  shows "bsize m' b = bsize m b"
  using same_on_outside [OF assms(3) block_outside_nodes(1) [OF assms(1,4,2)]]
  by (intro bsize_same_on) (auto elim!: same_on_mono)

lemma free_block_same_on:
  assumes "48 \<le> bsize m b" "same_on {b..<16 + b} m m'"
    "same_on {b + bsize m b - 16..<b + bsize m b} m m'"
  shows "free_block m' b = free_block m b"
proof -
  have sz: "bsize m' b = bsize m b"
    using assms(2) by (intro bsize_same_on) (auto elim!: same_on_mono)
  have ft: "{8 + (b + bsize m b - 16)..<16 + (b + bsize m b - 16)} \<subseteq> {b + bsize m b - 16..<b + bsize m b}"
    "{b + bsize m b - 16..<b + bsize m b - 16 + 4} \<subseteq> {b + bsize m b - 16..<b + bsize m b}"
    using assms(1) by auto
  have "bsize m' (b + bsize m b - 16) = bsize m (b + bsize m b - 16)"
    using assms(3) ft(1) by (intro bsize_same_on) (rule same_on_mono)
  moreover have "load32 m' (b + bsize m b - 16) = load32 m (b + bsize m b - 16)"
    using assms(3) ft(2) by (intro load32_same) (rule same_on_mono)
  moreover have "load32 m' b = load32 m b"
    using assms(2) by (intro load32_same) (auto elim!: same_on_mono)
  ultimately show ?thesis
    by (simp add: free_block_def sz)
qed

lemma free_block_frame:
  assumes ok: "blocks_ok m B" and N: "N \<subseteq> B" and s: "same_on (- nodes_of N) m m'" and b: "b \<in> B"
  shows "free_block m' b = free_block m b"
  using block_outside_nodes(1,2) [OF ok b N] s blocks_okD(1) [OF ok b]
  by (intro free_block_same_on) (auto intro: same_on_outside)

lemma arena_ok_cong:
  assumes "arena_ok u ex m freels L"
    and "same_on (nodes_of (set (concat L))) m m'"
    and "\<And>h. h \<in> set (concat L) \<Longrightarrow> bsize m' h = bsize m h \<and> free_block m' h = free_block m h"
  shows "arena_ok u ex m' freels L"
proof -
  have sub: "set (L ! i) \<subseteq> set (concat L)" if "i < 65" for i
    using that arena_okD(2) [OF assms(1)] by (intro concat_nth_subset) simp
  have "dll m' NULL (freels ! i) (L ! i) NULL" if i: "i < 65" for i
  proof -
    have "same_on (\<Union>h \<in> set (L ! i). {16 + h..<32 + h}) m m'"
      using assms(2) nodes_of_mono [OF sub [OF i]] by (auto simp: nodes_of_def elim!: same_on_mono)
    then show ?thesis
      using arena_okD(4) [OF assms(1) i] by (simp add: dll_same_on)
  qed
  moreover have "sorted (map (bsize m') (L ! 64))"
  proof -
    have "map (bsize m') (L ! 64) = map (bsize m) (L ! 64)"
      using assms(3) subsetD [OF sub, of 64] by (intro map_cong) simp_all
    with arena_okD(7) [OF assms(1)] show ?thesis by metis
  qed
  moreover have "free_block m' h \<and> class_ok u ex i (bsize m' h)" if "i < 65" "h \<in> set (L ! i)" for i h
    using assms(3) sub that arena_okD(5,6) [OF assms(1)] by (metis subsetD)
  ultimately show ?thesis
    using assms(1) by (simp add: arena_ok_def fl_rep_def)
qed

subsection \<open>The operations keep the arena\<close>

lemma clamp_pos_less [simp]: "clamp_pos pos < 65"
  by (simp add: clamp_pos_def) linarith

lemma spliced_append: "(xs, ys) = spliced sz h pos hs \<Longrightarrow> hs = xs @ ys"
  by (auto simp: spliced_def split: if_splits)

lemma mset_abs_insert:
  assumes "pos < length L"
  shows "mset (concat (abs_insert sz h pos L)) = add_mset h (mset (concat L))"
proof -
  obtain xs ys where sp: "(xs, ys) = spliced sz h pos (L ! pos)"
    by (metis surj_pair)
  have "mset (concat (L[pos := xs @ h # ys])) + mset (xs @ ys) = mset (concat L) + mset (xs @ h # ys)"
    using mset_concat_update [OF assms, of "xs @ h # ys"] spliced_append [OF sp] by simp
  then have "mset (concat (L[pos := xs @ h # ys])) + mset (xs @ ys) =
      add_mset h (mset (concat L)) + mset (xs @ ys)"
    by simp
  then show ?thesis
    unfolding abs_insert_def by (simp flip: sp)
qed

lemma mset_abs_remove:
  assumes "pos < length L" "h \<in> set (L ! pos)"
  shows "mset (concat L) = add_mset h (mset (concat (abs_remove h pos L)))"
proof -
  let ?r = "remove1 h (L ! pos)"
  have e: "mset (L ! pos) = add_mset h (mset ?r)"
    using assms(2) by (simp add: insert_DiffM)
  have "mset (concat (L[pos := ?r])) + mset (L ! pos) = mset (concat L) + mset ?r"
    using assms(1) by (rule mset_concat_update)
  then have "mset (concat L) + mset ?r = add_mset h (mset (concat (L[pos := ?r]))) + mset ?r"
    unfolding e by (simp only: union_mset_add_mset_left union_mset_add_mset_right)
  then show ?thesis
    unfolding abs_remove_def by (rule add_right_imp_eq)
qed

lemma set_abs_insert: "pos < length L \<Longrightarrow> set (concat (abs_insert sz h pos L)) = insert h (set (concat L))"
  using arg_cong [OF mset_abs_insert, of pos L set_mset sz h] by simp

lemma distinct_abs_insert:
  "pos < length L \<Longrightarrow> distinct (concat (abs_insert sz h pos L)) \<longleftrightarrow> distinct (h # concat L)"
  using mset_eq_imp_distinct_iff [of "concat (abs_insert sz h pos L)" "h # concat L"] mset_abs_insert
  by simp

lemma abs_remove_set:
  assumes "distinct (concat L)" "pos < length L" "h \<in> set (L ! pos)"
  shows "set (concat L) = insert h (set (concat (abs_remove h pos L)))"
    "h \<notin> set (concat (abs_remove h pos L))" "distinct (concat (abs_remove h pos L))"
proof -
  have m: "mset (concat L) = mset (h # concat (abs_remove h pos L))"
    using mset_abs_remove [OF assms(2,3)] by simp
  show "set (concat L) = insert h (set (concat (abs_remove h pos L)))"
    using mset_eq_setD [OF m] by simp
  have "distinct (h # concat (abs_remove h pos L))"
    using mset_eq_imp_distinct_iff [OF m] assms(1) by blast
  then show "h \<notin> set (concat (abs_remove h pos L))" "distinct (concat (abs_remove h pos L))"
    by simp_all
qed

lemma sorted_splice:
  assumes "sorted (map f hs)"
  shows "sorted (map f (takeWhile (\<lambda>x. f x < f h) hs @ h # dropWhile (\<lambda>x. f x < f h) hs))"
  using assms
proof (induction hs)
  case (Cons a hs)
  then show ?case
    by (cases "f a < f h") (auto dest: set_takeWhileD set_dropWhileD)
qed simp

lemma nodes_disjoint:
  assumes "apart (X \<union> Y)" "X \<inter> Y = {}"
  shows "nodes_of Y \<inter> nodes_of X = {}"
proof -
  have "x + 48 \<le> y \<or> y + 48 \<le> x" if "x \<in> X" "y \<in> Y" for x y
    using apartD [OF assms(1), of x y] assms(2) that by blast
  then show ?thesis
    by (fastforce simp: nodes_of_def)
qed

lemma dll_other_list:
  assumes ok: "blocks_ok m B" and sub: "set (concat L) \<subseteq> B" "N \<subseteq> B"
    and s: "same_on (- nodes_of N) m m'" and dj: "N \<inter> set hs = {}" and hs: "set hs \<subseteq> B"
    and l: "dll m NULL p hs NULL"
  shows "dll m' NULL p hs NULL"
proof -
  have "apart (N \<union> set hs)"
    using blocks_ok_apart [OF ok] hs sub(2) by (elim apart_mono) auto
  then have "same_on (nodes_of (set hs)) m m'"
    using s dj by (intro same_on_outside [OF s] nodes_disjoint)
  then show ?thesis
    using l by (simp add: nodes_of_def dll_same_on)
qed

text \<open>Replacing one list of an arena, after writes to the nodes \<open>N\<close> of that list only.\<close>

lemma arena_replace:
  assumes a: "arena_ok u ex m freels L" and ok: "blocks_ok m B" and sub: "set (concat L) \<subseteq> B"
    and i: "i < 65" and N: "N \<subseteq> B" "N \<inter> set (concat L) \<subseteq> set (L ! i)"
    and s: "same_on (- nodes_of N) m m'"
    and zs: "dll m' NULL p zs NULL" "set zs \<subseteq> B" "distinct (concat (L[i := zs]))"
    and fb: "\<And>x. x \<in> set zs \<Longrightarrow> free_block m x \<and> class_ok u ex i (bsize m x)"
    and srt: "i = 64 \<Longrightarrow> sorted (map (bsize m) zs)"
  shows "arena_ok u ex m' (freels[i := p]) (L[i := zs])"
proof -
  note ao = arena_okD [OF a]
  have Lj: "set (L ! j) \<subseteq> set (concat L)" if "j < 65" for j
    using that ao(2) by (intro concat_nth_subset) simp
  have fr: "bsize m' b = bsize m b" "free_block m' b = free_block m b" if "b \<in> B" for b
    using bsize_frame [OF ok N(1) s that] free_block_frame [OF ok N(1) s that] by auto
  have "dll m' NULL (freels[i := p] ! j) (L[i := zs] ! j) NULL" if j: "j < 65" for j
  proof (cases "j = i")
    case False
    have "set (L ! i) \<inter> set (L ! j) = {}"
      using distinct_concat_disjoint [OF ao(3)] i j ao(2) False by (metis inf_commute linorder_neqE_nat)
    then have "N \<inter> set (L ! j) = {}"
      using Lj [OF j] N(2) by auto
    then show ?thesis
      using dll_other_list [OF ok sub N(1) s _ _ ao(4) [OF j]] Lj [OF j] sub False by auto
  qed (use zs i ao(1,2) in simp)
  moreover have zB: "set (L[i := zs] ! j) \<subseteq> B" if "j < 65" for j
    using that Lj sub zs(2) ao(2) by (cases "j = i") auto
  have "free_block m' x \<and> class_ok u ex j (bsize m' x)" if "j < 65" "x \<in> set (L[i := zs] ! j)" for j x
    using that fr [OF subsetD [OF zB], of j x] fb [of x] ao(2) ao(5,6) [of j x]
    by (cases "j = i") auto
  moreover have "sorted (map (bsize m') (L[i := zs] ! 64))"
  proof -
    have eq: "map (bsize m') (L[i := zs] ! 64) = map (bsize m) (L[i := zs] ! 64)"
      using fr(1) subsetD [OF zB, of 64] by (intro map_cong) simp_all
    have "sorted (map (bsize m) (L[i := zs] ! 64))"
      using srt ao(2,7) by (cases "i = 64") simp_all
    then show ?thesis by (simp only: eq)
  qed
  ultimately show ?thesis
    using ao(1,2) zs(3) by (simp add: arena_ok_def fl_rep_def)
qed

lemma arena_insert:
  assumes a: "arena_ok u ex m freels L" and ok: "blocks_ok m B" and sub: "set (concat L) \<subseteq> B"
    and h: "h \<in> B" "h \<notin> set (concat L)" and fb: "free_block m h"
    and cl: "class_ok u ex (clamp_pos pos) (bsize m h)" and pos: "0 \<le> pos"
  obtains m' freels' where "insertFreeBlock (16 + h) pos m freels = Inr (True, m', freels')"
    and "arena_ok u ex m' freels' (abs_insert (bsize m) h (clamp_pos pos) L)"
    and "same_on (- nodes_of (insert h (set (concat L)))) m m'"
proof -
  define i where "i = clamp_pos pos"
  define N where "N = insert h (set (L ! i))"
  obtain xs ys where sp: "(xs, ys) = spliced (bsize m) h i (L ! i)"
    by (metis surj_pair)
  note ao = arena_okD [OF a]
  have i: "i < 65" "i < length L" "i < length freels"
    by (simp_all add: i_def ao)
  have Li: "set (L ! i) \<subseteq> set (concat L)"
    using i(2) by (rule concat_nth_subset)
  have N: "N \<subseteq> B" "N \<subseteq> insert h (set (concat L))" "N \<inter> set (concat L) \<subseteq> set (L ! i)"
    using Li sub h by (auto simp: N_def)
  have hs: "set (xs @ h # ys) = insert h (set (L ! i))"
    using spliced_append [OF sp] by auto
  have L': "abs_insert (bsize m) h i L = L[i := xs @ h # ys]"
    unfolding abs_insert_def by (simp flip: sp)
  have "apart (insert h (set (L ! i)))"
    using blocks_ok_apart [OF ok] N(1) by (elim apart_mono) (simp add: N_def)
  moreover have "distinct (h # L ! i)" "16 + h < 2 ^ 64"
    using distinct_concat_nth [OF ao(3) i(2)] Li h(2) blocks_okD [OF ok h(1)] by auto
  ultimately obtain m' where
      ins: "insertFreeBlock (16 + h) pos m freels = Inr (True, m', freels[i := first_node xs (16 + h)])"
    and l': "dll m' NULL (first_node xs (16 + h)) (xs @ h # ys) NULL" and sN: "same_on (- nodes_of N) m m'"
    using insertFreeBlock_list [OF ao(4) [OF i(1)] i_def pos i(3) _ _ _ sp] by (auto simp: N_def)
  have "arena_ok u ex m' (freels[i := first_node xs (16 + h)]) (L[i := xs @ h # ys])"
  proof (rule arena_replace [OF a ok sub i(1) N(1,3) sN l'])
    show "distinct (concat (L[i := xs @ h # ys]))"
      using distinct_abs_insert [OF i(2), of "bsize m" h] ao(3) h(2) by (simp add: L')
    show "free_block m x \<and> class_ok u ex i (bsize m x)" if "x \<in> set (xs @ h # ys)" for x
      using that fb cl ao(5,6) [OF i(1), of x] unfolding hs by (auto simp: i_def)
    show "sorted (map (bsize m) (xs @ h # ys))" if "i = 64"
      using that ao(7) sp sorted_splice [of "bsize m" "L ! 64" h] by (simp add: spliced_def)
  qed (use hs N(1) in \<open>simp add: N_def\<close>)
  moreover have "same_on (- nodes_of (insert h (set (concat L)))) m m'"
    using sN nodes_of_mono [OF N(2)] by (elim same_on_mono) auto
  ultimately show ?thesis
    using that ins by (simp add: L' flip: i_def)
qed

lemma arena_remove:
  assumes a: "arena_ok u ex m freels L" and ok: "blocks_ok m B" and sub: "set (concat L) \<subseteq> B"
    and i: "i = clamp_pos pos" "0 \<le> pos" and c: "candidates (bsize m) (unat tot) i (L ! i) = h # ys"
  obtains m' freels' where "rmFromFreeLs pos tot m freels = Inr (16 + h, m', freels')"
    and "arena_ok u ex m' freels' (abs_remove h i L)" and "h \<in> set (L ! i)"
    and "same_on (- nodes_of (set (concat L))) m m'"
proof -
  obtain xs where hs: "L ! i = xs @ h # ys"
    using candidates_suffix [of "L ! i"] c by metis
  note ao = arena_okD [OF a]
  have il: "i < 65" "i < length L" "i < length freels"
    by (simp_all add: i ao)
  have Li: "set (L ! i) \<subseteq> set (concat L)"
    using il(2) by (rule concat_nth_subset)
  have d: "distinct (L ! i)" and ap: "apart (set (L ! i))"
    using distinct_concat_nth [OF ao(3) il(2)] blocks_ok_apart [OF ok] Li sub by (auto elim!: apart_mono)
  have rm: "remove1 h (L ! i) = xs @ ys"
    using d hs by (simp add: remove1_append)
  define m' where "m' = unlink_writes h xs ys m"
  have l': "dll m' NULL (first_node (xs @ ys) NULL) (xs @ ys) NULL"
    and s: "same_on (- nodes_of (set (L ! i))) m m'"
    using unlink_writes_list [of m _ xs h ys] ao(4) [OF il(1)] ap d by (auto simp: hs m'_def)
  have "arena_ok u ex m' (freels[i := first_node (xs @ ys) NULL]) (L[i := xs @ ys])"
  proof (rule arena_replace [OF a ok sub il(1) _ _ s l'])
    show "distinct (concat (L[i := xs @ ys]))"
      using abs_remove_set(3) [OF ao(3) il(2), of h] by (simp add: hs abs_remove_def flip: rm)
    show "free_block m x \<and> class_ok u ex i (bsize m x)" if "x \<in> set (xs @ ys)" for x
      using that ao(5,6) [OF il(1), of x] by (auto simp: hs)
    show "sorted (map (bsize m) (xs @ ys))" if "i = 64"
      using that ao(7) hs by (auto simp: sorted_append)
  qed (use Li sub in \<open>auto simp: hs\<close>)
  moreover have "same_on (- nodes_of (set (concat L))) m m'"
    using s nodes_of_mono [OF Li] by (elim same_on_mono) auto
  ultimately show ?thesis
    using that rmFromFreeLs_list [OF ao(4) [OF il(1)] i il(3) ap d c hs]
    by (simp add: hs abs_remove_def m'_def flip: rm)
qed

end
