(* ===== verification/Alloc_Core.thy ===== *)
theory Alloc_Core
  imports Free_List_Refinement
begin

text \<open>
  The part of \<open>allocateObject\<close> and \<open>freeObject\<close> that the one-layer allocator, the central heap and
  the thread cache have in common: they differ in the unit of their size classes (8 or 4096 bytes)
  and in where they get memory when their free lists cannot serve a request.  That source is an
  argument here.
\<close>

section \<open>The operating system's program break\<close>

record os =
  brk_start :: nat
  brk :: nat
  brk_limit :: nat

text \<open>\<open>(void*)-1\<close>\<close>

abbreviation SBRK_FAILED :: addr where
  "SBRK_FAILED \<equiv> 2 ^ 64 - 1"

definition sbrk :: "int \<Rightarrow> os \<Rightarrow> addr \<times> os" where
  "sbrk increment w =
     (let new = int (brk w) + increment in
      if int (brk_start w) \<le> new \<and> new \<le> int (brk_limit w)
      then (brk w, w\<lparr>brk := nat new\<rparr>)
      else (SBRK_FAILED, w))"

section \<open>Allocation\<close>

text \<open>A \<open>size_t\<close> passed for an \<open>int\<close> parameter keeps its low 32 bits, read as signed.\<close>

definition to_int :: "size_t \<Rightarrow> int" where
  "to_int w = sint (ucast w :: int32)"

function search_larger :: "addr list \<Rightarrow> nat \<Rightarrow> nat" where
  "search_larger freels index =
     (if index < NUMOFSIZECLASSES
      then if freels ! index \<noteq> NULL then index else search_larger freels (index + 1)
      else index)"
  by pat_completeness auto
termination
  by (relation "measure (\<lambda>(freels, index). NUMOFSIZECLASSES - index)") auto

declare search_larger.simps [simp del]

definition split_or_take ::
    "size_t \<Rightarrow> addr \<Rightarrow> size_t \<Rightarrow> mem \<Rightarrow> addr list \<Rightarrow> (addr \<times> size_t \<times> mem \<times> addr list) result" where
  "split_or_take unit toSplit totalSize m freels =
     (let realSize = obj_size m (header_of toSplit) in
      if realSize \<ge> totalSize + 16 + 2 * 16 then
        let newclass = (realSize - totalSize) div unit;
            splitobj = toSplit + unat totalSize - sizeof_ObjHeader;
            m = set_size splitobj (realSize - totalSize) m;
            m = set_flags splitobj ObjFree m;
            splitobj = toSplit + unat realSize - 2 * sizeof_ObjHeader;
            m = set_size splitobj (realSize - totalSize) m;
            m = set_flags splitobj ObjFree m
        in rbind (insertFreeBlock (toSplit + unat totalSize) (to_int newclass) m freels)
             (\<lambda>(ok, m, freels).
                if ok then Inr (header_of toSplit, totalSize, m, freels) else Inl AssertFail)
      else Inr (header_of toSplit, realSize, m, freels))"

definition allocate_body ::
    "size_t \<Rightarrow> (size_t \<Rightarrow> mem \<Rightarrow> 's \<Rightarrow> (addr \<times> size_t \<times> mem \<times> 's) result) \<Rightarrow>
     size_t \<Rightarrow> mem \<Rightarrow> addr list \<Rightarrow> 's \<Rightarrow> (addr \<times> size_t \<times> mem \<times> addr list \<times> 's) result" where
  "allocate_body unit getmem totalSize m freels s =
     (let index = (if totalSize div unit > 64 then 64 else unat (totalSize div unit)) in
      if freels ! index \<noteq> NULL then
        rbind (rmFromFreeLs (to_int (totalSize div unit)) totalSize m freels) (\<lambda>(p, m, freels).
          if p \<noteq> NULL then
            let mem = header_of p;
                totalSize = (if obj_size m mem > totalSize then obj_size m mem else totalSize)
            in Inr (mem, totalSize, m, freels, s)
          else
            rbind (getmem totalSize m s) (\<lambda>(mem, totalSize, m, s). Inr (mem, totalSize, m, freels, s)))
      else
        let index = search_larger freels (index + 1) in
        if index = NUMOFSIZECLASSES then
          rbind (getmem totalSize m s) (\<lambda>(mem, totalSize, m, s). Inr (mem, totalSize, m, freels, s))
        else
          rbind (rmFromFreeLs (int index) (of_nat index * unit) m freels) (\<lambda>(toSplit, m, freels).
            if toSplit = NULL then Inl BadAddress
            else
              rbind (split_or_take unit toSplit totalSize m freels) (\<lambda>(mem, totalSize, m, freels).
                Inr (mem, totalSize, m, freels, s))))"

text \<open>
  The last part of \<open>allocateObject\<close>: header and footer of the chosen block.
\<close>

definition stamp_allocated :: "addr \<Rightarrow> size_t \<Rightarrow> mem \<Rightarrow> mem" where
  "stamp_allocated obj totalSize m =
     (let m = set_size obj totalSize m;
          m = set_flags obj ObjAllocated m;
          obj = obj + unat totalSize - sizeof_ObjHeader;
          m = set_size obj totalSize m;
          m = set_flags obj ObjAllocated m
      in m)"

text \<open>
  The data of the process ends at the program break.  A store behind it is a segmentation fault; the other stores of the allocators
  go to blocks that they have got before, which end below the break.
\<close>

definition mapped :: "os \<Rightarrow> addr \<Rightarrow> nat \<Rightarrow> bool" where
  "mapped w a n \<longleftrightarrow> a + n \<le> brk w"

definition finish_allocate :: "os \<Rightarrow> addr \<Rightarrow> size_t \<Rightarrow> mem \<Rightarrow> (addr \<times> mem) result" where
  "finish_allocate w obj totalSize m =
     (if mapped w obj sizeof_ObjHeader \<and> mapped w (obj + unat totalSize - sizeof_ObjHeader) sizeof_ObjHeader
      then Inr (obj + sizeof_ObjHeader, stamp_allocated obj totalSize m)
      else Inl BadAddress)"

lemma finish_allocate_ok:
  assumes "16 \<le> unat t" "h + unat t \<le> brk w"
  shows "finish_allocate w h t m = Inr (16 + h, stamp_allocated h t m)"
  using assms by (simp add: finish_allocate_def mapped_def)

text \<open>
  \<open>freeObject\<close>: the footer's flag is set, the footer's size is left as it is.
\<close>

definition free_body :: "size_t \<Rightarrow> addr \<Rightarrow> mem \<Rightarrow> addr list \<Rightarrow> (mem \<times> addr list) result" where
  "free_body unit ptr m freels =
     (let obj = header_of ptr;
          totalSize = obj_size m obj
      in if totalSize < 16 + 2 * 16 then Inr (m, freels)
         else
           let m = set_flags obj ObjFree m;
               obj = obj + unat totalSize - sizeof_ObjHeader;
               m = set_flags obj ObjFree m
           in rbind (insertFreeBlock ptr (to_int (totalSize div unit)) m freels)
                (\<lambda>(ok, m, freels). if ok then Inr (m, freels) else Inl AssertFail))"

definition objectSize :: "addr \<Rightarrow> mem \<Rightarrow> size_t" where
  "objectSize ptr m = obj_size m (header_of ptr) - push_bit 1 16"

end
