(* ===== verification/Mem_Source.thy ===== *)
theory Mem_Source
  imports Alloc_Core
begin

text \<open>
  What a source of memory promises to an allocator, as the locale \<open>mem_source\<close>, and the proof that
  an arena of free lists on top of a source serves every request: the block it hands out lies
  apart from all others, is large enough, and nothing in other blocks changes.  An arena is again a
  source, so the contract carries over from the operating system to the central heap and from
  there to a thread cache.
\<close>

section \<open>Whole blocks\<close>

definition block :: "mem \<Rightarrow> addr \<Rightarrow> addr set" where
  "block m b = {b..<b + bsize m b}"

lemma block_same:
  assumes "same_on (block m b) m m'" "48 \<le> bsize m b"
  shows "bsize m' b = bsize m b" "free_block m' b = free_block m b"
    "same_on {16 + b..<32 + b} m m'"
proof -
  have s: "same_on {b..<16 + b} m m'" "same_on {b + bsize m b - 16..<b + bsize m b} m m'"
    "same_on {8 + b..<16 + b} m m'" "same_on {16 + b..<32 + b} m m'"
    using assms(2) by (auto simp: block_def intro!: same_on_mono [OF assms(1)])
  show "bsize m' b = bsize m b" "free_block m' b = free_block m b" "same_on {16 + b..<32 + b} m m'"
    by (rule bsize_same_on [OF s(3)] free_block_same_on [OF assms(2) s(1,2)] s(4))+
qed

lemma blocks_ok_same:
  assumes "blocks_ok m B" "\<And>b. b \<in> B \<Longrightarrow> same_on (block m b) m m'"
  shows "blocks_ok m' B"
  using assms blocks_okD(1) [OF assms(1)] block_same(1) blocks_ok_cong [of B m' m] by metis

lemma arena_ok_same:
  assumes a: "arena_ok u ex m freels L" and ok: "blocks_ok m B" "set (concat L) \<subseteq> B"
    and s: "\<And>b. b \<in> set (concat L) \<Longrightarrow> same_on (block m b) m m'"
  shows "arena_ok u ex m' freels L"
proof (rule arena_ok_cong [OF a])
  have 48: "48 \<le> bsize m b" if "b \<in> set (concat L)" for b
    using ok that by (auto dest: blocks_okD)
  show "same_on (nodes_of (set (concat L))) m m'"
    using block_same(3) [OF s 48] unfolding nodes_of_def same_on_def by blast
  show "bsize m' h = bsize m h \<and> free_block m' h = free_block m h" if "h \<in> set (concat L)" for h
    using block_same [OF s 48] that by blast
qed

lemma block_outside_node_writes:
  assumes "blocks_ok m B" "N \<subseteq> B" "same_on (- nodes_of N) m m'" "b \<in> B" "b \<notin> N"
  shows "same_on (block m b) m m'"
  using block_outside_nodes(3) [OF assms(1,4,2,5)] assms(3)
  by (auto simp: block_def intro: same_on_outside)


section \<open>Tags\<close>

text \<open>Header and footer of a block, written alike.\<close>

definition stamp :: "int32 \<Rightarrow> addr \<Rightarrow> size_t \<Rightarrow> mem \<Rightarrow> mem" where
  "stamp f h s m =
     (let ft = h + unat s - 16
      in set_flags ft f (set_size ft s (set_flags h f (set_size h s m))))"

lemma stamp_allocated_eq: "stamp_allocated = stamp ObjAllocated"
  by (simp add: fun_eq_iff stamp_allocated_def stamp_def Let_def)

lemma stamp_facts:
  assumes "48 \<le> unat s"
  shows "bsize (stamp f h s m) h = unat s" "obj_flags (stamp f h s m) h = f"
    "bsize (stamp f h s m) (h + unat s - 16) = unat s" "obj_flags (stamp f h s m) (h + unat s - 16) = f"
    "same_on (- ({h..<16 + h} \<union> {h + unat s - 16..<h + unat s})) m (stamp f h s m)"
proof -
  obtain k where k: "unat s = k + 48"
    using assms by (metis add.commute le_Suc_ex)
  show "bsize (stamp f h s m) h = unat s" "obj_flags (stamp f h s m) h = f"
    "bsize (stamp f h s m) (h + unat s - 16) = unat s" "obj_flags (stamp f h s m) (h + unat s - 16) = f"
    by (simp_all add: stamp_def Let_def bsize_def k)
  show "same_on (- ({h..<16 + h} \<union> {h + unat s - 16..<h + unat s})) m (stamp f h s m)"
    unfolding stamp_def Let_def
    by (intro same_on_store32I same_on_store64I same_on_refl) (auto simp: k)
qed

lemma stamp_free:
  assumes "48 \<le> unat s"
  shows "free_block (stamp ObjFree h s m) h"
  using stamp_facts(1-4) [OF assms, where f = ObjFree and h = h and m = m] by (simp add: free_block_def)

lemma stamp_outside:
  assumes "48 \<le> unat s" "A \<inter> {h..<h + unat s} = {}"
  shows "same_on A m (stamp f h s m)"
proof (rule same_on_mono [OF stamp_facts(5) [OF assms(1), of h m f]])
  have "{h..<16 + h} \<union> {h + unat s - 16..<h + unat s} \<subseteq> {h..<h + unat s}"
    using assms(1) by auto
  then show "A \<subseteq> - ({h..<16 + h} \<union> {h + unat s - 16..<h + unat s})"
    using assms(2) by blast
qed

section \<open>Free regions\<close>

text \<open>A region that a block could occupy, apart from the blocks \<open>C\<close>.\<close>

definition spot :: "mem \<Rightarrow> addr set \<Rightarrow> addr \<Rightarrow> nat \<Rightarrow> bool" where
  "spot m C h t \<longleftrightarrow> region_ok h t \<and> (\<forall>b \<in> C. b + bsize m b \<le> h \<or> h + t \<le> b)"

lemma spot_block_disjoint:
  assumes "spot m C h t" "b \<in> C"
  shows "block m b \<inter> {h..<h + t} = {}"
proof -
  have "b + bsize m b \<le> h \<or> h + t \<le> b"
    using assms by (simp add: spot_def)
  then show ?thesis
    by (auto simp: block_def)
qed

lemma spot_sub:
  assumes "spot m C h t" "h \<le> h2" "h2 + t2 \<le> h + t" "48 \<le> t2" "8 dvd h2" "8 dvd t2"
  shows "spot m C h2 t2"
  unfolding spot_def
proof
  show "region_ok h2 t2"
    using assms by (auto simp: spot_def region_ok_def)
  have "b + bsize m b \<le> h \<or> h + t \<le> b" if "b \<in> C" for b
    using assms(1) that by (simp add: spot_def)
  then show "\<forall>b \<in> C. b + bsize m b \<le> h2 \<or> h2 + t2 \<le> b"
    using assms(2,3) by (meson order_trans)
qed

lemma spot_notin:
  assumes "spot m C h t" "blocks_ok m C"
  shows "h \<notin> C"
proof
  assume "h \<in> C"
  then have "h + bsize m h \<le> h \<or> h + t \<le> h" "48 \<le> t" "48 \<le> bsize m h"
    using assms blocks_okD(1) [OF assms(2)] unfolding spot_def region_ok_def by blast+
  then show False by simp
qed

lemma blocks_ok_insert_spot:
  assumes "blocks_ok m C" "spot m C h (bsize m h)"
  shows "blocks_ok m (insert h C)"
  using assms unfolding blocks_ok_def spot_def by blast

lemma blocks_ok_remove_spot:
  assumes "blocks_ok m B" "h \<in> B"
  shows "spot m (B - {h}) h (bsize m h)"
  using assms unfolding blocks_ok_def spot_def by blast

lemma spot_same:
  assumes "spot m C h t" "blocks_ok m C" "\<And>b. b \<in> C \<Longrightarrow> same_on (block m b) m m'"
  shows "spot m' C h t"
proof -
  have "bsize m' b = bsize m b" if "b \<in> C" for b
    using assms(3) [OF that] blocks_okD(1) [OF assms(2) that] by (rule block_same)
  then show ?thesis
    using assms(1) by (simp add: spot_def)
qed

lemma spot_stamp:
  assumes sp: "spot m C h (unat s)" and ok: "blocks_ok m C"
  shows "blocks_ok (stamp f h s m) (insert h C)"
    and "b \<in> C \<Longrightarrow> same_on (block m b) m (stamp f h s m)"
proof -
  have 48: "48 \<le> unat s"
    using sp by (simp add: spot_def region_ok_def)
  show same: "same_on (block m b) m (stamp f h s m)" if "b \<in> C" for b
    using spot_block_disjoint [OF sp that] 48 by (intro stamp_outside)
  show "blocks_ok (stamp f h s m) (insert h C)"
    using spot_same [OF sp ok same] blocks_ok_same [OF ok same] stamp_facts(1) [OF 48]
    by (intro blocks_ok_insert_spot) simp_all
qed

section \<open>Bytes in the free lists\<close>

definition fsum :: "mem \<Rightarrow> addr list list \<Rightarrow> nat" where
  "fsum m L = sum_list (map (bsize m) (concat L))"

lemma fsum_cong:
  assumes "\<And>b. b \<in> set (concat L) \<Longrightarrow> bsize m' b = bsize m b"
  shows "fsum m' L = fsum m L"
  using assms unfolding fsum_def by (metis map_cong)

lemma fsum_mset: "mset (concat L) = add_mset h (mset (concat L')) \<Longrightarrow> fsum m L = bsize m h + fsum m L'"
  using arg_cong [of "mset (concat L)" "add_mset h (mset (concat L'))" "\<lambda>M. sum_mset (image_mset (bsize m) M)"]
  by (simp add: fsum_def flip: sum_mset_sum_list)

lemma fsum_insert:
  assumes "pos < length L"
  shows "fsum m (abs_insert sz h pos L) = bsize m h + fsum m L"
  using mset_abs_insert [OF assms] by (rule fsum_mset)

lemma fsum_remove:
  assumes "pos < length L" "h \<in> set (L ! pos)"
  shows "fsum m L = bsize m h + fsum m (abs_remove h pos L)"
  using mset_abs_remove [OF assms] by (rule fsum_mset)

lemma fsum_same:
  assumes "blocks_ok m B" "set (concat L) \<subseteq> B" "\<And>b. b \<in> set (concat L) \<Longrightarrow> same_on (block m b) m m'"
  shows "fsum m' L = fsum m L"
  using assms(1,2) by (intro fsum_cong block_same(1) assms(3)) (auto dest: blocks_okD)

section \<open>The contract of a source\<close>

text \<open>
  \<open>served B F tp m m' F' h t n\<close>: a request for \<open>n\<close> bytes, made when the blocks were \<open>B\<close> and \<open>F\<close>
  of them belonged to the source, was answered with the region of \<open>t\<close> bytes at \<open>h\<close>; the source
  now holds \<open>F'\<close>, all blocks lie apart and below \<open>tp\<close>, and no byte of another block changed.
\<close>

definition served ::
    "addr set \<Rightarrow> addr set \<Rightarrow> nat \<Rightarrow> mem \<Rightarrow> mem \<Rightarrow> addr set \<Rightarrow> addr \<Rightarrow> nat \<Rightarrow> nat \<Rightarrow> bool" where
  "served B F tp m m' F' h t n \<longleftrightarrow>
     n \<le> t \<and> h + t \<le> tp \<and> F' \<inter> (B - F) = {} \<and> blocks_ok m' ((B - F) \<union> F') \<and>
     spot m' ((B - F) \<union> F') h t \<and> (\<forall>b \<in> (B - F) \<union> F'. b + bsize m' b \<le> tp) \<and>
     (\<forall>b \<in> B - F. same_on (block m b) m m')"

text \<open>
  The parameters: the operation; \<open>held m s F c\<close>, the source in state \<open>s\<close> owns the free blocks
  \<open>F\<close> and has \<open>c\<close> bytes out with its clients; \<open>room s n\<close>, the state can still serve \<open>n\<close>
  bytes; \<open>hi s\<close>, the end of the memory in use.
\<close>

locale mem_source =
  fixes getmem :: "size_t \<Rightarrow> mem \<Rightarrow> 's \<Rightarrow> (addr \<times> size_t \<times> mem \<times> 's) result"
    and held :: "mem \<Rightarrow> 's \<Rightarrow> addr set \<Rightarrow> nat \<Rightarrow> bool"
    and room :: "'s \<Rightarrow> nat \<Rightarrow> bool"
    and hi :: "'s \<Rightarrow> nat"
  assumes held_same:
    "held m s F c \<Longrightarrow> blocks_ok m F \<Longrightarrow> (\<And>b. b \<in> F \<Longrightarrow> same_on (block m b) m m') \<Longrightarrow> held m' s F c"
    and getmem_served:
    "held m s F c \<Longrightarrow> blocks_ok m B \<Longrightarrow> F \<subseteq> B \<Longrightarrow> (\<And>b. b \<in> B \<Longrightarrow> b + bsize m b \<le> hi s) \<Longrightarrow>
     48 \<le> unat n \<Longrightarrow> 8 dvd unat n \<Longrightarrow> room s (unat n) \<Longrightarrow>
     \<exists>h t m' s' F'. getmem n m s = Inr (h, t, m', s') \<and> held m' s' F' (c + unat t) \<and>
       served B F (hi s') m m' F' h (unat t) (unat n)"

text \<open>What an arena of free lists over a source holds.\<close>

definition arena_held ::
    "nat \<Rightarrow> bool \<Rightarrow> (mem \<Rightarrow> 's \<Rightarrow> addr set \<Rightarrow> nat \<Rightarrow> bool) \<Rightarrow>
     mem \<Rightarrow> addr list \<times> 's \<Rightarrow> addr set \<Rightarrow> nat \<Rightarrow> bool" where
  "arena_held u ex held m st F c \<longleftrightarrow>
     (\<exists>L F0 c0. arena_ok u ex m (fst st) L \<and> held m (snd st) F0 c0 \<and>
        F = set (concat L) \<union> F0 \<and> set (concat L) \<inter> F0 = {} \<and> c + fsum m L = c0)"

lemma arena_heldI:
  assumes "arena_ok u ex m freels L" "held m s F0 (c + fsum m L)" "set (concat L) \<inter> F0 = {}"
  shows "arena_held u ex held m (freels, s) (set (concat L) \<union> F0) c"
  using assms by (auto simp: arena_held_def)

section \<open>Class numbers\<close>

lemma to_int_small:
  assumes "unat w < 2 ^ 31"
  shows "to_int w = int (unat w)"
proof -
  have "int (unat w) < int (2 ^ 31)"
    using assms by (simp only: of_nat_less_iff)
  then have u: "uint w < 2 ^ 31"
    by (simp only: uint_nat of_nat_power of_nat_numeral)
  then have "uint (ucast w :: int32) = uint w"
    by (subst unsigned_ucast_eq) (simp add: take_bit_int_eq_self_iff)
  then have "to_int w = signed_take_bit 31 (uint w)"
    by (simp add: to_int_def sint_uint)
  also have "\<dots> = uint w"
    using u by (intro signed_take_bit_int_eq_self order_trans [OF _ unsigned_greater_eq]) simp_all
  also have "\<dots> = int (unat w)"
    by (rule uint_nat)
  finally show ?thesis .
qed

lemma class_number:
  assumes "8 \<le> unat u" "unat n < 2 ^ 34"
  shows "to_int (n div u) = int (unat n div unat u)"
    and "(if n div u > 64 then 64 else unat (n div u)) = clamp_pos (int (unat n div unat u))"
proof -
  have "unat n div unat u < 2 ^ 31"
    using assms by (simp add: less_mult_imp_div_less order_less_le_trans)
  then show "to_int (n div u) = int (unat n div unat u)"
    by (simp add: to_int_small unat_div_word)
  show "(if n div u > 64 then 64 else unat (n div u)) = clamp_pos (int (unat n div unat u))"
    by (auto simp: clamp_pos_def word_less_nat_alt unat_div_word)
qed

lemma class_ok_own:
  assumes "ex \<Longrightarrow> u dvd n"
  shows "class_ok u ex (clamp_pos (int (n div u))) n"
proof (cases "n div u \<le> 64")
  case True
  then show ?thesis
    using assms by (auto simp: class_ok_def clamp_pos_def dvd_mult_div_cancel)
next
  case False
  then have "64 * u \<le> n div u * u"
    by (intro mult_right_mono) simp_all
  then have "64 * u \<le> n"
    using div_times_less_eq_dividend by (rule order_trans)
  then show ?thesis
    using False by (simp add: class_ok_def clamp_pos_def)
qed

lemma search_larger_bounds:
  assumes "index \<le> NUMOFSIZECLASSES"
  shows "index \<le> search_larger freels index \<and> search_larger freels index \<le> NUMOFSIZECLASSES \<and>
    (search_larger freels index < NUMOFSIZECLASSES \<longrightarrow> freels ! search_larger freels index \<noteq> NULL)"
  using assms
proof (induction freels index rule: search_larger.induct)
  case (1 freels index)
  then show ?case
    by (subst (1 2 3 4) search_larger.simps) (auto simp: not_less)
qed

lemma candidate_fits:
  assumes "arena_ok u ex m freels L" "i < 65" "candidates (bsize m) tot i (L ! i) = h # ys"
    and "i < 64 \<Longrightarrow> tot \<le> i * u"
  shows "tot \<le> bsize m h"
proof (cases "i = 64")
  case True
  then have "dropWhile (\<lambda>x. bsize m x < tot) (L ! i) = h # ys"
    using assms(3) by (simp add: candidates_def)
  then have "\<not> bsize m h < tot"
    unfolding dropWhile_eq_Cons_conv by blast
  then show ?thesis
    by simp
next
  case False
  then have "h \<in> set (L ! i)"
    using assms(3) by (simp add: candidates_def)
  then have "i * u \<le> bsize m h"
    using arena_okD(6) [OF assms(1,2)] by (simp add: class_ok_def)
  then show ?thesis
    using assms(2,4) False by (intro order_trans [OF assms(4)]) simp_all
qed

lemma candidates_whole_class:
  assumes "arena_ok u ex m freels L" "i < 65"
  shows "candidates (bsize m) (i * u) i (L ! i) = L ! i"
proof -
  have "dropWhile (\<lambda>x. bsize m x < i * u) (L ! i) = L ! i"
    using arena_okD(6) [OF assms] by (cases "L ! i") (auto simp: class_ok_def not_less)
  then show ?thesis
    unfolding candidates_def by metis
qed

text \<open>When no free block is large enough, the lists cannot serve the request and the source is asked.\<close>

lemma allocate_body_no_fit:
  assumes L: "arena_ok (unat u) ex m freels L" and u: "8 \<le> unat u" and n: "unat n < 2 ^ 34" "unat u dvd unat n"
    and none: "\<And>h. h \<in> set (concat L) \<Longrightarrow> bsize m h < unat n"
  shows "allocate_body u getmem n m freels s =
    rbind (getmem n m s) (\<lambda>(mem, totalSize, m, s). Inr (mem, totalSize, m, freels, s))"
proof -
  define q where "q = int (unat n div unat u)"
  define i where "i = clamp_pos q"
  note ao = arena_okD [OF L]
  have q: "to_int (n div u) = q" "(if n div u > 64 then 64 else unat (n div u)) = i" "0 \<le> q" "i < 65"
    using class_number [OF u n(1)] by (simp_all add: q_def i_def)
  have iu: "unat n = i * unat u" if "i < 64"
    using that n(2) by (auto simp: i_def q_def clamp_pos_def split: if_splits)
  have sub: "set (L ! j) \<subseteq> set (concat L)" if "j < 65" for j
    using that ao(2) by (intro concat_nth_subset) simp
  have "candidates (bsize m) (unat n) i (L ! i) = []"
  proof (cases "candidates (bsize m) (unat n) i (L ! i)")
    case (Cons h ys)
    then have "unat n \<le> bsize m h" "h \<in> set (L ! i)"
      using candidate_fits [OF L q(4) Cons] iu candidates_suffix [of "L ! i" "bsize m" "unat n" i] by (auto simp: Cons)
    then show ?thesis
      using none sub [OF q(4)] by (meson not_le subsetD)
  qed
  note rm = rmFromFreeLs_none [OF ao(4) [OF q(4)] i_def q(3) this]
  have "freels ! j = NULL" if j: "i < j" "j < 65" for j
  proof (cases "L ! j")
    case (Cons h hs)
    have "i * unat u \<le> j * unat u" "j * unat u \<le> bsize m h"
      using j ao(6) [OF j(2), of h] by (simp_all add: Cons class_ok_def)
    then have "unat n \<le> bsize m h"
      using iu j order_trans [of "i * unat u" "j * unat u" "bsize m h"] by simp
    then show ?thesis
      using none [of h] sub [OF j(2)] by (auto simp: Cons)
  qed (use ao(4) [OF j(2)] in \<open>simp add: dll_NULL_iff\<close>)
  then have "search_larger freels (i + 1) = NUMOFSIZECLASSES"
    using search_larger_bounds [of "i + 1" freels] q(4) by (metis Suc_eq_plus1 Suc_le_eq le_neq_implies_less)
  then show ?thesis
    using rm unfolding allocate_body_def Let_def q by simp
qed

section \<open>An arena over a source\<close>

text \<open>An arena at work: its lists \<open>L\<close>, the blocks \<open>F0\<close> of its source, all blocks \<open>B\<close>.\<close>

definition arena_at ::
    "nat \<Rightarrow> bool \<Rightarrow> (mem \<Rightarrow> 's \<Rightarrow> addr set \<Rightarrow> nat \<Rightarrow> bool) \<Rightarrow> addr set \<Rightarrow>
     mem \<Rightarrow> addr list \<Rightarrow> 's \<Rightarrow> addr list list \<Rightarrow> addr set \<Rightarrow> nat \<Rightarrow> bool" where
  "arena_at u ex held B m freels s L F0 c \<longleftrightarrow>
     arena_ok u ex m freels L \<and> held m s F0 (c + fsum m L) \<and> set (concat L) \<inter> F0 = {} \<and>
     blocks_ok m B \<and> set (concat L) \<union> F0 \<subseteq> B"

lemma arena_atD:
  assumes "arena_at u ex held B m freels s L F0 c"
  shows "arena_ok u ex m freels L" "held m s F0 (c + fsum m L)" "set (concat L) \<inter> F0 = {}"
    "blocks_ok m B" "set (concat L) \<subseteq> B" "F0 \<subseteq> B"
  using assms by (auto simp: arena_at_def)

text \<open>The two outcomes of looking at a block that is larger than the request.\<close>

lemma split_or_take_eq:
  assumes "unat n < 2 ^ 34"
  shows "unat n + 48 \<le> bsize m h \<Longrightarrow>
     split_or_take unit (16 + h) n m freels =
       rbind (insertFreeBlock (16 + (h + unat n)) (to_int ((obj_size m h - n) div unit))
                (stamp ObjFree (h + unat n) (obj_size m h - n) m) freels)
         (\<lambda>(ok, m, freels). if ok then Inr (h, n, m, freels) else Inl AssertFail)"
    and "bsize m h < unat n + 48 \<Longrightarrow>
     split_or_take unit (16 + h) n m freels = Inr (h, obj_size m h, m, freels)"
proof -
  have "unat (n + 16 + 2 * 16) = unat n + 48"
    using assms by (simp add: unat_simps)
  then have le: "n + 16 + 2 * 16 \<le> obj_size m h \<longleftrightarrow> unat n + 48 \<le> bsize m h"
    by (simp only: word_le_nat_alt bsize_def)
  show "split_or_take unit (16 + h) n m freels =
       rbind (insertFreeBlock (16 + (h + unat n)) (to_int ((obj_size m h - n) div unit))
                (stamp ObjFree (h + unat n) (obj_size m h - n) m) freels)
         (\<lambda>(ok, m, freels). if ok then Inr (h, n, m, freels) else Inl AssertFail)"
    if n: "unat n + 48 \<le> bsize m h"
  proof -
    have "unat (obj_size m h - n) = unat (obj_size m h) - unat n"
      using that by (intro unat_sub) (simp add: word_le_nat_alt bsize_def)
    then have "h + unat n + unat (obj_size m h - n) - 16 = 16 + h + unat (obj_size m h) - 2 * 16"
      using that by (simp add: bsize_def)
    moreover have "header_of (16 + h) = h" "16 + h + unat n - 16 = h + unat n" "16 + h + unat n = 16 + (h + unat n)"
      by simp_all
    moreover have "n + 16 + 2 * 16 \<le> obj_size m h"
      using n le by blast
    ultimately show ?thesis
      unfolding split_or_take_def stamp_def Let_def by (simp only: if_True refl)
  qed
  show "split_or_take unit (16 + h) n m freels = Inr (h, obj_size m h, m, freels)"
    if "bsize m h < unat n + 48"
    using that le by (simp add: split_or_take_def)
qed

locale arena_over = mem_source +
  fixes unit :: size_t and ex :: bool
  assumes unit_bounds: "8 \<le> unat unit" "unat unit \<le> 4096" "8 dvd unat unit"
    and exact_unit: "ex \<Longrightarrow> unat unit = 8"
begin

abbreviation at :: "addr set \<Rightarrow> mem \<Rightarrow> addr list \<Rightarrow> 'a \<Rightarrow> addr list list \<Rightarrow> addr set \<Rightarrow> nat \<Rightarrow> bool" where
  "at \<equiv> arena_at (unat unit) ex held"

lemma at_same:
  assumes a: "at B m freels s L F0 c" and s: "\<And>b. b \<in> B \<Longrightarrow> same_on (block m b) m m'"
  shows "at B m' freels s L F0 c"
proof -
  note d = arena_atD [OF a]
  note sL = s [OF subsetD [OF d(5)]] and sF = s [OF subsetD [OF d(6)]]
  have "fsum m' L = fsum m L"
    using fsum_same [OF d(4,5) sL] .
  moreover have "arena_ok (unat unit) ex m' freels L"
    using arena_ok_same [OF d(1,4,5) sL] .
  moreover have "held m' s F0 (c + fsum m L)"
    using held_same [OF d(2) blocks_ok_mono [OF d(4,6)] sF] .
  moreover have "blocks_ok m' B"
    using blocks_ok_same [OF d(4) s] .
  ultimately show ?thesis
    using d by (simp add: arena_at_def)
qed

lemma at_take:
  assumes a: "at B m freels s L F0 c" and i: "i = clamp_pos pos" "0 \<le> pos"
    and cand: "candidates (bsize m) (unat tot) i (L ! i) = h # ys"
  obtains m' freels' where "rmFromFreeLs pos tot m freels = Inr (16 + h, m', freels')"
    and "at (B - {h}) m' freels' s (abs_remove h i L) F0 (c + bsize m h)"
    and "h \<in> set (L ! i)" and "spot m' (B - {h}) h (bsize m h)" and "bsize m' h = bsize m h"
    and "\<And>b. b \<in> B \<Longrightarrow> bsize m' b = bsize m b"
    and "\<And>b. b \<in> B - set (concat L) \<Longrightarrow> same_on (block m b) m m'"
proof -
  note d = arena_atD [OF a] and ao = arena_okD [OF arena_atD(1) [OF a]]
  obtain m' freels' where rm: "rmFromFreeLs pos tot m freels = Inr (16 + h, m', freels')"
    and ao': "arena_ok (unat unit) ex m' freels' (abs_remove h i L)" and h: "h \<in> set (L ! i)"
    and fr: "same_on (- nodes_of (set (concat L))) m m'"
    using arena_remove [OF d(1,4,5) i cand] by blast
  have il: "i < length L"
    using i by (simp add: ao)
  note rem = abs_remove_set [OF ao(3) il h]
  have hB: "h \<in> B"
    using rem(1) d(5) by blast
  have sz: "bsize m' b = bsize m b" if "b \<in> B" for b
    using bsize_frame [OF d(4,5) fr that] .
  have same: "same_on (block m b) m m'" if "b \<in> B - set (concat L)" for b
    using block_outside_node_writes [OF d(4,5) fr] that by blast
  have ok': "blocks_ok m' B"
    using blocks_ok_cong [of B m' m] sz d(4) by blast
  have "held m' s F0 (c + fsum m L)"
    using d(3,6) by (intro held_same [OF d(2) blocks_ok_mono [OF d(4,6)]] same) blast
  moreover have "fsum m' (abs_remove h i L) = fsum m (abs_remove h i L)"
    using rem(1) d(5) by (intro fsum_cong sz) blast
  ultimately have "held m' s F0 (c + bsize m h + fsum m' (abs_remove h i L))"
    using fsum_remove [OF il h, of m] by (simp add: ac_simps)
  then have "at (B - {h}) m' freels' s (abs_remove h i L) F0 (c + bsize m h)"
    using ao' blocks_ok_mono [OF ok', of "B - {h}"] rem d(3,5,6) unfolding arena_at_def by blast
  moreover have "spot m' (B - {h}) h (bsize m h)"
    using blocks_ok_remove_spot [OF ok' hB] sz [OF hB] by simp
  ultimately show ?thesis
    using that rm h sz hB same by blast
qed

lemma at_put:
  assumes a: "at C m freels s L F0 (c + bsize m h)" and sp: "spot m C h (bsize m h)"
    and fb: "free_block m h"
  obtains m' freels' L' where
    "insertFreeBlock (16 + h) (to_int (obj_size m h div unit)) m freels = Inr (True, m', freels')"
    and "at (insert h C) m' freels' s L' F0 c" and "set (concat L') = insert h (set (concat L))"
    and "\<And>b. b \<in> insert h C \<Longrightarrow> bsize m' b = bsize m b"
    and "\<And>b. b \<in> C - set (concat L) \<Longrightarrow> same_on (block m b) m m'"
proof -
  note d = arena_atD [OF a] and ao = arena_okD [OF arena_atD(1) [OF a]]
  define B where "B = insert h C"
  define pos where "pos = to_int (obj_size m h div unit)"
  define L' where "L' = abs_insert (bsize m) h (clamp_pos pos) L"
  have ok: "blocks_ok m B" and hC: "h \<notin> C"
    using blocks_ok_insert_spot [OF d(4) sp] spot_notin [OF sp d(4)] by (simp_all add: B_def)
  have rg: "unat (obj_size m h) < 2 ^ 34" "8 dvd bsize m h"
    using sp by (auto simp: spot_def region_ok_def bsize_def)
  have pos: "pos = int (bsize m h div unat unit)"
    using class_number(1) [OF unit_bounds(1) rg(1)] by (simp add: pos_def bsize_def)
  have cl: "class_ok (unat unit) ex (clamp_pos pos) (bsize m h)"
    unfolding pos using exact_unit rg(2) by (intro class_ok_own) simp
  have LB: "set (concat L) \<subseteq> B" "h \<in> B" "h \<notin> set (concat L)"
    using d(5) hC by (auto simp: B_def)
  obtain m' freels' where ins: "insertFreeBlock (16 + h) pos m freels = Inr (True, m', freels')"
    and ao': "arena_ok (unat unit) ex m' freels' L'"
    and fr: "same_on (- nodes_of (insert h (set (concat L)))) m m'"
    using arena_insert [OF d(1) ok LB fb cl] pos unfolding L'_def by (metis of_nat_0_le_iff)
  have set': "set (concat L') = insert h (set (concat L))"
    unfolding L'_def by (rule set_abs_insert) (simp add: ao)
  have N: "insert h (set (concat L)) \<subseteq> B"
    using LB by blast
  have sz: "bsize m' b = bsize m b" if "b \<in> B" for b
    using bsize_frame [OF ok N fr that] .
  have same: "same_on (block m b) m m'" if "b \<in> C - set (concat L)" for b
    using block_outside_node_writes [OF ok N fr, of b] that hC B_def by blast
  have ok': "blocks_ok m' B"
    using blocks_ok_cong [of B m' m] sz ok by blast
  have "held m' s F0 (c + bsize m h + fsum m L)"
    using d(3,6) by (intro held_same [OF d(2) blocks_ok_mono [OF d(4,6)]] same) blast
  moreover have "fsum m' L' = bsize m h + fsum m L"
  proof -
    have "fsum m' L' = fsum m L'"
      using set' N by (intro fsum_cong sz) blast
    then show ?thesis
      unfolding L'_def by (simp add: fsum_insert ao)
  qed
  ultimately have "at B m' freels' s L' F0 c"
    using ao' ok' set' N d(3,6) hC unfolding arena_at_def B_def by (auto simp: ac_simps)
  then show ?thesis
    using that [OF _ _ set'] ins sz same unfolding pos_def B_def by blast
qed

lemma at_split:
  assumes a: "at C m freels s L F0 (c + bsize m h)" and sp: "spot m C h (bsize m h)"
    and n: "48 \<le> unat n" "8 dvd unat n" "unat n + 48 \<le> bsize m h"
  obtains m' freels' L' where
    "split_or_take unit (16 + h) n m freels = Inr (h, n, m', freels')"
    and "at (insert (h + unat n) C) m' freels' s L' F0 (c + unat n)"
    and "set (concat L') = insert (h + unat n) (set (concat L))" and "h + unat n \<notin> C"
    and "spot m' (insert (h + unat n) C) h (unat n)"
    and "\<And>b. b \<in> C \<Longrightarrow> bsize m' b = bsize m b"
    and "h + unat n + bsize m' (h + unat n) = h + bsize m h"
    and "\<And>b. b \<in> C - set (concat L) \<Longrightarrow> same_on (block m b) m m'"
proof -
  define real where "real = obj_size m h"
  define r where "r = h + unat n"
  define m1 where "m1 = stamp ObjFree r (real - n) m"
  have rg: "region_ok h (unat real)" and bs: "bsize m h = unat real"
    using sp by (simp_all add: spot_def real_def bsize_def)
  have nr: "n \<le> real"
    using n unfolding bs by (simp add: word_le_nat_alt)
  have sub: "unat (real - n) = unat real - unat n"
    using nr by (rule unat_sub)
  have dv: "8 dvd unat real - unat n" "8 dvd r" "r + (unat real - unat n) = h + unat real"
    using rg n unfolding bs region_ok_def r_def by (auto simp: dvd_diff_nat)
  have spr: "spot m C r (unat (real - n))" and sph: "spot m C h (unat n)"
    using sp n rg dv unfolding bs sub region_ok_def r_def by (auto elim!: spot_sub)
  note d = arena_atD [OF a]
  have same1: "same_on (block m b) m m1" if "b \<in> C" for b
    unfolding m1_def using spot_stamp(2) [OF spr d(4) that] .
  have 48: "48 \<le> unat (real - n)"
    using n unfolding bs sub by simp
  have o1: "obj_size m1 r = real - n" and b1: "bsize m1 r = unat (real - n)"
    using stamp_facts(1) [OF 48, of ObjFree r m] by (simp_all add: m1_def bsize_def word_unat_eq_iff)
  have "at C m1 freels s L F0 (c + unat n + bsize m1 r)"
    using at_same [OF a same1] nr unfolding bs b1 sub by (simp add: word_le_nat_alt)
  moreover have "spot m1 C r (bsize m1 r)"
    unfolding b1 using spot_same [OF spr d(4) same1] .
  moreover have "free_block m1 r"
    unfolding m1_def using 48 by (rule stamp_free)
  ultimately obtain m' freels' L' where
    ins: "insertFreeBlock (16 + r) (to_int ((real - n) div unit)) m1 freels = Inr (True, m', freels')"
    and at': "at (insert r C) m' freels' s L' F0 (c + unat n)"
    and set': "set (concat L') = insert r (set (concat L))"
    and sz': "\<And>b. b \<in> insert r C \<Longrightarrow> bsize m' b = bsize m1 b"
    and same': "\<And>b. b \<in> C - set (concat L) \<Longrightarrow> same_on (block m1 b) m1 m'"
    by (rule at_put) (unfold o1, blast)
  have szC: "bsize m' b = bsize m b" if "b \<in> C" for b
    using sz' [of b] block_same(1) [OF same1] blocks_okD(1) [OF d(4)] that by simp
  have same: "same_on (block m b) m m'" if "b \<in> C - set (concat L)" for b
    using same1 [of b] same' [OF that] block_same(1) [OF same1] blocks_okD(1) [OF d(4)] that
    unfolding block_def by (metis DiffD1 same_on_trans)
  have "split_or_take unit (16 + h) n m freels = Inr (h, n, m', freels')"
    using split_or_take_eq(1) [OF _ n(3), of unit freels] n(3) rg ins
    unfolding bs region_ok_def m1_def r_def real_def by simp
  moreover have "r \<notin> C"
    using spot_notin [OF spr d(4)] .
  moreover have "spot m' (insert r C) h (unat n)"
    using sph szC by (auto simp: spot_def r_def)
  moreover have "r + bsize m' r = h + bsize m h"
    using sz' [of r] dv(3) by (simp add: b1 sub bs)
  ultimately show ?thesis
    using that at' set' same szC unfolding r_def by blast
qed

text \<open>Each way of serving a request, brought into the form of the contract.\<close>

lemma at_served:
  assumes "at C m' freels' s' L' F0' (c + t)" and "C = (B - F) \<union> (set (concat L') \<union> F0')"
    and "(set (concat L') \<union> F0') \<inter> (B - F) = {}" and "spot m' C h t" and "n \<le> t"
    and "h + t \<le> hi s'" and "\<And>b. b \<in> C \<Longrightarrow> b + bsize m' b \<le> hi s'"
    and "\<And>b. b \<in> B - F \<Longrightarrow> same_on (block m b) m m'"
  shows "\<exists>F'. arena_held (unat unit) ex held m' (freels', s') F' (c + t) \<and>
    served B F (hi s') m m' F' h t n"
proof (intro exI conjI)
  note d = arena_atD [OF assms(1)]
  show "arena_held (unat unit) ex held m' (freels', s') (set (concat L') \<union> F0') (c + t)"
    using d(1-3) by (rule arena_heldI)
  show "served B F (hi s') m m' (set (concat L') \<union> F0') h t n"
    using assms d(4) unfolding served_def assms(2) by blast
qed

lemma getmem_case:
  assumes a: "at B m freels s L F0 c" and below: "\<And>b. b \<in> B \<Longrightarrow> b + bsize m b \<le> hi s"
    and n: "48 \<le> unat n" "8 dvd unat n" "room s (unat n)"
  shows "\<exists>h t m' s' F'. getmem n m s = Inr (h, t, m', s') \<and>
    arena_held (unat unit) ex held m' (freels, s') F' (c + unat t) \<and>
    served B (set (concat L) \<union> F0) (hi s') m m' F' h (unat t) (unat n)"
proof -
  note d = arena_atD [OF a]
  obtain h t m' s' F0' where gm: "getmem n m s = Inr (h, t, m', s')"
    and hd: "held m' s' F0' (c + fsum m L + unat t)"
    and sv: "served B F0 (hi s') m m' F0' h (unat t) (unat n)"
    using getmem_served [OF d(2,4,6) below n] by blast
  define C where "C = (B - F0) \<union> F0'"
  have same: "same_on (block m b) m m'" if "b \<in> B - F0" for b
    using sv that by (simp add: served_def)
  have sL: "same_on (block m b) m m'" if "b \<in> set (concat L)" for b
    using d(3,5) that by (intro same) blast
  have "held m' s' F0' (c + unat t + fsum m' L)"
    using hd fsum_same [OF d(4,5) sL] by (simp add: ac_simps)
  then have "at C m' freels s' L F0' (c + unat t)"
    using arena_ok_same [OF d(1,4,5) sL] sv d(3,5)
    unfolding arena_at_def served_def C_def by blast
  moreover have "C = (B - (set (concat L) \<union> F0)) \<union> (set (concat L) \<union> F0')"
    and "(set (concat L) \<union> F0') \<inter> (B - (set (concat L) \<union> F0)) = {}"
    using sv d(3,5) unfolding C_def served_def by blast+
  ultimately show ?thesis
    using gm sv same at_served [of C m' freels s' L F0' c "unat t" B "set (concat L) \<union> F0" h "unat n" m]
    unfolding served_def C_def by blast
qed

lemma whole_case:
  assumes a: "at (B - {h}) m' freels s L F0 (c + bsize m' h)" and sp: "spot m' (B - {h}) h (bsize m' h)"
    and F: "F = insert h (set (concat L) \<union> F0)" "F \<subseteq> B"
    and below: "\<And>b. b \<in> B \<Longrightarrow> b + bsize m' b \<le> hi s"
    and same: "\<And>b. b \<in> B - F \<Longrightarrow> same_on (block m b) m m'" and n: "n \<le> bsize m' h"
  shows "\<exists>F'. arena_held (unat unit) ex held m' (freels, s) F' (c + bsize m' h) \<and>
    served B F (hi s) m m' F' h (bsize m' h) n"
proof (rule at_served [OF a _ _ sp n])
  have "h \<notin> set (concat L) \<union> F0"
    using arena_atD(5,6) [OF a] by blast
  then show "B - {h} = B - F \<union> (set (concat L) \<union> F0)" "(set (concat L) \<union> F0) \<inter> (B - F) = {}"
    using F by blast+
  show "h + bsize m' h \<le> hi s"
    using F by (intro below) blast
  show "b + bsize m' b \<le> hi s" if "b \<in> B - {h}" for b
    using that by (intro below) blast
qed (fact same)

lemma split_case:
  assumes a: "at (B - {h}) m' freels s L F0 (c + bsize m' h)" and sp: "spot m' (B - {h}) h (bsize m' h)"
    and F: "F = insert h (set (concat L) \<union> F0)" "F \<subseteq> B"
    and below: "\<And>b. b \<in> B \<Longrightarrow> b + bsize m' b \<le> hi s"
    and same: "\<And>b. b \<in> B - F \<Longrightarrow> same_on (block m b) m m' \<and> bsize m' b = bsize m b"
    and n: "48 \<le> unat n" "8 dvd unat n" "unat n + 48 \<le> bsize m' h"
  shows "\<exists>m'' freels'' F'. split_or_take unit (16 + h) n m' freels = Inr (h, n, m'', freels'') \<and>
    arena_held (unat unit) ex held m'' (freels'', s) F' (c + unat n) \<and>
    served B F (hi s) m m'' F' h (unat n) (unat n)"
proof -
  define r where "r = h + unat n"
  obtain m'' freels'' L2 where st: "split_or_take unit (16 + h) n m' freels = Inr (h, n, m'', freels'')"
    and at2: "at (insert r (B - {h})) m'' freels'' s L2 F0 (c + unat n)"
    and L2: "set (concat L2) = insert r (set (concat L))" and r: "r \<notin> B - {h}"
    and sp2: "spot m'' (insert r (B - {h})) h (unat n)"
    and sz2: "\<And>b. b \<in> B - {h} \<Longrightarrow> bsize m'' b = bsize m' b" and szr: "r + bsize m'' r = h + bsize m' h"
    and s2: "\<And>b. b \<in> B - {h} - set (concat L) \<Longrightarrow> same_on (block m' b) m' m''"
    unfolding r_def using at_split [OF a sp n] by metis
  have rB: "r \<notin> B" "h \<in> B"
    using r n(1) F by (auto simp: r_def)
  have nh: "h \<notin> set (concat L) \<union> F0"
    using arena_atD(5,6) [OF a] by blast
  have "\<exists>F'. arena_held (unat unit) ex held m'' (freels'', s) F' (c + unat n) \<and>
    served B F (hi s) m m'' F' h (unat n) (unat n)"
  proof (rule at_served [OF at2 _ _ sp2 order_refl])
    show "insert r (B - {h}) = B - F \<union> (set (concat L2) \<union> F0)"
      "(set (concat L2) \<union> F0) \<inter> (B - F) = {}"
      unfolding L2 using F rB nh by blast+
    show "h + unat n \<le> hi s"
      using below [OF rB(2)] n(3) by simp
    show "b + bsize m'' b \<le> hi s" if "b \<in> insert r (B - {h})" for b
      using that sz2 [of b] szr below [of b] below [OF rB(2)] by (cases "b = r") auto
    show "same_on (block m b) m m''" if "b \<in> B - F" for b
    proof (rule same_on_trans)
      show "same_on (block m b) m m'"
        using same [OF that] by blast
      have "same_on (block m' b) m' m''"
        using that F by (intro s2) blast
      then show "same_on (block m b) m' m''"
        using same [OF that] by (simp add: block_def)
    qed
  qed
  with st show ?thesis by blast
qed

lemma take_case:
  assumes a: "at B m freels s L F0 c" and below: "\<And>b. b \<in> B \<Longrightarrow> b + bsize m b \<le> hi s"
    and i: "i = clamp_pos pos" "0 \<le> pos" and cand: "candidates (bsize m) (unat tot) i (L ! i) = h # ys"
  obtains m' freels' L1 where "rmFromFreeLs pos tot m freels = Inr (16 + h, m', freels')"
    and "obj_size m' h = obj_size m h"
    and "at (B - {h}) m' freels' s L1 F0 (c + bsize m' h)" and "spot m' (B - {h}) h (bsize m' h)"
    and "set (concat L) \<union> F0 = insert h (set (concat L1) \<union> F0)"
    and "\<And>b. b \<in> B \<Longrightarrow> b + bsize m' b \<le> hi s"
    and "\<And>b. b \<in> B - (set (concat L) \<union> F0) \<Longrightarrow> same_on (block m b) m m' \<and> bsize m' b = bsize m b"
proof -
  note d = arena_atD [OF a] and ao = arena_okD [OF arena_atD(1) [OF a]]
  obtain m' freels' where rm: "rmFromFreeLs pos tot m freels = Inr (16 + h, m', freels')"
    and at': "at (B - {h}) m' freels' s (abs_remove h i L) F0 (c + bsize m h)"
    and h: "h \<in> set (L ! i)" and sp: "spot m' (B - {h}) h (bsize m h)" and hs: "bsize m' h = bsize m h"
    and sz: "\<And>b. b \<in> B \<Longrightarrow> bsize m' b = bsize m b"
    and same: "\<And>b. b \<in> B - set (concat L) \<Longrightarrow> same_on (block m b) m m'"
    using at_take [OF a i cand] by metis
  have "i < length L"
    using i by (simp add: ao)
  then have "set (concat L) \<union> F0 = insert h (set (concat (abs_remove h i L)) \<union> F0)"
    using abs_remove_set(1) [OF ao(3) _ h] by blast
  moreover have "b + bsize m' b \<le> hi s" if "b \<in> B" for b
    using below [OF that] sz [OF that] by simp
  moreover have "obj_size m' h = obj_size m h"
    using hs by (simp add: bsize_def word_unat_eq_iff)
  ultimately show ?thesis
    using that [OF rm] at' sp sz same unfolding hs [symmetric] by blast
qed

lemma larger_class_case:
  assumes a: "at B m freels s L F0 c" and below: "\<And>b. b \<in> B \<Longrightarrow> b + bsize m b \<le> hi s"
    and n: "48 \<le> unat n" "8 dvd unat n" "unat n \<le> j * unat unit" and j: "j < 65" "freels ! j \<noteq> NULL"
  shows "\<exists>h p t m1 freels1 m' freels' F'.
    rmFromFreeLs (int j) (of_nat j * unit) m freels = Inr (p, m1, freels1) \<and> p \<noteq> NULL \<and>
    split_or_take unit p n m1 freels1 = Inr (h, t, m', freels') \<and>
    arena_held (unat unit) ex held m' (freels', s) F' (c + unat t) \<and>
    served B (set (concat L) \<union> F0) (hi s) m m' F' h (unat t) (unat n)"
proof -
  note d = arena_atD [OF a] and ao = arena_okD [OF arena_atD(1) [OF a]]
  define tot where "tot = of_nat j * unit"
  have "j * unat unit \<le> 64 * 4096"
    using j(1) unit_bounds(2) by (intro mult_le_mono) simp_all
  moreover have "unat (of_nat j :: size_t) = j"
    using j(1) by (simp add: unat_of_nat_small)
  ultimately have ju: "unat tot = j * unat unit"
    by (simp add: tot_def unat_word_ariths)
  obtain h ys where Lj: "L ! j = h # ys"
    using dll_NULL_iff [OF ao(4) [OF j(1)]] j(2) by (cases "L ! j") auto
  have cand: "candidates (bsize m) (unat tot) j (L ! j) = h # ys"
    using candidates_whole_class [OF d(1) j(1)] by (simp add: ju Lj)
  have jc: "j = clamp_pos (int j)" "0 \<le> int j"
    using j(1) by (auto simp: clamp_pos_def)
  obtain m' freels' L1 where rm: "rmFromFreeLs (int j) tot m freels = Inr (16 + h, m', freels')"
    and os: "obj_size m' h = obj_size m h"
    and t: "at (B - {h}) m' freels' s L1 F0 (c + bsize m' h)" "spot m' (B - {h}) h (bsize m' h)"
      "set (concat L) \<union> F0 = insert h (set (concat L1) \<union> F0)" "\<And>b. b \<in> B \<Longrightarrow> b + bsize m' b \<le> hi s"
      "\<And>b. b \<in> B - (set (concat L) \<union> F0) \<Longrightarrow> same_on (block m b) m m' \<and> bsize m' b = bsize m b"
    using take_case [OF a below jc cand] by metis
  have FB: "set (concat L) \<union> F0 \<subseteq> B"
    using d(5,6) by blast
  have le: "unat n \<le> bsize m' h" "unat n < 2 ^ 34"
    using candidate_fits [OF d(1) j(1) cand] ju os n(3) t(2) by (simp_all add: bsize_def spot_def region_ok_def)
  show ?thesis
  proof (cases "unat n + 48 \<le> bsize m' h")
    case True
    show ?thesis
      using split_case [OF t(1-3) FB t(4,5) n(1,2) True] rm unfolding tot_def by force
  next
    case False
    then have "split_or_take unit (16 + h) n m' freels' = Inr (h, obj_size m' h, m', freels')"
      using le(2) by (simp add: split_or_take_eq(2))
    then show ?thesis
      using whole_case [OF t(1-3) FB t(4) _ le(1), of m] t(5) rm unfolding tot_def bsize_def by force
  qed
qed

lemma same_class_case:
  assumes a: "at B m freels s L F0 c" and below: "\<And>b. b \<in> B \<Longrightarrow> b + bsize m b \<le> hi s"
    and i: "i = clamp_pos q" "0 \<le> q" and n: "i < 64 \<Longrightarrow> unat n = i * unat unit"
    and cand: "candidates (bsize m) (unat n) i (L ! i) = h # ys"
  shows "\<exists>m' freels' F'.
    rmFromFreeLs q n m freels = Inr (16 + h, m', freels') \<and> n \<le> obj_size m' h \<and>
    arena_held (unat unit) ex held m' (freels', s) F' (c + unat (obj_size m' h)) \<and>
    served B (set (concat L) \<union> F0) (hi s) m m' F' h (unat (obj_size m' h)) (unat n)"
proof -
  note d = arena_atD [OF a]
  have i65: "i < 65"
    by (simp add: i)
  obtain m' freels' L1 where rm: "rmFromFreeLs q n m freels = Inr (16 + h, m', freels')"
    and os: "obj_size m' h = obj_size m h"
    and t: "at (B - {h}) m' freels' s L1 F0 (c + bsize m' h)" "spot m' (B - {h}) h (bsize m' h)"
      "set (concat L) \<union> F0 = insert h (set (concat L1) \<union> F0)" "\<And>b. b \<in> B \<Longrightarrow> b + bsize m' b \<le> hi s"
      "\<And>b. b \<in> B - (set (concat L) \<union> F0) \<Longrightarrow> same_on (block m b) m m' \<and> bsize m' b = bsize m b"
    using take_case [OF a below i cand] by metis
  have FB: "set (concat L) \<union> F0 \<subseteq> B"
    using d(5,6) by blast
  have le: "unat n \<le> bsize m' h"
    using candidate_fits [OF d(1) i65 cand] n os by (simp add: bsize_def)
  then have "n \<le> obj_size m' h"
    by (simp add: bsize_def word_le_nat_alt)
  with rm show ?thesis
    using whole_case [OF t(1-3) FB t(4) _ le, of m] t(5) unfolding bsize_def by blast
qed

theorem body_served:
  assumes h: "arena_held (unat unit) ex held m (freels, s) F c" and ok: "blocks_ok m B" "F \<subseteq> B"
    and below: "\<And>b. b \<in> B \<Longrightarrow> b + bsize m b \<le> hi s"
    and n: "48 \<le> unat n" "unat unit dvd unat n" "unat n < 2 ^ 34" "room s (unat n)"
  shows "\<exists>h t m' freels' s' F'. allocate_body unit getmem n m freels s = Inr (h, t, m', freels', s') \<and>
    arena_held (unat unit) ex held m' (freels', s') F' (c + unat t) \<and>
    served B F (hi s') m m' F' h (unat t) (unat n)"
proof -
  obtain L F0 where a: "at B m freels s L F0 c" and F: "F = set (concat L) \<union> F0"
    using h ok unfolding arena_held_def arena_at_def by auto
  note ao = arena_okD [OF arena_atD(1) [OF a]]
  define q where "q = int (unat n div unat unit)"
  define i where "i = clamp_pos q"
  have q: "to_int (n div unit) = q" "(if n div unit > 64 then 64 else unat (n div unit)) = i" "0 \<le> q"
    using class_number [OF unit_bounds(1) n(3)] by (simp_all add: q_def i_def)
  have i65: "i < 65"
    by (simp add: i_def)
  have iu: "unat n = i * unat unit" if "i < 64"
    using that n(2) by (auto simp: i_def q_def clamp_pos_def split: if_splits)
  have n8: "8 dvd unat n"
    using unit_bounds(3) n(2) by (rule dvd_trans)
  have gm: ?thesis if "allocate_body unit getmem n m freels s =
      rbind (getmem n m s) (\<lambda>(mem, totalSize, m, s). Inr (mem, totalSize, m, freels, s))"
    using getmem_case [OF a below n(1) n8 n(4)] unfolding that F by force
  show ?thesis
  proof (cases "freels ! i = NULL")
    case False
    show ?thesis
    proof (cases "candidates (bsize m) (unat n) i (L ! i)")
      case Nil
      then show ?thesis
        using False rmFromFreeLs_none [OF ao(4) [OF i65] i_def q(3) Nil]
        unfolding allocate_body_def Let_def q by (intro gm [unfolded allocate_body_def Let_def q]) simp
    next
      case (Cons h ys)
      have "obj_size m' h \<noteq> n \<longleftrightarrow> n < obj_size m' h" if "n \<le> obj_size m' h" for m'
        using that by auto
      then show ?thesis
        using same_class_case [OF a below i_def q(3) iu Cons] False
        unfolding F allocate_body_def Let_def q by force
    qed
  next
    case True
    define j where "j = search_larger freels (i + 1)"
    have j: "i + 1 \<le> j" "j \<le> 65" "j < 65 \<Longrightarrow> freels ! j \<noteq> NULL"
      using search_larger_bounds [of "i + 1" freels] i65 by (auto simp: j_def)
    show ?thesis
    proof (cases "j = 65")
      case j65: True
      then show ?thesis
        using True unfolding allocate_body_def Let_def q
        by (intro gm [unfolded allocate_body_def Let_def q]) (simp add: j_def)
    next
      case False
      have "unat n \<le> j * unat unit"
        using iu j False by simp
      then show ?thesis
        using larger_class_case [OF a below n(1) n8, of j] True False j
        unfolding F allocate_body_def Let_def q by (fastforce simp: j_def)
    qed
  qed
qed

end

end
