(* ===== verification/Heap_Contract.thy ===== *)
theory Heap_Contract
  imports Mem_Source
begin

text \<open>
  Heaps: a source of memory together with the blocks that its clients hold.  \<open>heap_at\<close> is the
  invariant; an allocation adds a block to it, a free takes one away, and both leave the bytes
  of every other client block alone.  The \<open>sublocale\<close> turns an arena into a source, so that the
  same lemmas serve the allocators on every layer.
\<close>

definition heap_at ::
    "(mem \<Rightarrow> 's \<Rightarrow> addr set \<Rightarrow> nat \<Rightarrow> bool) \<Rightarrow> ('s \<Rightarrow> nat) \<Rightarrow> mem \<Rightarrow> 's \<Rightarrow> addr set \<Rightarrow> bool" where
  "heap_at held hi m s X \<longleftrightarrow>
     (\<exists>F. held m s F (\<Sum>b \<in> X. bsize m b) \<and> finite X \<and> X \<inter> F = {} \<and> blocks_ok m (X \<union> F) \<and>
          (\<forall>b \<in> X \<union> F. b + bsize m b \<le> hi s))"

text \<open>A block in a client's hands: its footer repeats its size.\<close>

definition live_block :: "mem \<Rightarrow> addr \<Rightarrow> bool" where
  "live_block m b \<longleftrightarrow> bsize m (b + bsize m b - 16) = bsize m b"

lemma live_block_same:
  assumes "same_on (block m b) m m'" "48 \<le> bsize m b"
  shows "live_block m' b = live_block m b"
proof -
  have "{8 + (b + bsize m b - 16)..<16 + (b + bsize m b - 16)} \<subseteq> block m b"
    using assms(2) by (auto simp: block_def)
  then have "bsize m' (b + bsize m b - 16) = bsize m (b + bsize m b - 16)"
    using same_on_mono [OF assms(1)] by (intro bsize_same_on)
  then show ?thesis
    using block_same(1) [OF assms] by (simp add: live_block_def)
qed

definition user_bytes :: "mem \<Rightarrow> addr \<Rightarrow> addr set" where
  "user_bytes m b = {16 + b..<b + bsize m b - 16}"

lemma user_write_own:
  assumes "same_on (- user_bytes m b) m m'" "48 \<le> bsize m b"
  shows "bsize m' b = bsize m b" "live_block m' b = live_block m b"
proof -
  have "{8 + b..<16 + b} \<inter> user_bytes m b = {}"
    "{8 + (b + bsize m b - 16)..<16 + (b + bsize m b - 16)} \<inter> user_bytes m b = {}"
    by (auto simp: user_bytes_def)
  then have *: "bsize m' b = bsize m b" "bsize m' (b + bsize m b - 16) = bsize m (b + bsize m b - 16)"
    using same_on_outside [OF assms(1)] by (auto intro!: bsize_same_on)
  then show "bsize m' b = bsize m b" "live_block m' b = live_block m b"
    by (simp_all add: live_block_def)
qed

lemma heap_at_finite: "heap_at held hi m s X \<Longrightarrow> finite X"
  by (auto simp: heap_at_def)

lemma heap_at_below: "heap_at held hi m s X \<Longrightarrow> b \<in> X \<Longrightarrow> b + bsize m b \<le> hi s"
  by (auto simp: heap_at_def)

lemma heap_at_blocks: "heap_at held hi m s X \<Longrightarrow> blocks_ok m X"
  by (auto simp: heap_at_def elim: blocks_ok_mono)

lemma served_block:
  assumes "served B F tp m m' F' h t n" "blocks_ok m (B - F)" "b \<in> B - F"
  shows "same_on (block m b) m m'" "bsize m' b = bsize m b" "block m' b = block m b"
proof -
  show s: "same_on (block m b) m m'"
    using assms by (simp add: served_def)
  show "bsize m' b = bsize m b"
    using block_same(1) [OF s blocks_okD(1) [OF assms(2,3)]] .
  then show "block m' b = block m b"
    by (simp add: block_def)
qed

lemma served_stamp:
  assumes sv: "served B F tp m m' F' h (unat t) n" and okB: "blocks_ok m (B - F)"
  shows "served B F tp m (stamp f h t m') F' h (unat t) n"
    and "blocks_ok (stamp f h t m') (insert h ((B - F) \<union> F'))"
    and "b \<in> (B - F) \<union> F' \<Longrightarrow> same_on (block m' b) m' (stamp f h t m')"
proof -
  define C where "C = (B - F) \<union> F'"
  have sp: "spot m' C h (unat t)" and ok: "blocks_ok m' C"
    using sv by (simp_all add: served_def C_def)
  note st = spot_stamp [OF sp ok, where f = f]
  have sz: "bsize (stamp f h t m') b = bsize m' b" if "b \<in> C" for b
    using block_same(1) [OF st(2) [OF that] blocks_okD(1) [OF ok that]] .
  show "blocks_ok (stamp f h t m') (insert h ((B - F) \<union> F'))"
    using st(1) by (simp add: C_def)
  show "same_on (block m' b) m' (stamp f h t m')" if "b \<in> (B - F) \<union> F'"
    using st(2) that by (simp add: C_def)
  have "same_on (block m b) m (stamp f h t m')" if b: "b \<in> B - F" for b
    using served_block [OF sv okB b] st(2) [of b] b by (auto simp: C_def intro: same_on_trans)
  then show "served B F tp m (stamp f h t m') F' h (unat t) n"
    using sv spot_same [OF sp ok st(2)] blocks_ok_same [OF ok st(2)] sz unfolding served_def C_def
    by simp
qed

section \<open>Allocation in a heap\<close>

context mem_source
begin

lemma held_stamp:
  assumes "held m' s' F' c" and sv: "served B F tp m m' F' h (unat t) n" and ok: "blocks_ok m (B - F)"
  shows "held (stamp f h t m') s' F' c"
proof (rule held_same [OF assms(1)])
  show "blocks_ok m' F'"
    using sv by (auto simp: served_def elim: blocks_ok_mono)
  show "same_on (block m' b) m' (stamp f h t m')" if "b \<in> F'" for b
    using that by (intro served_stamp(3) [OF sv ok]) blast
qed

lemma heap_alloc:
  assumes fin: "finite X" and ok: "blocks_ok m X" and dj: "X \<inter> F = {}"
    and hd: "held m' s' F' ((\<Sum>b \<in> X. bsize m b) + unat t)"
    and sv: "served (X \<union> F) F (hi s') m m' F' h (unat t) n"
  defines "m'' \<equiv> stamp ObjAllocated h t m'"
  shows "heap_at held hi m'' s' (insert h X)" "h \<notin> X" "n \<le> bsize m'' h" "live_block m'' h"
    "bsize m'' h = unat t" "region_ok h (unat t)"
    and "b \<in> X \<Longrightarrow> same_on (block m b) m m'' \<and> block m b \<inter> {h..<h + unat t} = {}"
proof -
  have X: "(X \<union> F) - F = X"
    using dj by blast
  have okX: "blocks_ok m ((X \<union> F) - F)"
    using ok by (simp add: X)
  note sv2 = served_stamp [OF sv okX, where f = ObjAllocated, folded m''_def]
  have sp: "spot m'' (X \<union> F') h (unat t)" and ok2: "blocks_ok m'' (insert h (X \<union> F'))"
    and dj2: "X \<inter> F' = {}" and rest: "n \<le> unat t" "h + unat t \<le> hi s'"
      "\<And>b. b \<in> X \<union> F' \<Longrightarrow> b + bsize m'' b \<le> hi s'"
    using sv2(1,2) unfolding served_def X by auto
  show rg: "region_ok h (unat t)"
    using sp by (simp add: spot_def)
  then have t: "48 \<le> unat t"
    by (simp add: region_ok_def)
  show sz: "bsize m'' h = unat t" and "live_block m'' h" and "n \<le> bsize m'' h"
    using stamp_facts [OF t, where f = ObjAllocated and h = h and m = m'] rest(1)
    by (simp_all add: m''_def live_block_def)
  have hn: "h \<notin> X \<union> F'"
    using spot_notin [OF sp blocks_ok_mono [OF ok2]] by blast
  then show "h \<notin> X" by blast
  have bz: "bsize m'' b = bsize m b" "block m'' b = block m b" "same_on (block m b) m m''" if "b \<in> X" for b
    using served_block [OF sv2(1) okX, of b] that by (simp_all add: X)
  show "same_on (block m b) m m'' \<and> block m b \<inter> {h..<h + unat t} = {}" if "b \<in> X"
    using bz [OF that] spot_block_disjoint [OF sp, of b] that by simp
  have "(\<Sum>b \<in> insert h X. bsize m'' b) = (\<Sum>b \<in> X. bsize m b) + unat t"
    using fin hn bz(1) by (simp add: sz)
  then have "held m'' s' F' (\<Sum>b \<in> insert h X. bsize m'' b)"
    using held_stamp [OF hd sv okX, of ObjAllocated] by (simp add: m''_def)
  then show "heap_at held hi m'' s' (insert h X)"
    using fin dj2 ok2 rest hn unfolding heap_at_def by (intro exI [of _ F']) (auto simp: sz)
qed

lemma heap_getmem:
  assumes hp: "heap_at held hi m s X" and n: "48 \<le> unat n" "8 dvd unat n" "room s (unat n)"
  obtains h t m' s' where "getmem n m s = Inr (h, t, m', s')"
    and "heap_at held hi (stamp ObjAllocated h t m') s' (insert h X)" and "h \<notin> X"
    and "unat n \<le> unat t" and "region_ok h (unat t)"
    and "live_block (stamp ObjAllocated h t m') h" and "bsize (stamp ObjAllocated h t m') h = unat t"
    and "\<And>b. b \<in> X \<Longrightarrow> same_on (block m b) m (stamp ObjAllocated h t m')"
    and "\<And>b. b \<in> X \<Longrightarrow> block m b \<inter> {h..<h + unat t} = {}"
proof -
  obtain F where F: "held m s F (\<Sum>b \<in> X. bsize m b)" "finite X" "X \<inter> F = {}" "blocks_ok m (X \<union> F)"
    and below: "\<And>b. b \<in> X \<union> F \<Longrightarrow> b + bsize m b \<le> hi s"
    using hp unfolding heap_at_def by blast
  obtain h t m' s' F' where gm: "getmem n m s = Inr (h, t, m', s')"
    and hd: "held m' s' F' ((\<Sum>b \<in> X. bsize m b) + unat t)"
    and sv: "served (X \<union> F) F (hi s') m m' F' h (unat t) (unat n)"
    using getmem_served [OF F(1,4) Un_upper2 below n] by blast
  have "blocks_ok m X"
    using F(4) by (rule blocks_ok_mono) blast
  note ha = heap_alloc [OF F(2) this F(3) hd sv]
  show ?thesis
    using that [OF gm] ha by metis
qed

text \<open>A client writing to the bytes between header and footer of its own block.\<close>

lemma heap_user_write:
  assumes hp: "heap_at held hi m s X" and b: "b \<in> X" and w: "same_on (- user_bytes m b) m m'"
  shows "heap_at held hi m' s X"
    and "x \<in> X \<Longrightarrow> bsize m' x = bsize m x \<and> live_block m' x = live_block m x"
    and "x \<in> X - {b} \<Longrightarrow> same_on (block m x) m m'"
proof -
  obtain F where F: "held m s F (\<Sum>b \<in> X. bsize m b)" "finite X" "X \<inter> F = {}" "blocks_ok m (X \<union> F)"
    and below: "\<And>b. b \<in> X \<union> F \<Longrightarrow> b + bsize m b \<le> hi s"
    using hp unfolding heap_at_def by blast
  have sp: "spot m (X \<union> F - {b}) b (bsize m b)"
    using b by (intro blocks_ok_remove_spot [OF F(4)]) simp
  have same: "same_on (block m x) m m'" if "x \<in> X \<union> F - {b}" for x
  proof (rule same_on_outside [OF w])
    have "user_bytes m b \<subseteq> {b..<b + bsize m b}"
      by (auto simp: user_bytes_def)
    then show "block m x \<inter> user_bytes m b = {}"
      using spot_block_disjoint [OF sp that] by blast
  qed
  then show "same_on (block m x) m m'" if "x \<in> X - {b}"
    using that by blast
  have szb: "48 \<le> bsize m b"
    using F(4) b by (auto dest: blocks_okD)
  have sz: "bsize m' x = bsize m x \<and> live_block m' x = live_block m x" if x: "x \<in> X \<union> F" for x
  proof (cases "x = b")
    case True
    then show ?thesis
      using user_write_own [OF w szb] by simp
  next
    case False
    with x have s: "same_on (block m x) m m'"
      by (intro same) blast
    show ?thesis
      using block_same(1) [OF s] live_block_same [OF s] blocks_okD(1) [OF F(4) x] by simp
  qed
  then show "bsize m' x = bsize m x \<and> live_block m' x = live_block m x" if "x \<in> X"
    using that by blast
  have "held m' s F (\<Sum>b \<in> X. bsize m b)"
    using F(3) b by (intro held_same [OF F(1) blocks_ok_mono [OF F(4)]] same) blast+
  moreover have "(\<Sum>b \<in> X. bsize m b) = (\<Sum>b \<in> X. bsize m' b)"
    using sz by (intro sum.cong) simp_all
  moreover have "blocks_ok m' (X \<union> F)"
    using F(4) sz by (subst blocks_ok_cong [of _ m' m]) blast+
  moreover have "\<forall>b \<in> X \<union> F. b + bsize m' b \<le> hi s"
    using below sz by simp
  ultimately show "heap_at held hi m' s X"
    using F(2,3) unfolding heap_at_def by metis
qed

end

section \<open>An arena is a source\<close>

definition arena_get ::
    "size_t \<Rightarrow> (size_t \<Rightarrow> mem \<Rightarrow> 's \<Rightarrow> (addr \<times> size_t \<times> mem \<times> 's) result) \<Rightarrow>
     size_t \<Rightarrow> mem \<Rightarrow> addr list \<times> 's \<Rightarrow> (addr \<times> size_t \<times> mem \<times> addr list \<times> 's) result" where
  "arena_get unit getmem n m st = allocate_body unit getmem n m (fst st) (snd st)"

definition arena_room :: "size_t \<Rightarrow> ('s \<Rightarrow> nat \<Rightarrow> bool) \<Rightarrow> addr list \<times> 's \<Rightarrow> nat \<Rightarrow> bool" where
  "arena_room unit room st n \<longleftrightarrow> n < 2 ^ 34 \<and> unat unit dvd n \<and> room (snd st) n"

sublocale arena_over \<subseteq>
  arena: mem_source "arena_get unit getmem" "arena_held (unat unit) ex held"
    "arena_room unit room" "\<lambda>st. hi (snd st)"
proof unfold_locales
  fix m st F c m'
  assume "arena_held (unat unit) ex held m st F c" and ok: "blocks_ok m F"
    and same: "\<And>b. b \<in> F \<Longrightarrow> same_on (block m b) m m'"
  then obtain L F0 where "at F m (fst st) (snd st) L F0 c" and F: "F = set (concat L) \<union> F0"
    unfolding arena_held_def arena_at_def by blast
  then have "at F m' (fst st) (snd st) L F0 c"
    using at_same [OF _ same] by blast
  then show "arena_held (unat unit) ex held m' st F c"
    unfolding arena_held_def arena_at_def F by blast
next
  fix m st F c B and n :: size_t
  assume "arena_held (unat unit) ex held m st F c" "blocks_ok m B" "F \<subseteq> B"
    "\<And>b. b \<in> B \<Longrightarrow> b + bsize m b \<le> hi (snd st)" "48 \<le> unat n" "arena_room unit room st (unat n)"
  then show "\<exists>h t m' s' F'. arena_get unit getmem n m st = Inr (h, t, m', s') \<and>
      arena_held (unat unit) ex held m' s' F' (c + unat t) \<and>
      served B F (hi (snd s')) m m' F' h (unat t) (unat n)"
    using body_served [of m "fst st" "snd st" F c B n] by (force simp: arena_get_def arena_room_def)
qed

section \<open>Freeing in a heap over an arena\<close>

text \<open>The two flag writes of \<open>freeObject\<close>.\<close>

definition clear_flags :: "addr \<Rightarrow> mem \<Rightarrow> mem" where
  "clear_flags h m = set_flags (h + bsize m h - 16) ObjFree (set_flags h ObjFree m)"

lemma clear_flags_facts:
  assumes "48 \<le> bsize m h" "live_block m h"
  shows "obj_size (clear_flags h m) h = obj_size m h" "free_block (clear_flags h m) h"
    "same_on (- block m h) m (clear_flags h m)"
proof -
  define ft where "ft = h + bsize m h - 16"
  have ft: "32 + h \<le> ft" "bsize m ft = bsize m h"
    using assms by (simp_all add: ft_def live_block_def)
  have cf: "clear_flags h m = set_flags ft ObjFree (set_flags h ObjFree m)"
    by (simp add: clear_flags_def ft_def)
  show o: "obj_size (clear_flags h m) h = obj_size m h"
    using ft(1) by (simp add: cf)
  then have sz: "bsize (clear_flags h m) h = bsize m h"
    by (simp add: bsize_def)
  have "obj_flags (clear_flags h m) h = ObjFree" "obj_flags (clear_flags h m) ft = ObjFree"
    "bsize (clear_flags h m) ft = bsize m h"
    using ft by (simp_all add: cf bsize_def)
  then show "free_block (clear_flags h m) h"
    unfolding free_block_def sz by (simp add: ft_def)
  show "same_on (- block m h) m (clear_flags h m)"
    unfolding cf block_def using ft(1) assms(1)
    by (intro same_on_store32I same_on_refl) (auto simp: ft_def)
qed

lemma free_body_eq:
  assumes "48 \<le> bsize m h"
  shows "free_body unit (16 + h) m freels =
    rbind (insertFreeBlock (16 + h) (to_int (obj_size m h div unit)) (clear_flags h m) freels)
      (\<lambda>(ok, m, freels). if ok then Inr (m, freels) else Inl AssertFail)"
proof -
  have "\<not> obj_size m h < 16 + 2 * 16"
    using assms by (simp add: bsize_def word_less_nat_alt)
  then show ?thesis
    unfolding free_body_def clear_flags_def bsize_def Let_def by simp
qed

context arena_over
begin

lemma at_free:
  assumes at: "at (insert h C) m freels s L F0 (c + bsize m h)" and h: "h \<notin> C" "live_block m h"
    and sub: "set (concat L) \<union> F0 \<subseteq> C"
  obtains m' freels' L' where "free_body unit (16 + h) m freels = Inr (m', freels')"
    and "at (insert h C) m' freels' s L' F0 c" and "set (concat L') = insert h (set (concat L))"
    and "\<And>b. b \<in> insert h C \<Longrightarrow> bsize m' b = bsize m b"
    and "\<And>b. b \<in> C - set (concat L) \<Longrightarrow> same_on (block m b) m m'"
proof -
  define m1 where "m1 = clear_flags h m"
  have ok: "blocks_ok m (insert h C)" "blocks_ok m C"
    using arena_atD(4) [OF at] by (auto elim: blocks_ok_mono)
  then have sz: "48 \<le> bsize m h"
    by (auto dest: blocks_okD)
  note cf = clear_flags_facts [OF sz h(2), folded m1_def]
  have spm: "spot m C h (bsize m h)"
    using blocks_ok_remove_spot [OF ok(1), of h] h(1) by simp
  have same1: "same_on (block m b) m m1" if "b \<in> C" for b
    using cf(3) spot_block_disjoint [OF spm that] unfolding block_def [of m h]
    by (rule same_on_outside)
  have b1: "bsize m1 h = bsize m h" and o1: "obj_size m1 h = obj_size m h"
    using cf(1) by (simp_all add: bsize_def)
  have bC: "bsize m1 b = bsize m b" if "b \<in> C" for b
    using block_same(1) [OF same1 [OF that] blocks_okD(1) [OF ok(2) that]] .
  have "at C m freels s L F0 (c + bsize m h)"
    using at ok(2) sub unfolding arena_at_def by blast
  then have "at C m1 freels s L F0 (c + bsize m1 h)"
    unfolding b1 by (rule at_same) (rule same1)
  moreover have "spot m1 C h (bsize m1 h)"
    unfolding b1 using spot_same [OF spm ok(2) same1] .
  ultimately obtain m' freels' L' where
    ins: "insertFreeBlock (16 + h) (to_int (obj_size m h div unit)) m1 freels = Inr (True, m', freels')"
    and at': "at (insert h C) m' freels' s L' F0 c" "set (concat L') = insert h (set (concat L))"
    and sz': "\<And>b. b \<in> insert h C \<Longrightarrow> bsize m' b = bsize m1 b"
    and same': "\<And>b. b \<in> C - set (concat L) \<Longrightarrow> same_on (block m1 b) m1 m'"
    using at_put [OF _ _ cf(2)] o1 by metis
  have "same_on (block m b) m m'" if "b \<in> C - set (concat L)" for b
    using same1 [of b] same' [OF that] bC [of b] that by (auto simp: block_def intro: same_on_trans)
  moreover have "bsize m' b = bsize m b" if "b \<in> insert h C" for b
    using sz' [OF that] b1 bC that by auto
  moreover have "free_body unit (16 + h) m freels = Inr (m', freels')"
    using ins by (simp add: free_body_eq [OF sz] m1_def)
  ultimately show ?thesis
    using that at' by blast
qed

lemma heap_free:
  assumes hp: "heap_at (arena_held (unat unit) ex held) (\<lambda>st. hi (snd st)) m (freels, s) X"
    and h: "h \<in> X" "live_block m h"
  shows "\<exists>m' freels'. free_body unit (16 + h) m freels = Inr (m', freels') \<and>
    heap_at (arena_held (unat unit) ex held) (\<lambda>st. hi (snd st)) m' (freels', s) (X - {h}) \<and>
    (\<forall>b \<in> X - {h}. same_on (block m b) m m') \<and>
    (\<exists>L'. arena_ok (unat unit) ex m' freels' L' \<and> h \<in> set (concat L') \<and> bsize m' h = bsize m h)"
proof -
  obtain L F0 where fin: "finite X" and dj: "X \<inter> (set (concat L) \<union> F0) = {}"
    and at: "at (X \<union> (set (concat L) \<union> F0)) m freels s L F0 (\<Sum>b \<in> X. bsize m b)"
    and below: "\<And>b. b \<in> X \<union> (set (concat L) \<union> F0) \<Longrightarrow> b + bsize m b \<le> hi s"
    using hp unfolding heap_at_def arena_held_def arena_at_def by auto
  define C where "C = (X - {h}) \<union> (set (concat L) \<union> F0)"
  have XF: "X \<union> (set (concat L) \<union> F0) = insert h C" "h \<notin> C"
    using h(1) dj by (auto simp: C_def)
  have "at (insert h C) m freels s L F0 ((\<Sum>b \<in> X - {h}. bsize m b) + bsize m h)"
    using at fin h(1) by (simp add: XF(1) [symmetric] sum.remove [of X h] add.commute)
  then obtain m' freels' L' where fr: "free_body unit (16 + h) m freels = Inr (m', freels')"
    and at': "at (insert h C) m' freels' s L' F0 (\<Sum>b \<in> X - {h}. bsize m b)"
    and L': "set (concat L') = insert h (set (concat L))"
    and sz: "\<And>b. b \<in> insert h C \<Longrightarrow> bsize m' b = bsize m b"
    and same: "\<And>b. b \<in> C - set (concat L) \<Longrightarrow> same_on (block m b) m m'"
    using at_free [OF _ XF(2) h(2)] C_def by (metis Un_upper2)
  have eq: "insert h C = (X - {h}) \<union> (set (concat L') \<union> F0)"
    unfolding C_def L' by blast
  have sm: "(\<Sum>b \<in> X - {h}. bsize m b) = (\<Sum>b \<in> X - {h}. bsize m' b)"
    using sz by (intro sum.cong) (auto simp: C_def)
  have "heap_at (arena_held (unat unit) ex held) (\<lambda>st. hi (snd st)) m' (freels', s) (X - {h})"
    unfolding heap_at_def
  proof (intro exI conjI)
    show "arena_held (unat unit) ex held m' (freels', s) (set (concat L') \<union> F0) (\<Sum>b \<in> X - {h}. bsize m' b)"
      using arena_heldI arena_atD(1-3) [OF at'] sm by metis
    show "(X - {h}) \<inter> (set (concat L') \<union> F0) = {}"
      using dj unfolding L' by blast
    show "blocks_ok m' (X - {h} \<union> (set (concat L') \<union> F0))"
      using arena_atD(4) [OF at'] by (simp add: eq)
    show "\<forall>b \<in> X - {h} \<union> (set (concat L') \<union> F0). b + bsize m' b \<le> hi (snd (freels', s))"
      using below sz unfolding XF(1) eq [symmetric] by simp
  qed (use fin in simp)
  moreover have "same_on (block m b) m m'" if "b \<in> X - {h}" for b
    using that dj by (intro same) (auto simp: C_def)
  moreover have "arena_ok (unat unit) ex m' freels' L'" "h \<in> set (concat L')" "bsize m' h = bsize m h"
    using arena_atD(1) [OF at'] L' sz by auto
  ultimately show ?thesis
    using fr by blast
qed

end

section \<open>Moving between a heap and the heap below it\<close>

lemma fsum_set:
  assumes "distinct (concat L)"
  shows "fsum m L = (\<Sum>b \<in> set (concat L). bsize m b)"
  using assms unfolding fsum_def by (simp add: sum_list_distinct_conv_sum_set)

lemma heap_at_up:
  assumes "heap_at (arena_held u ex held) (\<lambda>st. hi (snd st)) m (freels, s) Y"
  obtains L where "arena_ok u ex m freels L" and "set (concat L) \<inter> Y = {}"
    and "heap_at held hi m s (Y \<union> set (concat L))"
proof -
  obtain L F where L: "arena_ok u ex m freels L" and F: "set (concat L) \<inter> F = {}"
    and h: "held m s F ((\<Sum>b \<in> Y. bsize m b) + fsum m L)" and Y: "finite Y"
      "Y \<inter> (set (concat L) \<union> F) = {}" "blocks_ok m (Y \<union> (set (concat L) \<union> F))"
      "\<forall>b \<in> Y \<union> (set (concat L) \<union> F). b + bsize m b \<le> hi s"
    using assms unfolding heap_at_def arena_held_def by auto
  have dj: "Y \<inter> set (concat L) = {}" "(Y \<union> set (concat L)) \<inter> F = {}"
    using F Y(2) by blast+
  have "(\<Sum>b \<in> Y \<union> set (concat L). bsize m b) = (\<Sum>b \<in> Y. bsize m b) + fsum m L"
    using Y(1) dj(1) fsum_set [OF arena_okD(3) [OF L]] by (simp add: sum.union_disjoint)
  then have "heap_at held hi m s (Y \<union> set (concat L))"
    using h Y dj(2) unfolding heap_at_def by (intro exI [of _ F]) (simp add: Un_assoc)
  then show ?thesis
    using that [OF L] dj(1) by blast
qed

lemma heap_at_down:
  assumes hp: "heap_at held hi m s X" and L: "arena_ok u ex m freels L" "set (concat L) \<subseteq> X"
  shows "heap_at (arena_held u ex held) (\<lambda>st. hi (snd st)) m (freels, s) (X - set (concat L))"
proof -
  obtain F where F: "held m s F (\<Sum>b \<in> X. bsize m b)" "finite X" "X \<inter> F = {}" "blocks_ok m (X \<union> F)"
    and below: "\<forall>b \<in> X \<union> F. b + bsize m b \<le> hi s"
    using hp unfolding heap_at_def by blast
  have "(\<Sum>b \<in> X. bsize m b) = (\<Sum>b \<in> X - set (concat L). bsize m b) + fsum m L"
    using F(2) L(2) fsum_set [OF arena_okD(3) [OF L(1)]] by (simp add: sum.subset_diff)
  then have "arena_held u ex held m (freels, s) (set (concat L) \<union> F) (\<Sum>b \<in> X - set (concat L). bsize m b)"
    using F(1,3) L by (intro arena_heldI) auto
  moreover have "X - set (concat L) \<union> (set (concat L) \<union> F) = X \<union> F"
    using L(2) by blast
  ultimately show ?thesis
    using F below unfolding heap_at_def by (intro exI [of _ "set (concat L) \<union> F"]) auto
qed

end
