(* ===== verification/Heap_Checks.thy ===== *)
theory Heap_Checks
  imports Heap_Contract
begin

text \<open>
  The heap walks that all three allocators contain: the consistency checks of the free lists
  (\<open>checkFreeLsConsist\<close>, \<open>checkDualLnkList\<close>) and the sum of the free sizes
  (\<open>sumFreeListSize\<close>).  Each is a loop over a linked list in memory, so it is partial; on lists in
  good shape it ends, the checks succeed and the sum is the number of free bytes.
\<close>

text \<open>
  The asserts on one list.  What a size must satisfy, given the size of the node before, is an
  argument: it differs between the allocators.
\<close>

partial_function (option) check_nodes :: "(size_t \<Rightarrow> size_t \<Rightarrow> bool) \<Rightarrow> mem \<Rightarrow> size_t \<Rightarrow> addr \<Rightarrow> bool option" where
  "check_nodes size_ok m prenodesize iter =
     (if iter = NULL then Some True
      else
        let head = header_of iter;
            totsize = obj_size m head;
            foot = iter + unat totsize - 2 * sizeof_ObjHeader
        in if obj_flags m head = ObjFree \<and> size_ok prenodesize totsize \<and>
              obj_flags m foot = ObjFree \<and> obj_size m foot = totsize
           then check_nodes size_ok m totsize (next_of m iter)
           else Some False)"

partial_function (option) check_links :: "mem \<Rightarrow> addr \<Rightarrow> addr \<Rightarrow> bool option" where
  "check_links m preiter iter =
     (if iter = NULL then Some True
      else if prev_of m iter = preiter then check_links m iter (next_of m iter)
      else Some False)"

definition getFreeNodeSize :: "addr \<Rightarrow> mem \<Rightarrow> size_t" where
  "getFreeNodeSize node m = obj_size m (header_of node)"

partial_function (option) sum_nodes :: "mem \<Rightarrow> size_t \<Rightarrow> addr \<Rightarrow> size_t option" where
  "sum_nodes m sumsize iter =
     (if iter = NULL then Some sumsize
      else sum_nodes m (sumsize + getFreeNodeSize iter m) (next_of m iter))"

fun sum_lists :: "mem \<Rightarrow> addr list \<Rightarrow> size_t \<Rightarrow> size_t option" where
  "sum_lists m [] sumsize = Some sumsize"
| "sum_lists m (p # ps) sumsize = Option.bind (sum_nodes m sumsize p) (sum_lists m ps)"

text \<open>An \<open>assert\<close> that fails aborts; a walk that does not end never returns.\<close>

definition assert_opt :: "bool option \<Rightarrow> unit result" where
  "assert_opt r = rbind (of_opt r) (\<lambda>b. if b then Inr () else Inl AssertFail)"

fun for_classes :: "(nat \<Rightarrow> unit result) \<Rightarrow> nat list \<Rightarrow> unit result" where
  "for_classes f [] = Inr ()"
| "for_classes f (i # is) = rbind (f i) (\<lambda>_. for_classes f is)"

lemma for_classes_ok: "(\<And>i. i \<in> set is \<Longrightarrow> f i = Inr ()) \<Longrightarrow> for_classes f is = Inr ()"
  by (induction "is") auto

section \<open>The walks on lists in good shape\<close>

lemma check_links_dll:
  assumes "dll m pr p hs NULL"
  shows "check_links m pr p = Some True"
  using assms
proof (induction hs arbitrary: pr p)
  case Nil
  then show ?case by (subst check_links.simps) simp
next
  case (Cons h hs)
  then show ?case by (subst check_links.simps) auto
qed

lemma check_nodes_dll:
  assumes "dll m pr p hs NULL" "\<And>h. h \<in> set hs \<Longrightarrow> free_block m h \<and> 48 \<le> bsize m h"
    and "sorted_wrt ok (pre # map (obj_size m) hs)"
  shows "check_nodes ok m pre p = Some True"
  using assms
proof (induction hs arbitrary: pr p pre)
  case Nil
  then show ?case by (subst check_nodes.simps) simp
next
  case (Cons h hs)
  have p: "p = 16 + h" and tl: "dll m (16 + h) (next_of m (16 + h)) hs NULL"
    using Cons.prems(1) by auto
  have fb: "free_block m h" "48 \<le> bsize m h"
    using Cons.prems(2) by auto
  have ft: "16 + h + unat (obj_size m h) - 2 * 16 = h + bsize m h - 16"
    using fb(2) by (simp add: bsize_def)
  have "obj_flags m h = ObjFree" "obj_flags m (h + bsize m h - 16) = ObjFree"
    "obj_size m (h + bsize m h - 16) = obj_size m h"
    using fb(1) by (auto simp: free_block_def bsize_def word_unat_eq_iff)
  moreover have "check_nodes ok m (obj_size m h) (next_of m (16 + h)) = Some True"
    using Cons.prems tl by (intro Cons.IH) auto
  ultimately show ?case
    using Cons.prems(3) ft by (subst check_nodes.simps) (simp add: p Let_def)
qed

text \<open>On a list in memory the walk always ends; a node of a wrong size makes it fail.\<close>

lemma check_nodes_total:
  assumes "dll m pr p hs NULL"
  shows "\<exists>b. check_nodes ok m pre p = Some b"
  using assms
proof (induction hs arbitrary: pr p pre)
  case Nil
  then have "check_nodes ok m pre p = Some True"
    by (subst check_nodes.simps) simp
  then show ?case ..
next
  case (Cons h hs)
  then have "\<exists>b. check_nodes ok m (obj_size m h) (next_of m (16 + h)) = Some b"
    by auto
  then show ?case
    using Cons.prems by (subst check_nodes.simps) (auto simp: Let_def)
qed

lemma check_nodes_bad:
  assumes "dll m pr p hs NULL" "x \<in> set hs" "\<And>pre. \<not> ok pre (obj_size m x)"
  shows "check_nodes ok m pre p = Some False"
  using assms(1,2)
proof (induction hs arbitrary: pr p pre)
  case (Cons h hs)
  have "check_nodes ok m (obj_size m h) (next_of m (16 + h)) = Some False" if "x \<noteq> h"
    using Cons that by auto
  then show ?case
    using Cons.prems assms(3) by (subst check_nodes.simps) (auto simp: Let_def)
qed simp

lemma for_classes_fail:
  assumes "\<And>i. i \<in> set is \<Longrightarrow> f i = Inr () \<or> f i = Inl AssertFail" "k \<in> set is" "f k = Inl AssertFail"
  shows "for_classes f is = Inl AssertFail"
  using assms by (induction "is") (auto, metis rbind_simps)

lemma sum_nodes_dll:
  assumes "dll m pr p hs NULL"
  shows "sum_nodes m acc p = Some (acc + sum_list (map (obj_size m) hs))"
  using assms
proof (induction hs arbitrary: pr p acc)
  case Nil
  then show ?case by (subst sum_nodes.simps) simp
next
  case (Cons h hs)
  then show ?case by (subst sum_nodes.simps) (auto simp: getFreeNodeSize_def add.assoc)
qed

lemma sum_lists_dll:
  assumes "length ps = length L" "\<And>i. i < length L \<Longrightarrow> dll m NULL (ps ! i) (L ! i) NULL"
  shows "sum_lists m ps acc = Some (acc + sum_list (map (obj_size m) (concat L)))"
  using assms
proof (induction ps L arbitrary: acc rule: list_induct2)
  case (Cons p ps l L)
  have "dll m NULL p l NULL" "\<And>i. i < length L \<Longrightarrow> dll m NULL (ps ! i) (L ! i) NULL"
    using Cons.prems [of 0] Cons.prems [of "Suc i" for i] by auto
  then show ?case
    using Cons.IH by (simp add: sum_nodes_dll add.assoc)
qed simp

lemma sum_list_words: "sum_list (map f xs) = (of_nat (sum_list (map (\<lambda>x. unat (f x)) xs)) :: size_t)"
  by (induction xs) simp_all

lemma sum_lists_arena:
  assumes "arena_ok u ex m freels L"
  shows "sum_lists m freels 0 = Some (of_nat (fsum m L))"
  using sum_lists_dll [of freels L m 0] arena_okD [OF assms]
  by (simp add: fsum_def bsize_def [abs_def] sum_list_words [of "obj_size m"])

end
