(* ===== verification/One_Layer.thy ===== *)
theory One_Layer
  imports Heap_Checks
begin

text \<open>
  The one-layer allocator (\<open>myAlloc_1Layer/MyMalloc.cpp\<close>): one set of free lists with classes of
  8 bytes, refilled from the operating system.  The state is the \<open>Allocator\<close> object together with
  the process it lives in (memory, program break, the environment variable it reads).  The
  mutex \<open>_m\<close> makes each operation atomic, so an operation is a function on the state.
\<close>

section \<open>State\<close>

record process =
  p_mem :: mem
  p_os :: os
  p_verbose_env :: "string option"  \<comment> \<open>\<open>getenv("MALLOCVERBOSE")\<close>\<close>
  p_atexit :: nat                   \<comment> \<open>handlers registered with \<open>atexit\<close>\<close>

record allocator =
  a_freels :: "addr list"
  a_heapSize :: size_t
  a_initialized :: int32
  a_verbose :: int32
  a_mallocCalls :: int32
  a_freeCalls :: int32
  a_reallocCalls :: int32
  a_callocCalls :: int32

type_synonym state1 = "process \<times> allocator"

text \<open>The static object before \<open>main\<close>: zeroed memory and the constructor's initialisers.\<close>

definition TheAllocator :: allocator where
  "TheAllocator = \<lparr>a_freels = replicate NUMOFSIZECLASSES NULL, a_heapSize = 0, a_initialized = 0,
     a_verbose = 0, a_mallocCalls = 0, a_freeCalls = 0, a_reallocCalls = 0, a_callocCalls = 0\<rparr>"

definition increaseMallocCalls :: "allocator \<Rightarrow> allocator" where
  "increaseMallocCalls a = a\<lparr>a_mallocCalls := a_mallocCalls a + 1\<rparr>"

definition increaseReallocCalls :: "allocator \<Rightarrow> allocator" where
  "increaseReallocCalls a = a\<lparr>a_reallocCalls := a_reallocCalls a + 1\<rparr>"

definition increaseCallocCalls :: "allocator \<Rightarrow> allocator" where
  "increaseCallocCalls a = a\<lparr>a_callocCalls := a_callocCalls a + 1\<rparr>"

definition increaseFreeCalls :: "allocator \<Rightarrow> allocator" where
  "increaseFreeCalls a = a\<lparr>a_freeCalls := a_freeCalls a + 1\<rparr>"

section \<open>Operations\<close>

definition initialize :: "state1 \<Rightarrow> state1" where
  "initialize st =
     (let (p, a) = st;
          a = a\<lparr>a_verbose := 1\<rparr>;
          a = (if p_verbose_env p = Some ''NO'' then a\<lparr>a_verbose := 0\<rparr> else a);
          p = p\<lparr>p_atexit := p_atexit p + 1\<rparr>;
          a = a\<lparr>a_freels := replicate NUMOFSIZECLASSES NULL\<rparr>
      in (p, a))"

definition ensure_initialized :: "state1 \<Rightarrow> state1" where
  "ensure_initialized st =
     (let (p, a) = st
      in if a_initialized a = 0 then initialize (p, a\<lparr>a_initialized := 1\<rparr>) else st)"

definition getMemoryFromOS ::
    "size_t \<Rightarrow> mem \<Rightarrow> size_t \<times> os \<Rightarrow> (addr \<times> size_t \<times> mem \<times> size_t \<times> os) result" where
  "getMemoryFromOS sz m s =
     (let (heapSize, w) = s;
          heapSize = heapSize + sz;
          (ret, w) = sbrk (sint sz) w
      in Inr (ret, sz, m, heapSize, w))"

definition total_size :: "size_t \<Rightarrow> size_t" where
  "total_size sz =
     (let totalSize = (sz + push_bit 1 16 + 7) AND (NOT 7)
      in if totalSize < 48 then 48 else totalSize)"

definition allocateObject :: "size_t \<Rightarrow> state1 \<Rightarrow> (addr \<times> state1) result" where
  "allocateObject sz st =
     (let (p, a) = ensure_initialized st;
          totalSize = total_size sz
      in rbind (allocate_body 8 getMemoryFromOS totalSize (p_mem p) (a_freels a) (a_heapSize a, p_os p))
           (\<lambda>(mem, totalSize, m, freels, heapSize, w).
              let a = a\<lparr>a_freels := freels, a_heapSize := heapSize\<rparr>;
                  p = p\<lparr>p_os := w\<rparr>
              in rbind (finish_allocate w mem totalSize m) (\<lambda>(ptr, m). Inr (ptr, p\<lparr>p_mem := m\<rparr>, a))))"

definition freeObject :: "addr \<Rightarrow> state1 \<Rightarrow> state1 result" where
  "freeObject ptr st =
     (let (p, a) = st
      in rbind (free_body 8 ptr (p_mem p) (a_freels a))
           (\<lambda>(m, freels). Inr (p\<lparr>p_mem := m\<rparr>, a\<lparr>a_freels := freels\<rparr>)))"

definition malloc :: "size_t \<Rightarrow> state1 \<Rightarrow> (addr \<times> state1) result" where
  "malloc sz st =
     (if sz > 0
      then rbind (allocateObject sz st) (\<lambda>(ptr, p, a). Inr (ptr, p, increaseMallocCalls a))
      else Inl AssertFail)"

definition free :: "addr \<Rightarrow> state1 \<Rightarrow> state1 result" where
  "free ptr st =
     (if ptr = NULL then Inr st
      else let (p, a) = st in freeObject ptr (p, increaseFreeCalls a))"

definition memcpy :: "addr \<Rightarrow> addr \<Rightarrow> size_t \<Rightarrow> mem \<Rightarrow> mem" where
  "memcpy dest src n m = write_bytes m dest (read_bytes m src (unat n))"

definition realloc :: "addr \<Rightarrow> size_t \<Rightarrow> state1 \<Rightarrow> (addr \<times> state1) result" where
  "realloc ptr sz st =
     (let (p, a) = st in
      rbind (allocateObject sz (p, increaseReallocCalls a)) (\<lambda>(newptr, p, a).
        if ptr \<noteq> NULL then
          let sizeToCopy = objectSize ptr (p_mem p);
              sizeToCopy = (if sizeToCopy > sz then sz else sizeToCopy);
              p = p\<lparr>p_mem := memcpy newptr ptr sizeToCopy (p_mem p)\<rparr>
          in rbind (freeObject ptr (p, a)) (\<lambda>(p, a). Inr (newptr, p, a))
        else Inr (newptr, p, a)))"

section \<open>Checks and statistics\<close>

definition checkFreeLsConsist :: "nat \<Rightarrow> state1 \<Rightarrow> unit result" where
  "checkFreeLsConsist index st =
     (if index < NUMOFSIZECLASSES then
        let (p, a) = st;
            classsize = of_nat index * 8 :: size_t;
            size_ok = (\<lambda>_ totsize. if index \<le> NUMOFSIZECLASSES - 2 then totsize = classsize
                                   else totsize \<ge> classsize)
        in assert_opt (check_nodes size_ok (p_mem p) 0 (a_freels a ! index))
      else Inl AssertFail)"

definition checkDualLnkList :: "nat \<Rightarrow> state1 \<Rightarrow> unit result" where
  "checkDualLnkList index st =
     (if index < NUMOFSIZECLASSES then
        let (p, a) = st in assert_opt (check_links (p_mem p) NULL (a_freels a ! index))
      else Inl AssertFail)"

definition checkALL :: "state1 \<Rightarrow> unit result" where
  "checkALL st =
     for_classes (\<lambda>i. rbind (checkFreeLsConsist i st) (\<lambda>_. checkDualLnkList i st)) [0..<NUMOFSIZECLASSES]"

definition sumFreeListSize :: "state1 \<Rightarrow> size_t result" where
  "sumFreeListSize st = (let (p, a) = st in of_opt (sum_lists (p_mem p) (a_freels a) 0))"

text \<open>\<open>print\<close>: the call counters, the heap size, the free sum and whether the two are equal.\<close>

definition print_stats :: "state1 \<Rightarrow> (int \<times> int \<times> int \<times> int \<times> size_t \<times> size_t \<times> bool) result" where
  "print_stats st =
     (let (p, a) = st in
      rbind (sumFreeListSize st) (\<lambda>sumfreelssize.
        Inr (sint (a_mallocCalls a), sint (a_reallocCalls a), sint (a_callocCalls a), sint (a_freeCalls a),
             a_heapSize a, sumfreelssize, a_heapSize a = sumfreelssize)))"

text \<open>\<open>atExitHandler\<close>: the report, when there is one.\<close>

definition atExitHandler ::
    "state1 \<Rightarrow> (int \<times> int \<times> int \<times> int \<times> size_t \<times> size_t \<times> bool) option result" where
  "atExitHandler st =
     (if a_verbose (snd st) \<noteq> 0
      then rbind (print_stats st) (\<lambda>r. rbind (checkALL st) (\<lambda>_. Inr (Some r)))
      else Inr None)"

text \<open>\<open>getHeadFootInfo\<close>: sizes and flags of header and footer of a free node.\<close>

definition getHeadFootInfo :: "addr \<Rightarrow> mem \<Rightarrow> (size_t \<times> int) \<times> (size_t \<times> int)" where
  "getHeadFootInfo node m =
     (let obj = header_of node;
          objsize = obj_size m obj;
          foot = node + unat objsize - 2 * sizeof_ObjHeader
      in ((objsize, sint (obj_flags m obj)), (obj_size m foot, sint (obj_flags m foot))))"

end
