(* ===== verification/Two_Layer.thy ===== *)
theory Two_Layer
  imports One_Layer
begin

text \<open>
  The two-layer allocator (\<open>myAlloc_2Layer_lock\<close>).  The central heap (\<open>heap_alloc.cpp\<close>, class
  \<open>Allocator\<close>) has classes of 4096 bytes over the operating system; seventeen thread caches
  (\<open>thread_cache.cpp\<close>, class \<open>ThreadCache\<close>) have classes of 8 bytes over the central heap.  A thread
  uses the cache with the index \<open>pthread_self() % 17\<close>; the thread's identity is an argument of the
  C interface here.  Every operation runs under the mutexes of the layers it touches, so it is a
  function on the state.
\<close>

section \<open>State\<close>

abbreviation BASICALLOCSIZE :: size_t where
  "BASICALLOCSIZE \<equiv> 4096"

abbreviation CENTHEAPALLOCTHRESHOLD :: size_t where
  "CENTHEAPALLOCTHRESHOLD \<equiv> push_bit 14 1"

abbreviation NUMOFTHREADCACHES :: nat where
  "NUMOFTHREADCACHES \<equiv> 17"

record thread_cache =
  t_freels :: "addr list"
  t_cent_heap :: bool      \<comment> \<open>the pointer to the central heap has been set\<close>
  t_heapSize :: size_t
  t_initialized :: int32
  t_verbose :: int32

record central_heap =
  c_freels :: "addr list"
  c_thr_caches :: "thread_cache list"
  c_heapSize :: size_t
  c_initialized :: int32
  c_verbose :: int32
  c_mallocCalls :: int32
  c_freeCalls :: int32
  c_reallocCalls :: int32
  c_callocCalls :: int32

type_synonym state2 = "process \<times> central_heap"

definition new_thread_cache :: thread_cache where
  "new_thread_cache = \<lparr>t_freels = replicate NUMOFSIZECLASSES NULL, t_cent_heap = False, t_heapSize = 0,
     t_initialized = 0, t_verbose = 0\<rparr>"

text \<open>The static object before \<open>main\<close>.\<close>

definition TheCentralHeap :: central_heap where
  "TheCentralHeap = \<lparr>c_freels = replicate NUMOFSIZECLASSES NULL,
     c_thr_caches = replicate NUMOFTHREADCACHES new_thread_cache, c_heapSize = 0, c_initialized = 0,
     c_verbose = 0, c_mallocCalls = 0, c_freeCalls = 0, c_reallocCalls = 0, c_callocCalls = 0\<rparr>"

definition ch_increaseMallocCalls :: "central_heap \<Rightarrow> central_heap" where
  "ch_increaseMallocCalls c = c\<lparr>c_mallocCalls := c_mallocCalls c + 1\<rparr>"

definition ch_increaseReallocCalls :: "central_heap \<Rightarrow> central_heap" where
  "ch_increaseReallocCalls c = c\<lparr>c_reallocCalls := c_reallocCalls c + 1\<rparr>"

definition ch_increaseCallocCalls :: "central_heap \<Rightarrow> central_heap" where
  "ch_increaseCallocCalls c = c\<lparr>c_callocCalls := c_callocCalls c + 1\<rparr>"

definition ch_increaseFreeCalls :: "central_heap \<Rightarrow> central_heap" where
  "ch_increaseFreeCalls c = c\<lparr>c_freeCalls := c_freeCalls c + 1\<rparr>"

section \<open>The central heap\<close>

definition setCentralHeap :: "thread_cache \<Rightarrow> thread_cache" where
  "setCentralHeap t = t\<lparr>t_cent_heap := True\<rparr>"

definition ch_initialize :: "state2 \<Rightarrow> state2" where
  "ch_initialize st =
     (let (p, c) = st;
          c = c\<lparr>c_verbose := 1\<rparr>;
          c = (if p_verbose_env p = Some ''NO'' then c\<lparr>c_verbose := 0\<rparr> else c);
          p = p\<lparr>p_atexit := p_atexit p + 1\<rparr>;
          c = c\<lparr>c_freels := replicate NUMOFSIZECLASSES NULL\<rparr>;
          c = c\<lparr>c_heapSize := 0, c_mallocCalls := 0, c_freeCalls := 0, c_reallocCalls := 0,
                c_callocCalls := 0\<rparr>;
          c = c\<lparr>c_thr_caches := map setCentralHeap (c_thr_caches c)\<rparr>
      in (p, c))"

definition ch_getMemoryFromOS ::
    "size_t \<Rightarrow> mem \<Rightarrow> size_t \<times> os \<Rightarrow> (addr \<times> size_t \<times> mem \<times> size_t \<times> os) result" where
  "ch_getMemoryFromOS sz m s =
     (let (heapSize, w) = s;
          heapSize = heapSize + sz;
          (ret, w) = sbrk (sint sz) w
      in Inr (ret, sz, m, heapSize, w))"

definition ch_total_size :: "size_t \<Rightarrow> size_t" where
  "ch_total_size sz =
     (let totalSize = (sz + push_bit 1 16 + BASICALLOCSIZE - 1) AND (NOT (BASICALLOCSIZE - 1))
      in if totalSize < 48 then 48 else totalSize)"

definition ch_allocateObject :: "size_t \<Rightarrow> state2 \<Rightarrow> (addr \<times> state2) result" where
  "ch_allocateObject sz st =
     (if sz = 0 then Inr (NULL, st)
      else
        let (p, c) = st;
            totalSize = ch_total_size sz
        in if totalSize mod BASICALLOCSIZE \<noteq> 0 then Inl AssertFail
           else
             rbind (allocate_body BASICALLOCSIZE ch_getMemoryFromOS totalSize (p_mem p) (c_freels c)
                      (c_heapSize c, p_os p))
               (\<lambda>(mem, totalSize, m, freels, heapSize, w).
                  let c = c\<lparr>c_freels := freels, c_heapSize := heapSize\<rparr>;
                      p = p\<lparr>p_os := w\<rparr>
                  in rbind (finish_allocate w mem totalSize m) (\<lambda>(ptr, m). Inr (ptr, p\<lparr>p_mem := m\<rparr>, c))))"

definition ch_freeObject :: "addr \<Rightarrow> state2 \<Rightarrow> state2 result" where
  "ch_freeObject ptr st =
     (let (p, c) = st
      in rbind (free_body BASICALLOCSIZE ptr (p_mem p) (c_freels c))
           (\<lambda>(m, freels). Inr (p\<lparr>p_mem := m\<rparr>, c\<lparr>c_freels := freels\<rparr>)))"

section \<open>A thread cache\<close>

text \<open>A cache works on its own lists and, through its pointer, on the process and the central heap.\<close>

type_synonym cache_state = "thread_cache \<times> state2"

definition tc_initialize :: "cache_state \<Rightarrow> cache_state" where
  "tc_initialize ts =
     (let (t, p, c) = ts;
          t = t\<lparr>t_verbose := 1\<rparr>;
          t = (if p_verbose_env p = Some ''NO'' then t\<lparr>t_verbose := 0\<rparr> else t);
          t = t\<lparr>t_freels := replicate NUMOFSIZECLASSES NULL\<rparr>
      in (t, p, c))"

definition tc_ensure_initialized :: "cache_state \<Rightarrow> cache_state" where
  "tc_ensure_initialized ts =
     (let (t, st) = ts
      in if t_initialized t = 0 then tc_initialize (t\<lparr>t_initialized := 1\<rparr>, st) else ts)"

text \<open>
  \<open>getMemoryFromCentHeap\<close>, with the adjustment of \<open>totalSize\<close> that follows each of its calls: the
  chunk may be larger than asked for.  The memory is threaded through the process.
\<close>

definition getMemoryFromCentHeap ::
    "size_t \<Rightarrow> mem \<Rightarrow> bool \<times> state2 \<Rightarrow> (addr \<times> size_t \<times> mem \<times> bool \<times> state2) result" where
  "getMemoryFromCentHeap sz m s =
     (let (cent_heap, p, c) = s in
      if \<not> cent_heap then Inl BadAddress
      else
        rbind (ch_allocateObject sz (p\<lparr>p_mem := m\<rparr>, c)) (\<lambda>(pAvailSpace, p, c).
          let mem = header_of pAvailSpace;
              totalSize = (if obj_size (p_mem p) mem > sz then obj_size (p_mem p) mem else sz)
          in Inr (mem, totalSize, p_mem p, cent_heap, p, c)))"

definition tc_allocateObject :: "size_t \<Rightarrow> cache_state \<Rightarrow> (addr \<times> cache_state) result" where
  "tc_allocateObject sz ts =
     (let (t, p, c) = tc_ensure_initialized ts;
          totalSize = total_size sz
      in rbind (allocate_body 8 getMemoryFromCentHeap totalSize (p_mem p) (t_freels t) (t_cent_heap t, p, c))
           (\<lambda>(mem, totalSize, m, freels, _, p, c).
              let t = t\<lparr>t_freels := freels\<rparr>
              in rbind (finish_allocate (p_os p) mem totalSize m) (\<lambda>(ptr, m). Inr (ptr, t, p\<lparr>p_mem := m\<rparr>, c))))"

definition tc_freeObject :: "addr \<Rightarrow> cache_state \<Rightarrow> cache_state result" where
  "tc_freeObject ptr ts =
     (let (t, p, c) = ts
      in rbind (free_body 8 ptr (p_mem p) (t_freels t))
           (\<lambda>(m, freels). Inr (t\<lparr>t_freels := freels\<rparr>, p\<lparr>p_mem := m\<rparr>, c)))"

section \<open>The C interface\<close>

text \<open>An operation of the cache with a given index, run inside the whole state.\<close>

definition with_cache :: "nat \<Rightarrow> (cache_state \<Rightarrow> ('a \<times> cache_state) result) \<Rightarrow> state2 \<Rightarrow> ('a \<times> state2) result" where
  "with_cache i f st =
     (let (p, c) = st
      in rbind (f (c_thr_caches c ! i, p, c))
           (\<lambda>(r, t, p, c). Inr (r, p, c\<lparr>c_thr_caches := (c_thr_caches c)[i := t]\<rparr>)))"

definition ch_ensure_initialized :: "state2 \<Rightarrow> state2" where
  "ch_ensure_initialized st =
     (let (p, c) = st
      in if c_initialized c = 0 then ch_initialize (p, c\<lparr>c_initialized := 1\<rparr>) else st)"

definition cache_index :: "nat \<Rightarrow> nat" where
  "cache_index self = self mod NUMOFTHREADCACHES"

definition assignMalloc :: "nat \<Rightarrow> size_t \<Rightarrow> state2 \<Rightarrow> (addr \<times> state2) result" where
  "assignMalloc self sz st =
     (let st = ch_ensure_initialized st;
          index = cache_index self
      in if sz > CENTHEAPALLOCTHRESHOLD then ch_allocateObject sz st
         else with_cache index (tc_allocateObject sz) st)"

definition malloc2 :: "nat \<Rightarrow> size_t \<Rightarrow> state2 \<Rightarrow> (addr \<times> state2) result" where
  "malloc2 self sz st =
     (if sz > 0
      then rbind (assignMalloc self sz st) (\<lambda>(ptr, p, c). Inr (ptr, p, ch_increaseMallocCalls c))
      else Inl AssertFail)"

definition free2 :: "nat \<Rightarrow> addr \<Rightarrow> state2 \<Rightarrow> state2 result" where
  "free2 self ptr st =
     (if ptr = NULL then Inr st
      else
        let index = cache_index self;
            (p, c) = st;
            c = ch_increaseFreeCalls c;
            freeobjsize = objectSize ptr (p_mem p)
        in if freeobjsize mod CENTHEAPALLOCTHRESHOLD = 0 then ch_freeObject ptr (p, c)
           else rbind (with_cache index (\<lambda>ts. rbind (tc_freeObject ptr ts) (\<lambda>ts. Inr ((), ts))) (p, c))
                  (\<lambda>(_, st). Inr st))"

definition realloc2 :: "nat \<Rightarrow> addr \<Rightarrow> size_t \<Rightarrow> state2 \<Rightarrow> (addr \<times> state2) result" where
  "realloc2 self ptr sz st =
     (if sz > 0 then
        rbind (malloc2 self sz st) (\<lambda>(newptr, p, c).
          rbind (if ptr \<noteq> NULL then
                   let sizeToCopy = objectSize ptr (p_mem p);
                       sizeToCopy = (if sizeToCopy > sz then sz else sizeToCopy);
                       p = p\<lparr>p_mem := memcpy newptr ptr sizeToCopy (p_mem p)\<rparr>
                   in ch_freeObject ptr (p, c)
                 else Inr (p, c))
            (\<lambda>(p, c). Inr (newptr, p, ch_increaseReallocCalls c)))
      else Inl AssertFail)"

section \<open>Checks and statistics\<close>

definition ch_checkFreeLsConsist :: "nat \<Rightarrow> state2 \<Rightarrow> unit result" where
  "ch_checkFreeLsConsist index st =
     (if index < NUMOFSIZECLASSES then
        let (p, c) = st;
            classsize = of_nat index * BASICALLOCSIZE;
            size_ok = (\<lambda>prenodesize totsize.
              totsize mod BASICALLOCSIZE = 0 \<and>
              (if index \<le> NUMOFSIZECLASSES - 2 then totsize = classsize
               else totsize \<ge> classsize \<and> totsize \<ge> prenodesize))
        in assert_opt (check_nodes size_ok (p_mem p) 0 (c_freels c ! index))
      else Inl AssertFail)"

definition ch_checkDualLnkList :: "nat \<Rightarrow> state2 \<Rightarrow> unit result" where
  "ch_checkDualLnkList index st =
     (if index < NUMOFSIZECLASSES then
        let (p, c) = st in assert_opt (check_links (p_mem p) NULL (c_freels c ! index))
      else Inl AssertFail)"

definition ch_checkALL :: "state2 \<Rightarrow> unit result" where
  "ch_checkALL st =
     for_classes (\<lambda>i. rbind (ch_checkFreeLsConsist i st) (\<lambda>_. ch_checkDualLnkList i st)) [0..<NUMOFSIZECLASSES]"

definition ch_sumFreeListSize :: "state2 \<Rightarrow> size_t result" where
  "ch_sumFreeListSize st = (let (p, c) = st in of_opt (sum_lists (p_mem p) (c_freels c) 0))"

definition tc_checkFreeLsConsist :: "nat \<Rightarrow> mem \<Rightarrow> thread_cache \<Rightarrow> unit result" where
  "tc_checkFreeLsConsist index m t =
     (if index < NUMOFSIZECLASSES then
        let classsize = of_nat index * 8;
            size_ok = (\<lambda>prenodesize totsize.
              if index \<le> NUMOFSIZECLASSES - 2 then totsize = classsize
              else totsize \<ge> classsize \<and> totsize \<ge> prenodesize)
        in assert_opt (check_nodes size_ok m 0 (t_freels t ! index))
      else Inl AssertFail)"

definition tc_checkDualLnkList :: "nat \<Rightarrow> mem \<Rightarrow> thread_cache \<Rightarrow> unit result" where
  "tc_checkDualLnkList index m t =
     (if index < NUMOFSIZECLASSES then assert_opt (check_links m NULL (t_freels t ! index))
      else Inl AssertFail)"

definition tc_checkALL :: "mem \<Rightarrow> thread_cache \<Rightarrow> unit result" where
  "tc_checkALL m t =
     for_classes (\<lambda>i. rbind (tc_checkFreeLsConsist i m t) (\<lambda>_. tc_checkDualLnkList i m t)) [0..<NUMOFSIZECLASSES]"

definition tc_sumFreeListSize :: "mem \<Rightarrow> thread_cache \<Rightarrow> size_t result" where
  "tc_sumFreeListSize m t = of_opt (sum_lists m (t_freels t) 0)"

definition isInitialized :: "thread_cache \<Rightarrow> bool" where
  "isInitialized t \<longleftrightarrow> t_initialized t \<noteq> 0"

text \<open>The report of a cache: its \<open>_heapSize\<close>, the free sum, and whether they are equal.\<close>

definition tc_print :: "mem \<Rightarrow> thread_cache \<Rightarrow> (size_t \<times> size_t \<times> bool) result" where
  "tc_print m t =
     rbind (tc_sumFreeListSize m t) (\<lambda>sumfreelssize.
       Inr (t_heapSize t, sumfreelssize, t_heapSize t = sumfreelssize))"

fun add_caches :: "mem \<Rightarrow> thread_cache list \<Rightarrow> size_t \<Rightarrow> size_t result" where
  "add_caches m [] sumfreelssize = Inr sumfreelssize"
| "add_caches m (t # ts) sumfreelssize =
     (if isInitialized t
      then rbind (tc_sumFreeListSize m t) (\<lambda>s. add_caches m ts (sumfreelssize + s))
      else add_caches m ts sumfreelssize)"

definition ch_print :: "state2 \<Rightarrow> (int \<times> int \<times> int \<times> int \<times> size_t \<times> size_t \<times> bool) result" where
  "ch_print st =
     (let (p, c) = st in
      rbind (ch_sumFreeListSize st) (\<lambda>sumfreelssize.
        rbind (add_caches (p_mem p) (c_thr_caches c) sumfreelssize) (\<lambda>sumfreelssize.
          Inr (sint (c_mallocCalls c), sint (c_reallocCalls c), sint (c_callocCalls c), sint (c_freeCalls c),
               c_heapSize c, sumfreelssize, c_heapSize c = sumfreelssize))))"

definition ch_atExitHandler ::
    "state2 \<Rightarrow> (int \<times> int \<times> int \<times> int \<times> size_t \<times> size_t \<times> bool) option result" where
  "ch_atExitHandler st =
     (if c_verbose (snd st) \<noteq> 0
      then rbind (ch_print st) (\<lambda>r. rbind (ch_checkALL st) (\<lambda>_. Inr (Some r)))
      else Inr None)"

definition tc_atExitHandler :: "mem \<Rightarrow> thread_cache \<Rightarrow> (size_t \<times> size_t \<times> bool) option result" where
  "tc_atExitHandler m t =
     (if t_verbose t \<noteq> 0
      then rbind (tc_print m t) (\<lambda>r. rbind (tc_checkALL m t) (\<lambda>_. Inr (Some r)))
      else Inr None)"

definition atExitHandlerInC :: "state2 \<Rightarrow> unit result" where
  "atExitHandlerInC st =
     rbind (ch_atExitHandler st) (\<lambda>_.
       rbind (tc_atExitHandler (p_mem (fst st)) (c_thr_caches (snd st) ! 0)) (\<lambda>_. Inr ()))"

end
