(* ===== verification/Object_Heap.thy ===== *)
theory Object_Heap
  imports One_Layer
begin

text \<open>
  What \<open>realloc\<close> needs of an allocator, as an interface: the client may write to its own bytes, and
  an object can be released.  From this the copying part of \<open>realloc\<close> (copy to the new object,
  then free the old one) is proved once for both allocators.
\<close>

lemma memcpy_facts:
  shows "same_on (- {dest..<dest + unat n}) m (memcpy dest src n m)"
    and "i < unat n \<Longrightarrow> memcpy dest src n m (dest + i) = m (src + i)"
proof -
  show "same_on (- {dest..<dest + unat n}) m (memcpy dest src n m)"
    unfolding memcpy_def by (intro same_on_write_bytesI same_on_refl) (simp add: read_bytes_def)
  show "memcpy dest src n m (dest + i) = m (src + i)" if "i < unat n"
    using that by (simp add: memcpy_def write_bytes_def read_bytes_def)
qed

lemma objectSize_ge:
  assumes "unat sz + 32 \<le> bsize m h"
  shows "sz \<le> objectSize (16 + h) m"
  using assms by (simp add: objectSize_def bsize_def word_le_nat_alt unat_simps)

lemma live_kept:
  assumes "blocks_ok m X" "\<forall>b \<in> X. live_block m b" "\<And>b. b \<in> X \<Longrightarrow> same_on (block m b) m m'"
  shows "\<forall>b \<in> X. live_block m' b"
  using assms live_block_same blocks_okD(1) [OF assms(1)] by blast

locale object_heap =
  fixes mem_of :: "'st \<Rightarrow> mem" and put_mem :: "mem \<Rightarrow> 'st \<Rightarrow> 'st"
    and inv :: "'st \<Rightarrow> addr set \<Rightarrow> bool" and release :: "addr \<Rightarrow> 'st \<Rightarrow> 'st result"
  assumes mem_put: "mem_of (put_mem m st) = m"
    and inv_blocks: "inv st A \<Longrightarrow> blocks_ok (mem_of st) A"
    and write_inv: "inv st A \<Longrightarrow> b \<in> A \<Longrightarrow> same_on (- user_bytes (mem_of st) b) (mem_of st) m' \<Longrightarrow>
      inv (put_mem m' st) A"
    and write_others: "inv st A \<Longrightarrow> b \<in> A \<Longrightarrow> same_on (- user_bytes (mem_of st) b) (mem_of st) m' \<Longrightarrow>
      x \<in> A - {b} \<Longrightarrow> same_on (block (mem_of st) x) (mem_of st) m'"
    and release_ok: "inv st A \<Longrightarrow> h \<in> A \<Longrightarrow>
      \<exists>st'. release (16 + h) st = Inr st' \<and> inv st' (A - {h}) \<and>
        (\<forall>b \<in> A - {h}. same_on (block (mem_of st) b) (mem_of st) (mem_of st'))"
begin

lemma copy_and_release:
  assumes inv: "inv st (insert h2 A)" and h: "h \<in> A" "h2 \<notin> A" and n: "unat n + 32 \<le> bsize (mem_of st) h2"
  obtains st' where "release (16 + h) (put_mem (memcpy (16 + h2) (16 + h) n (mem_of st)) st) = Inr st'"
    and "inv st' (insert h2 (A - {h}))" and "bsize (mem_of st') h2 = bsize (mem_of st) h2"
    and "\<And>i. i < unat n \<Longrightarrow> mem_of st' (16 + h2 + i) = mem_of st (16 + h + i)"
    and "\<And>b. b \<in> A - {h} \<Longrightarrow> same_on (block (mem_of st) b) (mem_of st) (mem_of st')"
proof -
  define m1 where "m1 = memcpy (16 + h2) (16 + h) n (mem_of st)"
  have w: "same_on (- user_bytes (mem_of st) h2) (mem_of st) m1"
    unfolding m1_def using n
    by (intro same_on_mono [OF memcpy_facts(1)]) (auto simp: user_bytes_def)
  have h2: "h2 \<noteq> h" "insert h2 A - {h} = insert h2 (A - {h})"
    using h by blast+
  note bo = inv_blocks [OF inv]
  obtain st' where fr: "release (16 + h) (put_mem m1 st) = Inr st'" and inv': "inv st' (insert h2 A - {h})"
    and same: "\<And>b. b \<in> insert h2 A - {h} \<Longrightarrow> same_on (block m1 b) m1 (mem_of st')"
    using release_ok [OF write_inv [OF inv insertI1 w], of h] h(1) unfolding mem_put by auto
  have sz: "bsize m1 b = bsize (mem_of st) b" if "b \<in> insert h2 A" for b
  proof (cases "b = h2")
    case True
    then show ?thesis
      using user_write_own(1) [OF w] blocks_okD(1) [OF bo that] by simp
  next
    case False
    then show ?thesis
      using block_same(1) [OF write_others [OF inv insertI1 w]] blocks_okD(1) [OF bo that] that by simp
  qed
  have s2: "same_on (block m1 h2) m1 (mem_of st')"
    using h2 by (intro same) simp
  have "mem_of st' (16 + h2 + i) = mem_of st (16 + h + i)" if "i < unat n" for i
  proof -
    have "16 + h2 + i \<in> block m1 h2"
      using that n sz [of h2] by (simp add: block_def)
    then have "mem_of st' (16 + h2 + i) = m1 (16 + h2 + i)"
      using s2 by (simp add: same_on_def)
    then show ?thesis
      using memcpy_facts(2) [OF that] by (simp add: m1_def)
  qed
  moreover have "same_on (block (mem_of st) b) (mem_of st) (mem_of st')" if "b \<in> A - {h}" for b
    using write_others [OF inv insertI1 w, of b] same [of b] sz [of b] that h(2)
    by (auto simp: block_def intro: same_on_trans)
  moreover have "bsize (mem_of st') h2 = bsize (mem_of st) h2"
    using block_same(1) [OF s2] sz [of h2] blocks_okD(1) [OF bo, of h2] by simp
  ultimately show ?thesis
    using that [of st'] fr inv' h2(2) unfolding m1_def by simp
qed

text \<open>
  A whole \<open>realloc\<close>: \<open>st1\<close> is the state after the new object \<open>h2\<close> was allocated in \<open>st\<close>.
\<close>

lemma move_object:
  assumes inv0: "inv st A" and h: "h \<in> A" and inv1: "inv st1 (insert h2 A)"
    and h2: "h2 \<notin> A" "unat sz + 32 \<le> bsize (mem_of st1) h2"
    and s1: "\<And>b. b \<in> A \<Longrightarrow> same_on (block (mem_of st) b) (mem_of st) (mem_of st1)"
  defines "n \<equiv> (if objectSize (16 + h) (mem_of st1) > sz then sz else objectSize (16 + h) (mem_of st1))"
  obtains st' where "release (16 + h) (put_mem (memcpy (16 + h2) (16 + h) n (mem_of st1)) st1) = Inr st'"
    and "inv st' (insert h2 (A - {h}))" and "unat sz + 32 \<le> bsize (mem_of st') h2"
    and "\<And>i. i < unat (min sz (objectSize (16 + h) (mem_of st))) \<Longrightarrow>
           mem_of st' (16 + h2 + i) = mem_of st (16 + h + i)"
    and "\<And>b. b \<in> A - {h} \<Longrightarrow> same_on (block (mem_of st) b) (mem_of st) (mem_of st')"
proof -
  note bo = inv_blocks [OF inv0]
  have b1: "bsize (mem_of st1) b = bsize (mem_of st) b" if "b \<in> A" for b
    using block_same(1) [OF s1 [OF that] blocks_okD(1) [OF bo that]] .
  have os: "objectSize (16 + h) (mem_of st1) = objectSize (16 + h) (mem_of st)"
    using b1 [OF h] by (simp add: objectSize_def bsize_def flip: word_unat_eq_iff)
  have nm: "n = min sz (objectSize (16 + h) (mem_of st))"
    by (auto simp: n_def min_def os)
  have nle: "n \<le> sz" "n \<le> objectSize (16 + h) (mem_of st)"
    by (simp_all add: nm)
  then have n: "unat n + 32 \<le> bsize (mem_of st1) h2"
    using h2 by (simp add: word_le_nat_alt)
  obtain st' where fr: "release (16 + h) (put_mem (memcpy (16 + h2) (16 + h) n (mem_of st1)) st1) = Inr st'"
    and r: "inv st' (insert h2 (A - {h}))" "bsize (mem_of st') h2 = bsize (mem_of st1) h2"
      "\<And>i. i < unat n \<Longrightarrow> mem_of st' (16 + h2 + i) = mem_of st1 (16 + h + i)"
      "\<And>b. b \<in> A - {h} \<Longrightarrow> same_on (block (mem_of st1) b) (mem_of st1) (mem_of st')"
    using copy_and_release [OF inv1 h h2(1) n] by metis
  have "mem_of st' (16 + h2 + i) = mem_of st (16 + h + i)" if "i < unat n" for i
  proof -
    have "16 + h + i \<in> block (mem_of st) h"
      using that nle(2) blocks_okD(1) [OF bo h]
      by (simp add: objectSize_def block_def bsize_def unat_simps word_le_nat_alt)
    then show ?thesis
      using r(3) [OF that] s1 [OF h] by (simp add: same_on_def)
  qed
  moreover have "same_on (block (mem_of st) b) (mem_of st) (mem_of st')" if "b \<in> A - {h}" for b
    using s1 [of b] r(4) [OF that] b1 [of b] that by (auto simp: block_def intro: same_on_trans)
  ultimately show ?thesis
    using that [OF fr r(1)] r(2) h2(2) unfolding nm by simp
qed

end

end
