(* ===== verification/One_Layer_Correct.thy ===== *)
theory One_Layer_Correct
  imports Object_Heap
begin

text \<open>
  Correctness of the one-layer allocator.  The operating system is a source of memory and the
  allocator's lists are an arena over it; \<open>malloc\<close>, \<open>free\<close> and \<open>realloc\<close> then keep the heap
  invariant \<open>inv1\<close>, hand out memory that overlaps nothing, and never touch another block.
\<close>

section \<open>The operating system as a source\<close>

definition os_held :: "mem \<Rightarrow> size_t \<times> os \<Rightarrow> addr set \<Rightarrow> nat \<Rightarrow> bool" where
  "os_held m s F c \<longleftrightarrow>
     F = {} \<and> c = unat (fst s) \<and> 8 dvd brk (snd s) \<and> brk_start (snd s) \<le> brk (snd s) \<and>
     brk (snd s) \<le> brk_limit (snd s) \<and> brk_limit (snd s) < 2 ^ 64"

text \<open>
  Room for \<open>n\<close> bytes below the limit of the break.  The number of the size class of a block, its size divided by 8, is passed as an
  \<open>int\<close>: that bounds the blocks by \<open>2 ^ 34\<close> bytes.
\<close>

definition os_room :: "size_t \<times> os \<Rightarrow> nat \<Rightarrow> bool" where
  "os_room s n \<longleftrightarrow>
     n < 2 ^ 34 \<and> unat (fst s) + n < 2 ^ 64 \<and> brk (snd s) + n \<le> brk_limit (snd s)"

definition os_hi :: "size_t \<times> os \<Rightarrow> nat" where
  "os_hi s = brk (snd s)"

lemma sbrk_ok:
  assumes "brk_start w \<le> brk w" "brk w + k \<le> brk_limit w"
  shows "sbrk (int k) w = (brk w, w\<lparr>brk := brk w + k\<rparr>)"
proof -
  have "nat (int (brk w) + int k) = brk w + k"
    by simp
  then show ?thesis
    using assms unfolding sbrk_def Let_def by simp
qed

lemma getMemoryFromOS_room:
  assumes "os_held m s F c" "os_room s (unat n)"
  shows "getMemoryFromOS n m s =
    Inr (brk (snd s), n, m, fst s + n, (snd s)\<lparr>brk := brk (snd s) + unat n\<rparr>)"
proof -
  have n: "sint n = int (unat n)"
    using assms(2) by (intro sint_small) (simp add: os_room_def)
  have "sbrk (sint n) (snd s) = (brk (snd s), (snd s)\<lparr>brk := brk (snd s) + unat n\<rparr>)"
    unfolding n using assms by (intro sbrk_ok) (auto simp: os_held_def os_room_def)
  then show ?thesis
    by (simp add: getMemoryFromOS_def Let_def case_prod_beta)
qed

interpretation os: mem_source getMemoryFromOS os_held os_room os_hi
proof unfold_locales
  fix m m' s F c
  assume "os_held m s F c"
  then show "os_held m' s F c"
    by (simp add: os_held_def)
next
  fix m s F c B and n :: size_t
  assume h: "os_held m s F c" and ok: "blocks_ok m B" and below: "\<And>b. b \<in> B \<Longrightarrow> b + bsize m b \<le> os_hi s"
    and n: "48 \<le> unat n" "8 dvd unat n" "os_room s (unat n)"
  define s' where "s' = (fst s + n, (snd s)\<lparr>brk := brk (snd s) + unat n\<rparr>)"
  have "getMemoryFromOS n m s = Inr (brk (snd s), n, m, s')"
    using getMemoryFromOS_room [OF h n(3)] by (simp add: s'_def)
  moreover have "os_held m s' {} (c + unat n)"
    using h n by (auto simp: os_held_def os_room_def s'_def unat_simps)
  moreover have "served B F (os_hi s') m m {} (brk (snd s)) (unat n) (unat n)"
    using h n ok below
    by (auto simp: served_def os_held_def os_room_def os_hi_def s'_def spot_def region_ok_def
        intro: trans_le_add1)
  ultimately show "\<exists>h t m' s' F'. getMemoryFromOS n m s = Inr (h, t, m', s') \<and>
      os_held m' s' F' (c + unat t) \<and> served B F (os_hi s') m m' F' h (unat t) (unat n)"
    by blast
qed

interpretation ol: arena_over getMemoryFromOS os_held os_room os_hi 8 True
  by unfold_locales simp_all

section \<open>Sizes\<close>

lemma total_size_eq:
  assumes "unat sz + 39 < 2 ^ 64"
  shows "unat (total_size sz) = max 48 ((unat sz + 39) div 8 * 8)"
proof -
  have "unat (sz + push_bit 1 16 + 7) = unat sz + 39"
    using assms by (simp add: unat_simps)
  moreover have "(7 :: size_t) = mask 3"
    by (simp add: mask_eq_exp_minus_1)
  ultimately have "unat ((sz + push_bit 1 16 + 7) AND (NOT 7)) = (unat sz + 39) div 8 * 8"
    using unat_and_not_mask [of "sz + push_bit 1 16 + 7" 3] by simp
  then show ?thesis
    by (auto simp: total_size_def Let_def word_less_nat_alt)
qed

lemma total_size_aligned: "48 \<le> unat (total_size sz)" "8 dvd unat (total_size sz)"
proof -
  have "unat ((sz + push_bit 1 16 + 7) AND (NOT 7)) = unat (sz + push_bit 1 16 + 7) div 8 * 8"
    using unat_and_not_mask [of "sz + push_bit 1 16 + 7" 3] by (simp add: mask_eq_exp_minus_1)
  then show "48 \<le> unat (total_size sz)" "8 dvd unat (total_size sz)"
    by (auto simp: total_size_def Let_def word_less_nat_alt)
qed

lemma total_size_ge:
  assumes "unat sz + 39 < 2 ^ 64"
  shows "unat sz + 32 \<le> unat (total_size sz)"
proof -
  have d: "unat sz + 39 < (unat sz + 39) div 8 * 8 + 8"
    using div_mult_mod_eq [of "unat sz + 39" 8] mod_less_divisor [of 8 "unat sz + 39"] by linarith
  then show ?thesis
    using total_size_eq [OF assms] by simp
qed

lemma total_size_facts:
  assumes "unat sz < 2 ^ 33"
  shows "48 \<le> unat (total_size sz)" "8 dvd unat (total_size sz)" "unat (total_size sz) < 2 ^ 34"
    "unat sz + 32 \<le> unat (total_size sz)"
proof -
  show "48 \<le> unat (total_size sz)" "8 dvd unat (total_size sz)"
    by (rule total_size_aligned)+
  show "unat (total_size sz) < 2 ^ 34" "unat sz + 32 \<le> unat (total_size sz)"
    using assms total_size_ge [of sz] total_size_eq [of sz] div_times_less_eq_dividend [of "unat sz + 39" 8] by auto
qed

section \<open>The heap invariant\<close>

definition heap1 :: "mem \<Rightarrow> addr list \<times> size_t \<times> os \<Rightarrow> addr set \<Rightarrow> bool" where
  "heap1 = heap_at (arena_held (unat (8 :: size_t)) True os_held) (\<lambda>st. os_hi (snd st))"

text \<open>\<open>inv1 st A\<close>: the heap is in order and \<open>A\<close> are the headers of the live objects.\<close>

definition inv1 :: "state1 \<Rightarrow> addr set \<Rightarrow> bool" where
  "inv1 st A \<longleftrightarrow>
     (a_initialized (snd st) = 0 \<longrightarrow> a_freels (snd st) = replicate NUMOFSIZECLASSES NULL \<and> A = {}) \<and>
     heap1 (p_mem (fst st)) (a_freels (snd st), a_heapSize (snd st), p_os (fst st)) A \<and>
     (\<forall>b \<in> A. live_block (p_mem (fst st)) b)"

definition room1 :: "state1 \<Rightarrow> size_t \<Rightarrow> bool" where
  "room1 st sz \<longleftrightarrow> os_room (a_heapSize (snd st), p_os (fst st)) (unat (total_size sz))"

lemma ensure_initialized_facts:
  assumes "inv1 (p, a) A"
  obtains p' a' where "ensure_initialized (p, a) = (p', a')" and "p_mem p' = p_mem p" "p_os p' = p_os p"
    "a_freels a' = a_freels a" "a_heapSize a' = a_heapSize a" "a_initialized a' \<noteq> 0"
proof -
  obtain p' a' where e: "ensure_initialized (p, a) = (p', a')"
    by fastforce
  then show ?thesis
    using assms that [OF e]
    by (auto simp: ensure_initialized_def initialize_def inv1_def Let_def split: if_splits)
qed

lemma inv1_blocks: "inv1 (p, a) A \<Longrightarrow> blocks_ok (p_mem p) A"
  using heap_at_blocks by (fastforce simp: inv1_def heap1_def)

lemma allocateObject_correct:
  assumes inv: "inv1 (p, a) A" and rm: "room1 (p, a) sz"
  obtains h t p' a' where "allocateObject sz (p, a) = Inr (16 + h, p', a')"
    and "inv1 (p', a') (insert h A)" and "h \<notin> A" and "region_ok h t"
    and "bsize (p_mem p') h = t" and "unat (total_size sz) \<le> t"
    and "\<And>b. b \<in> A \<Longrightarrow> same_on (block (p_mem p) b) (p_mem p) (p_mem p')"
    and "\<And>b. b \<in> A \<Longrightarrow> block (p_mem p) b \<inter> {h..<h + t} = {}"
proof -
  obtain p1 a1 where e: "ensure_initialized (p, a) = (p1, a1)" and pa: "p_mem p1 = p_mem p" "p_os p1 = p_os p"
    "a_freels a1 = a_freels a" "a_heapSize a1 = a_heapSize a" "a_initialized a1 \<noteq> 0"
    using inv by (rule ensure_initialized_facts)
  define s where "s = (a_freels a, a_heapSize a, p_os p)"
  have rm': "arena_room 8 os_room s (unat (total_size sz))"
    using rm total_size_aligned(2) by (auto simp: room1_def arena_room_def s_def os_room_def)
  have hp: "heap1 (p_mem p) s A"
    using inv by (simp add: inv1_def s_def)
  obtain h t m' s' where gm: "arena_get 8 getMemoryFromOS (total_size sz) (p_mem p) s = Inr (h, t, m', s')"
    and hp': "heap1 (stamp ObjAllocated h t m') s' (insert h A)" and h: "h \<notin> A"
      "unat (total_size sz) \<le> unat t" "region_ok h (unat t)" "live_block (stamp ObjAllocated h t m') h"
      "bsize (stamp ObjAllocated h t m') h = unat t"
    and fr: "\<And>b. b \<in> A \<Longrightarrow> same_on (block (p_mem p) b) (p_mem p) (stamp ObjAllocated h t m')"
      "\<And>b. b \<in> A \<Longrightarrow> block (p_mem p) b \<inter> {h..<h + unat t} = {}"
    using ol.arena.heap_getmem [OF hp [unfolded heap1_def] total_size_aligned rm'] unfolding heap1_def by metis
  obtain freels' hs' w' where s': "s' = (freels', hs', w')"
    by (metis prod_cases3)
  define p' where "p' = p1\<lparr>p_os := w', p_mem := stamp ObjAllocated h t m'\<rparr>"
  define a' where "a' = a1\<lparr>a_freels := freels', a_heapSize := hs'\<rparr>"
  have "h + unat t \<le> brk w'"
    using heap_at_below [OF hp' [unfolded heap1_def], of h] h(5) by (simp add: s' os_hi_def)
  then have "finish_allocate w' h t m' = Inr (16 + h, stamp ObjAllocated h t m')"
    using h(3) by (simp add: finish_allocate_ok region_ok_def stamp_allocated_eq)
  then have "allocateObject sz (p, a) = Inr (16 + h, p', a')"
    using gm unfolding allocateObject_def arena_get_def s_def s'
    by (simp add: e pa p'_def a'_def)
  moreover have "inv1 (p', a') (insert h A)"
    using hp' h(4) pa(5) live_kept [OF heap_at_blocks [OF hp [unfolded heap1_def]] _ fr(1)] inv
    by (simp add: inv1_def p'_def a'_def s')
  ultimately show ?thesis
    using that [of h p' a' "unat t"] h fr by (simp add: p'_def)
qed

lemma freeObject_correct:
  assumes inv: "inv1 (p, a) A" and h: "h \<in> A"
  obtains p' a' where "freeObject (16 + h) (p, a) = Inr (p', a')" and "inv1 (p', a') (A - {h})"
    and "p_os p' = p_os p" "a_heapSize a' = a_heapSize a"
    and "\<And>b. b \<in> A - {h} \<Longrightarrow> same_on (block (p_mem p) b) (p_mem p) (p_mem p')"
proof -
  have hp: "heap1 (p_mem p) (a_freels a, a_heapSize a, p_os p) A" and lv: "live_block (p_mem p) h"
    and ini: "a_initialized a \<noteq> 0"
    using inv h by (auto simp: inv1_def)
  obtain m' freels' where fr: "free_body 8 (16 + h) (p_mem p) (a_freels a) = Inr (m', freels')"
    and hp': "heap1 m' (freels', a_heapSize a, p_os p) (A - {h})"
    and same: "\<And>b. b \<in> A - {h} \<Longrightarrow> same_on (block (p_mem p) b) (p_mem p) m'"
    using ol.heap_free [OF hp [unfolded heap1_def] h lv] unfolding heap1_def by blast
  define p' where "p' = p\<lparr>p_mem := m'\<rparr>"
  define a' where "a' = a\<lparr>a_freels := freels'\<rparr>"
  have bo: "blocks_ok (p_mem p) (A - {h})"
    using heap_at_blocks [OF hp [unfolded heap1_def]] by (rule blocks_ok_mono) blast
  have "inv1 (p', a') (A - {h})"
    using hp' ini inv live_kept [OF bo _ same] by (simp add: inv1_def p'_def a'_def)
  moreover have "freeObject (16 + h) (p, a) = Inr (p', a')"
    using fr by (simp add: freeObject_def p'_def a'_def)
  ultimately show ?thesis
    using that [of p' a'] same by (simp add: p'_def a'_def)
qed

lemma user_write_inv1:
  assumes inv: "inv1 (p, a) A" and b: "b \<in> A" and w: "same_on (- user_bytes (p_mem p) b) (p_mem p) m'"
  shows "inv1 (p\<lparr>p_mem := m'\<rparr>, a) A"
    and "x \<in> A - {b} \<Longrightarrow> same_on (block (p_mem p) x) (p_mem p) m'"
    and "x \<in> A \<Longrightarrow> bsize m' x = bsize (p_mem p) x"
proof -
  have hp: "heap1 (p_mem p) (a_freels a, a_heapSize a, p_os p) A"
    using inv by (simp add: inv1_def)
  note uw = ol.arena.heap_user_write [OF hp [unfolded heap1_def] b w, folded heap1_def]
  show "inv1 (p\<lparr>p_mem := m'\<rparr>, a) A"
    using inv uw(1,2) by (simp add: inv1_def)
  show "same_on (block (p_mem p) x) (p_mem p) m'" if "x \<in> A - {b}"
    using uw(3) that .
  show "bsize m' x = bsize (p_mem p) x" if "x \<in> A"
    using uw(2) that by blast
qed

section \<open>The C interface\<close>

text \<open>
  C1.  \<open>malloc\<close> on a heap in order, with a block of less than \<open>2 ^ 34\<close> bytes and room below the break limit, returns, for every size
  but the last 39 ones, whose total wraps around; the new object's header is new, the object is 8-aligned and at least as large as asked for, its block overlaps no
  live block, no byte of a live block changes, and the heap is in order with one more live object.
\<close>

theorem malloc_correct:
  assumes "inv1 st A" "0 < sz" "unat sz + 39 < 2 ^ 64" "room1 st sz"
  shows "\<exists>ptr st'. malloc sz st = Inr (ptr, st') \<and> inv1 st' (insert (ptr - 16) A) \<and> ptr - 16 \<notin> A \<and>
    16 \<le> ptr \<and> 8 dvd ptr \<and> sz \<le> objectSize ptr (p_mem (fst st')) \<and>
    (\<forall>b \<in> A. block (p_mem (fst st)) b \<inter> block (p_mem (fst st')) (ptr - 16) = {} \<and>
              same_on (block (p_mem (fst st)) b) (p_mem (fst st)) (p_mem (fst st')))"
proof -
  obtain p a where st: "st = (p, a)"
    by fastforce
  obtain h t p' a' where al: "allocateObject sz (p, a) = Inr (16 + h, p', a')"
    and r: "inv1 (p', a') (insert h A)" "h \<notin> A" "region_ok h t" "bsize (p_mem p') h = t" "unat (total_size sz) \<le> t"
      "\<And>b. b \<in> A \<Longrightarrow> same_on (block (p_mem p) b) (p_mem p) (p_mem p')"
      "\<And>b. b \<in> A \<Longrightarrow> block (p_mem p) b \<inter> {h..<h + t} = {}"
    using allocateObject_correct assms(1,4) unfolding st by metis
  have "inv1 (p', increaseMallocCalls a') (insert h A)"
    using r(1) by (simp add: inv1_def increaseMallocCalls_def)
  moreover have "sz \<le> objectSize (16 + h) (p_mem p')"
    using r(4,5) total_size_ge [OF assms(3)] by (intro objectSize_ge) simp
  moreover have "8 dvd 16 + h"
    using r(3) by (simp add: region_ok_def dvd_add)
  ultimately show ?thesis
    using assms(2) al r(2,4,6,7) unfolding st
    by (intro exI [of _ "16 + h"] exI [of _ "(p', increaseMallocCalls a')"])
      (simp add: malloc_def block_def)
qed

text \<open>
  C2.  \<open>free\<close> of a live object returns, the object is no longer live, and no byte of another live
  block changes; \<open>free(NULL)\<close> does nothing.
\<close>

theorem free_correct:
  assumes "inv1 st A" "h \<in> A"
  shows "(\<exists>st'. free (16 + h) st = Inr st' \<and> inv1 st' (A - {h}) \<and>
     (\<forall>b \<in> A - {h}. same_on (block (p_mem (fst st)) b) (p_mem (fst st)) (p_mem (fst st')))) \<and>
    free NULL st = Inr st"
proof -
  obtain p a where st: "st = (p, a)"
    by fastforce
  have "inv1 (p, increaseFreeCalls a) A"
    using assms(1) by (simp add: st inv1_def increaseFreeCalls_def)
  then obtain p' a' where "freeObject (16 + h) (p, increaseFreeCalls a) = Inr (p', a')"
    and "inv1 (p', a') (A - {h})"
    and "\<And>b. b \<in> A - {h} \<Longrightarrow> same_on (block (p_mem p) b) (p_mem p) (p_mem p')"
    using assms(2) freeObject_correct by metis
  then show ?thesis
    by (auto simp: st free_def)
qed

definition put_mem1 :: "mem \<Rightarrow> state1 \<Rightarrow> state1" where
  "put_mem1 m st = ((fst st)\<lparr>p_mem := m\<rparr>, snd st)"

interpretation oh1: object_heap "\<lambda>st. p_mem (fst st)" put_mem1 inv1 freeObject
proof unfold_locales
  fix m and st :: state1
  show "p_mem (fst (put_mem1 m st)) = m"
    by (simp add: put_mem1_def)
next
  fix st A
  assume "inv1 st A"
  then show "blocks_ok (p_mem (fst st)) A"
    using inv1_blocks by (cases st) simp
next
  fix st A b m'
  assume "inv1 st A" "b \<in> A" "same_on (- user_bytes (p_mem (fst st)) b) (p_mem (fst st)) m'"
  then show "inv1 (put_mem1 m' st) A"
    using user_write_inv1(1) by (cases st) (simp add: put_mem1_def)
next
  fix st A b m' x
  assume "inv1 st A" "b \<in> A" "same_on (- user_bytes (p_mem (fst st)) b) (p_mem (fst st)) m'" "x \<in> A - {b}"
  then show "same_on (block (p_mem (fst st)) x) (p_mem (fst st)) m'"
    using user_write_inv1(2) by (cases st) simp
next
  fix st A h
  assume "inv1 st A" "h \<in> A"
  then show "\<exists>st'. freeObject (16 + h) st = Inr st' \<and> inv1 st' (A - {h}) \<and>
      (\<forall>b \<in> A - {h}. same_on (block (p_mem (fst st)) b) (p_mem (fst st)) (p_mem (fst st')))"
    using freeObject_correct by (cases st) (metis fst_conv)
qed

lemma realloc_live:
  assumes inv: "inv1 (p, a) A" and h: "h \<in> A" and room: "room1 (p, a) sz"
    and size: "unat sz + 39 < 2 ^ 64"
  obtains h2 p' a' where "realloc (16 + h) sz (p, a) = Inr (16 + h2, p', a')"
    and "inv1 (p', a') (insert h2 (A - {h}))" and "h2 \<notin> A"
    and "unat sz + 32 \<le> bsize (p_mem p') h2"
    and "\<And>i. i < unat (min sz (objectSize (16 + h) (p_mem p))) \<Longrightarrow>
           p_mem p' (16 + h2 + i) = p_mem p (16 + h + i)"
    and "\<And>b. b \<in> A - {h} \<Longrightarrow> same_on (block (p_mem p) b) (p_mem p) (p_mem p')"
proof -
  have "inv1 (p, increaseReallocCalls a) A" "room1 (p, increaseReallocCalls a) sz"
    using inv room by (simp_all add: inv1_def room1_def increaseReallocCalls_def)
  then obtain h2 t p1 a1 where al: "allocateObject sz (p, increaseReallocCalls a) = Inr (16 + h2, p1, a1)"
    and inv1: "inv1 (p1, a1) (insert h2 A)" and h2: "h2 \<notin> A" "bsize (p_mem p1) h2 = t" "unat (total_size sz) \<le> t"
    and s1: "\<And>b. b \<in> A \<Longrightarrow> same_on (block (p_mem p) b) (p_mem p) (p_mem p1)"
    by (rule allocateObject_correct) blast
  have "unat sz + 32 \<le> t"
    using h2(3) total_size_ge [OF size] by simp
  note h2 = h2(1,2) this
  define n where "n = (if objectSize (16 + h) (p_mem p1) > sz then sz else objectSize (16 + h) (p_mem p1))"
  obtain p' a' where fr: "freeObject (16 + h) (p1\<lparr>p_mem := memcpy (16 + h2) (16 + h) n (p_mem p1)\<rparr>, a1) = Inr (p', a')"
    and r: "inv1 (p', a') (insert h2 (A - {h}))" "unat sz + 32 \<le> bsize (p_mem p') h2"
      "\<And>i. i < unat (min sz (objectSize (16 + h) (p_mem p))) \<Longrightarrow> p_mem p' (16 + h2 + i) = p_mem p (16 + h + i)"
      "\<And>b. b \<in> A - {h} \<Longrightarrow> same_on (block (p_mem p) b) (p_mem p) (p_mem p')"
    using oh1.move_object [of "(p, a)" A h "(p1, a1)" h2 sz] inv h inv1 h2 s1
    unfolding n_def put_mem1_def fst_conv snd_conv by (metis surj_pair fst_conv)
  have "realloc (16 + h) sz (p, a) = Inr (16 + h2, p', a')"
    using fr al by (simp add: realloc_def Let_def n_def [symmetric] split del: if_split)
  then show ?thesis
    using that [of h2 p' a'] r h2(1) by simp
qed

text \<open>
  C3.  \<open>realloc\<close> of a live object, with a block of less than \<open>2 ^ 34\<close> bytes, room below the break limit and to a size whose total does not wrap around, returns a new live object in its place, at least as large as
  asked for, that starts with the old object's bytes up to the smaller of the two sizes; every other
  live block keeps its bytes.
\<close>

theorem realloc_correct:
  assumes "inv1 st A" "h \<in> A" "room1 st sz" "unat sz + 39 < 2 ^ 64"
  shows "\<exists>newptr st'. realloc (16 + h) sz st = Inr (newptr, st') \<and>
    inv1 st' (insert (newptr - 16) (A - {h})) \<and> newptr - 16 \<notin> A \<and>
    sz \<le> objectSize newptr (p_mem (fst st')) \<and>
    (\<forall>i < unat (min sz (objectSize (16 + h) (p_mem (fst st)))).
       p_mem (fst st') (newptr + i) = p_mem (fst st) (16 + h + i)) \<and>
    (\<forall>b \<in> A - {h}. same_on (block (p_mem (fst st)) b) (p_mem (fst st)) (p_mem (fst st')))"
proof -
  obtain p a where st: "st = (p, a)"
    by fastforce
  show ?thesis
    using realloc_live [OF assms [unfolded st]] objectSize_ge unfolding st
    by (metis diff_add_inverse fst_conv)
qed

section \<open>Accounting and the built-in checks\<close>

lemma inv1_arena:
  assumes "inv1 (p, a) A"
  obtains L where "arena_ok 8 True (p_mem p) (a_freels a) L" and "blocks_ok (p_mem p) (A \<union> set (concat L))"
    and "(\<Sum>b \<in> A. bsize (p_mem p) b) + fsum (p_mem p) L = unat (a_heapSize a)"
  using assms by (auto simp: inv1_def heap1_def heap_at_def arena_held_def os_held_def)

lemma inv1_sum:
  assumes "inv1 st A"
  shows "\<exists>s. sumFreeListSize st = Inr s \<and>
    unat s + (\<Sum>b \<in> A. bsize (p_mem (fst st)) b) = unat (a_heapSize (snd st))"
proof -
  obtain p a where st: "st = (p, a)"
    by fastforce
  obtain L where L: "arena_ok 8 True (p_mem p) (a_freels a) L"
    and c: "(\<Sum>b \<in> A. bsize (p_mem p) b) + fsum (p_mem p) L = unat (a_heapSize a)"
    using inv1_arena assms unfolding st by metis
  have "fsum (p_mem p) L < 2 ^ 64"
    using c unsigned_less [of "a_heapSize a", where ?'a = nat] by simp
  then have "unat (of_nat (fsum (p_mem p) L) :: size_t) = fsum (p_mem p) L"
    by (rule unat_of_nat_small)
  then show ?thesis
    using c by (simp add: st sumFreeListSize_def sum_lists_arena [OF L])
qed

lemma check_class_ok:
  assumes L: "arena_ok 8 True m freels L" and ok: "blocks_ok m (set (concat L))" and i: "i < 65"
    and size_ok: "\<And>pre h. h \<in> set (L ! i) \<Longrightarrow>
      (if i \<le> 63 then obj_size m h = of_nat i * 8 else of_nat i * 8 \<le> obj_size m h) \<Longrightarrow>
      size_ok pre (obj_size m h)"
  shows "check_nodes size_ok m 0 (freels ! i) = Some True"
proof (rule check_nodes_dll)
  note ao = arena_okD [OF L]
  show "dll m NULL (freels ! i) (L ! i) NULL"
    using i by (rule ao)
  have sub: "set (L ! i) \<subseteq> set (concat L)"
    using i ao(2) by (intro concat_nth_subset) simp
  show "free_block m h \<and> 48 \<le> bsize m h" if "h \<in> set (L ! i)" for h
    using ao(5) [OF i that] blocks_okD(1) [OF ok] sub that by blast
  have iw: "unat (of_nat i * 8 :: size_t) = i * 8"
    using i by (simp add: unat_word_ariths unat_of_nat)
  have "size_ok pre (obj_size m h)" if "h \<in> set (L ! i)" for pre h
    using ao(6) [OF i that] that iw
    by (intro size_ok) (auto simp: class_ok_def bsize_def word_unat_eq_iff word_le_nat_alt)
  then show "sorted_wrt size_ok (0 # map (obj_size m) (L ! i))"
    by (auto simp: sorted_wrt_iff_nth_less)
qed

lemma inv1_checkALL:
  assumes "inv1 st A"
  shows "checkALL st = Inr ()"
proof -
  obtain p a where st: "st = (p, a)"
    by fastforce
  obtain L where L: "arena_ok 8 True (p_mem p) (a_freels a) L" and ok: "blocks_ok (p_mem p) (A \<union> set (concat L))"
    using inv1_arena assms unfolding st by metis
  have ok': "blocks_ok (p_mem p) (set (concat L))"
    using ok by (rule blocks_ok_mono) blast
  have "checkFreeLsConsist i st = Inr ()" "checkDualLnkList i st = Inr ()" if i: "i < 65" for i
  proof -
    show "checkFreeLsConsist i st = Inr ()"
      using i check_class_ok [OF L ok' i]
      by (auto simp: checkFreeLsConsist_def st assert_opt_def Let_def)
    show "checkDualLnkList i st = Inr ()"
      using i check_links_dll [OF arena_okD(4) [OF L i]]
      by (simp add: checkDualLnkList_def st assert_opt_def)
  qed
  then show ?thesis
    unfolding checkALL_def by (intro for_classes_ok) auto
qed

section \<open>Whole histories\<close>

text \<open>A process before its first allocation.\<close>

definition booted :: "process \<Rightarrow> bool" where
  "booted p \<longleftrightarrow> 8 dvd brk (p_os p) \<and> brk_start (p_os p) \<le> brk (p_os p) \<and>
     brk (p_os p) \<le> brk_limit (p_os p) \<and> brk_limit (p_os p) < 2 ^ 64"

lemma concat_replicate_Nil [simp]: "concat (replicate n []) = []"
  by (induction n) simp_all

lemma arena_ok_empty:
  "arena_ok u ex m (replicate NUMOFSIZECLASSES NULL) (replicate NUMOFSIZECLASSES [])"
  by (simp add: arena_ok_def fl_rep_def)

lemma inv1_empty:
  assumes os: "os_held m (hs, w) {} (\<Sum>b \<in> A. bsize m b)" and A: "finite A" "blocks_ok m A"
    "\<forall>b \<in> A. b + bsize m b \<le> brk w \<and> live_block m b"
  shows "heap1 m (replicate NUMOFSIZECLASSES NULL, hs, w) A"
proof -
  have "arena_held (unat (8 :: size_t)) True os_held m (replicate NUMOFSIZECLASSES NULL, hs, w)
      (set (concat (replicate NUMOFSIZECLASSES [])) \<union> {}) (\<Sum>b \<in> A. bsize m b)"
    using os by (intro arena_heldI arena_ok_empty) (simp_all add: fsum_def)
  then show ?thesis
    using A unfolding heap1_def heap_at_def by (intro exI [of _ "{}"]) (simp add: os_hi_def)
qed

lemma boot_inv1:
  assumes "booted p"
  shows "inv1 (p, TheAllocator) {}"
  using inv1_empty [of "p_mem p" 0 "p_os p" "{}"] assms
  by (simp add: inv1_def TheAllocator_def booted_def os_held_def blocks_ok_def)

text \<open>
  The states a client can bring about: calls of \<open>malloc\<close>, \<open>free\<close> and \<open>realloc\<close> on live objects, as long as the block that is asked
  for has less than \<open>2 ^ 34\<close> bytes and the break limit leaves room for it, and any writes between header and footer of live objects.
  A \<open>malloc\<close> whose total size wraps around is included; a \<open>realloc\<close> with such a size, which copies too much, is not.
\<close>

inductive reach1 :: "state1 \<Rightarrow> addr set \<Rightarrow> bool" where
  start: "booted p \<Longrightarrow> reach1 (p, TheAllocator) {}"
| do_malloc: "reach1 st A \<Longrightarrow> room1 st sz \<Longrightarrow> malloc sz st = Inr (ptr, st') \<Longrightarrow> reach1 st' (insert (ptr - 16) A)"
| do_free: "reach1 st A \<Longrightarrow> h \<in> A \<Longrightarrow> free (16 + h) st = Inr st' \<Longrightarrow> reach1 st' (A - {h})"
| do_realloc: "reach1 st A \<Longrightarrow> h \<in> A \<Longrightarrow> room1 st sz \<Longrightarrow> unat sz + 39 < 2 ^ 64 \<Longrightarrow> realloc (16 + h) sz st = Inr (ptr, st') \<Longrightarrow>
    reach1 st' (insert (ptr - 16) (A - {h}))"
| user_write: "reach1 (p, a) A \<Longrightarrow> h \<in> A \<Longrightarrow> same_on (- user_bytes (p_mem p) h) (p_mem p) m' \<Longrightarrow>
    reach1 (p\<lparr>p_mem := m'\<rparr>, a) A"

lemma reach1_inv: "reach1 st A \<Longrightarrow> inv1 st A"
proof (induction rule: reach1.induct)
  case (start p)
  then show ?case by (rule boot_inv1)
next
  case (do_malloc st A sz ptr st')
  obtain p a where st: "st = (p, a)"
    by fastforce
  obtain h p' a' where "allocateObject sz st = Inr (16 + h, p', a')" "inv1 (p', a') (insert h A)"
    using allocateObject_correct do_malloc(4,2) unfolding st by metis
  then show ?case
    using do_malloc.hyps(3) by (auto simp: malloc_def inv1_def increaseMallocCalls_def split: if_splits)
next
  case (do_free st A h st')
  obtain p a where st: "st = (p, a)"
    by fastforce
  have "inv1 (p, increaseFreeCalls a) A"
    using do_free.IH by (simp add: st inv1_def increaseFreeCalls_def)
  then show ?case
    using freeObject_correct [OF _ do_free.hyps(2)] do_free.hyps(3) unfolding st free_def by fastforce
next
  case (do_realloc st A h sz ptr st')
  obtain p a where st: "st = (p, a)"
    by fastforce
  show ?case
    using realloc_live do_realloc.IH do_realloc.hyps(2-5) unfolding st
    by (metis diff_add_inverse prod.inject sum.inject(2))
next
  case (user_write p a A h m')
  then show ?case using user_write_inv1(1) by blast
qed

text \<open>
  C4.  After any sequence of \<open>malloc\<close>, \<open>free\<close> and \<open>realloc\<close> calls and of writes into live objects, with blocks of less than
  \<open>2 ^ 34\<close> bytes and memory left below the break limit, the allocator's own checks (\<open>checkALL\<close>, run at exit) walk all 65 lists and
  none of their asserts is violated.  Larger blocks have a size class that is not an \<open>int\<close>; freeing one fails an assert.
\<close>

theorem histories_pass_checks:
  assumes "reach1 st A"
  shows "checkALL st = Inr ()"
  using reach1_inv [OF assms] by (rule inv1_checkALL)

text \<open>
  C5.  Nothing is lost: after any such history the bytes in the free lists and the bytes of the live
  blocks add up to the bytes obtained from the system, and the final report of \<open>print\<close> says
  \<open>Equal? Y\<close> exactly when no object is live.
\<close>

theorem histories_conserve:
  assumes "reach1 st A"
  shows "\<exists>m r c f s eq. print_stats st = Inr (m, r, c, f, a_heapSize (snd st), s, eq) \<and>
    unat s + (\<Sum>b \<in> A. bsize (p_mem (fst st)) b) = unat (a_heapSize (snd st)) \<and> (eq \<longleftrightarrow> A = {})"
proof -
  have inv: "inv1 st A"
    using reach1_inv [OF assms] .
  obtain s where s: "sumFreeListSize st = Inr s"
    "unat s + (\<Sum>b \<in> A. bsize (p_mem (fst st)) b) = unat (a_heapSize (snd st))"
    using inv1_sum [OF inv] by blast
  have hp: "heap1 (p_mem (fst st)) (a_freels (snd st), a_heapSize (snd st), p_os (fst st)) A"
    using inv by (simp add: inv1_def)
  have "finite A" "blocks_ok (p_mem (fst st)) A"
    using heap_at_finite [OF hp [unfolded heap1_def]] heap_at_blocks [OF hp [unfolded heap1_def]] .
  then have "(\<Sum>b \<in> A. bsize (p_mem (fst st)) b) = 0 \<longleftrightarrow> A = {}"
    using blocks_okD(1) by (fastforce simp: sum_eq_0_iff)
  then have "a_heapSize (snd st) = s \<longleftrightarrow> A = {}"
    using s(2) by (auto simp: word_unat_eq_iff)
  then show ?thesis
    using s by (simp add: print_stats_def case_prod_beta)
qed

section \<open>Reuse, exhaustion and overflow\<close>

lemma insert_small_class:
  assumes "i < 64"
  shows "\<exists>m'. insertFreeBlock q (int i) m freels = Inr (True, m', freels[i := q])"
  using assms by (simp add: insertFreeBlock_def clamp_pos_def Let_def)

text \<open>A request of exactly the size of a class with free blocks takes the first of them.\<close>

lemma malloc_takes_first:
  assumes inv: "inv1 (p, a) A" and i: "i < 64" "a_freels a ! i = 16 + h" and sz: "0 < sz" "unat (total_size sz) = i * 8"
  shows "\<exists>p2 a2. malloc sz (p, a) = Inr (16 + h, p2, a2) \<and> p_os p2 = p_os p \<and> a_heapSize a2 = a_heapSize a"
proof -
  obtain p1 a1 where e: "ensure_initialized (p, a) = (p1, a1)" "p_mem p1 = p_mem p" "p_os p1 = p_os p" "a_freels a1 = a_freels a"
      "a_heapSize a1 = a_heapSize a"
    using inv by (rule ensure_initialized_facts)
  obtain L where L: "arena_ok 8 True (p_mem p) (a_freels a) L" and ok: "blocks_ok (p_mem p) (A \<union> set (concat L))"
    and below: "\<forall>b \<in> A \<union> set (concat L). b + bsize (p_mem p) b \<le> brk (p_os p)"
    using inv by (auto simp: inv1_def heap1_def heap_at_def arena_held_def os_held_def os_hi_def)
  note ao = arena_okD [OF L]
  obtain ys where ys: "L ! i = h # ys"
    using ao(4) [of i] i by (cases "L ! i") auto
  have c: "candidates (bsize (p_mem p)) (unat (total_size sz)) i (L ! i) = h # ys"
    using i(1) by (simp add: candidates_def ys)
  have "i = clamp_pos (int i)"
    using i(1) by (simp add: clamp_pos_def)
  from arena_remove [OF L ok Un_upper2 this of_nat_0_le_iff c] obtain m' freels' where
    rm: "rmFromFreeLs (int i) (total_size sz) (p_mem p) (a_freels a) = Inr (16 + h, m', freels')"
    and fr: "same_on (- nodes_of (set (concat L))) (p_mem p) m'"
    by blast
  have hL: "h \<in> set (concat L)"
    using concat_nth_subset [of i L] i(1) ao(2) ys by auto
  have "bsize m' h = bsize (p_mem p) h" "bsize (p_mem p) h = unat (total_size sz)"
    using bsize_frame [OF ok Un_upper2 fr] hL ao(6) [of i h] i(1) ys sz(2) by (auto simp: class_ok_def)
  then have s: "obj_size m' h = total_size sz" "h + unat (total_size sz) \<le> brk (p_os p)"
    using bspec [OF below, of h] hL by (simp_all add: bsize_def word_unat_eq_iff)
  have q: "to_int (total_size sz div 8) = int i" "(if total_size sz div 8 > 64 then 64 else unat (total_size sz div 8)) = i"
    using class_number [of 8 "total_size sz"] sz(2) i(1) by (auto simp: clamp_pos_def)
  have "allocate_body 8 getMemoryFromOS (total_size sz) (p_mem p) (a_freels a) st = Inr (h, total_size sz, m', freels', st)" for st
    unfolding allocate_body_def Let_def q using i rm s(1) by simp
  moreover have "finish_allocate (p_os p) h (total_size sz) m' = Inr (16 + h, stamp_allocated h (total_size sz) m')"
    using s(2) total_size_aligned(1) [of sz] by (intro finish_allocate_ok) simp_all
  ultimately show ?thesis
    using e sz(1) by (simp add: malloc_def allocateObject_def increaseMallocCalls_def)
qed

text \<open>
  Freed memory comes back: \<open>free\<close> of a live block below 512 bytes followed by a \<open>malloc\<close> of the
  same total size returns the same address, and neither call asks the system for memory.
\<close>

theorem free_then_malloc_reuses:
  assumes inv: "inv1 (p, a) A" "h \<in> A" and sz: "0 < sz" "total_size sz = obj_size (p_mem p) h"
    and small: "bsize (p_mem p) h < 512"
  shows "\<exists>p1 a1 p2 a2. free (16 + h) (p, a) = Inr (p1, a1) \<and> malloc sz (p1, a1) = Inr (16 + h, p2, a2) \<and>
    p_os p2 = p_os p \<and> a_heapSize a2 = a_heapSize a"
proof -
  define n where "n = obj_size (p_mem p) h"
  define i where "i = bsize (p_mem p) h div 8"
  obtain L where L: "arena_ok 8 True (p_mem p) (a_freels a) L"
    using inv1_arena inv(1) by metis
  have rg: "region_ok h (bsize (p_mem p) h)"
    using inv1_blocks [OF inv(1)] inv(2) by (simp add: blocks_ok_def)
  have i: "i < 64" "i < length (a_freels a)"
    using small arena_okD(1) [OF L] by (auto simp: i_def)
  have q: "to_int (n div 8) = int i"
    using class_number [of 8 n] rg i(1) by (auto simp: n_def i_def bsize_def region_ok_def clamp_pos_def)
  obtain m1 where m1: "insertFreeBlock (16 + h) (int i) (clear_flags h (p_mem p)) (a_freels a) =
      Inr (True, m1, (a_freels a)[i := 16 + h])"
    using insert_small_class [OF i(1)] by blast
  define p1 where "p1 = p\<lparr>p_mem := m1\<rparr>"
  define a1 where "a1 = (increaseFreeCalls a)\<lparr>a_freels := (a_freels a)[i := 16 + h]\<rparr>"
  have "free_body 8 (16 + h) (p_mem p) (a_freels a) = Inr (m1, (a_freels a)[i := 16 + h])"
    using rg m1 free_body_eq [of "p_mem p" h 8 "a_freels a"] q(1) by (simp add: region_ok_def n_def)
  then have fr: "freeObject (16 + h) (p, increaseFreeCalls a) = Inr (p1, a1)" "free (16 + h) (p, a) = Inr (p1, a1)"
    by (simp_all add: free_def freeObject_def increaseFreeCalls_def p1_def a1_def)
  have "inv1 (p, increaseFreeCalls a) A"
    using inv(1) by (simp add: inv1_def increaseFreeCalls_def)
  then have "inv1 (p1, a1) (A - {h})"
    using freeObject_correct [OF _ inv(2)] fr(1) by fastforce
  moreover have "a_freels a1 ! i = 16 + h" "unat (total_size sz) = i * 8"
    using i rg sz(2) by (auto simp: a1_def i_def bsize_def region_ok_def)
  ultimately show ?thesis
    using malloc_takes_first [of p1 a1 "A - {h}" i h sz] i(1) sz(1) fr(2)
    by (auto simp: p1_def a1_def increaseFreeCalls_def)
qed

lemma search_larger_empty:
  assumes "i \<le> NUMOFSIZECLASSES"
  shows "search_larger (replicate NUMOFSIZECLASSES NULL) i = NUMOFSIZECLASSES"
  using assms
proof (induction "replicate NUMOFSIZECLASSES NULL" i rule: search_larger.induct)
  case (1 index)
  then show ?case
    by (subst search_larger.simps) auto
qed

lemma allocate_body_empty:
  shows "allocate_body u getmem n m (replicate NUMOFSIZECLASSES NULL) s =
    rbind (getmem n m s) (\<lambda>(mem, t, m, s). Inr (mem, t, m, replicate NUMOFSIZECLASSES NULL, s))"
proof -
  define i where "i = (if n div u > 64 then 64 else unat (n div u))"
  have i: "i \<le> 64"
    by (auto simp: i_def word_less_nat_alt)
  then have "replicate 65 NULL ! i = NULL" "search_larger (replicate 65 NULL) (i + 1) = 65"
    by (simp_all add: search_larger_empty)
  then show ?thesis
    unfolding allocate_body_def Let_def i_def [symmetric] by simp
qed

text \<open>The headers of the blocks on the free lists.\<close>

definition free_blocks :: "state1 \<Rightarrow> addr set" where
  "free_blocks st = {h. \<exists>L. arena_ok 8 True (p_mem (fst st)) (a_freels (snd st)) L \<and> h \<in> set (concat L)}"

text \<open>
  C32.  When no free block is large enough and the break limit is too close, \<open>sbrk\<close> fails.  The code does not check its result: on
  every heap in order, \<open>malloc\<close> stores the header through the failure value \<open>-1\<close>, behind the memory of the process, which is a fault.
\<close>

theorem malloc_out_of_memory:
  assumes "inv1 st A" "0 < sz" "unat (total_size sz) < 2 ^ 34"
    and "\<forall>h \<in> free_blocks st. bsize (p_mem (fst st)) h < unat (total_size sz)"
    and "brk_limit (p_os (fst st)) < brk (p_os (fst st)) + unat (total_size sz)"
  shows "malloc sz st = Inl BadAddress"
proof -
  obtain p a where st: "st = (p, a)"
    by fastforce
  obtain p1 a1 where e: "ensure_initialized (p, a) = (p1, a1)" "p_mem p1 = p_mem p" "p_os p1 = p_os p" "a_freels a1 = a_freels a"
    using ensure_initialized_facts assms(1) unfolding st by metis
  obtain L where L: "arena_ok 8 True (p_mem p) (a_freels a) L"
    using inv1_arena assms(1) unfolding st by metis
  have n: "sint (total_size sz) = int (unat (total_size sz))"
    using assms(3) by (intro sint_small) simp
  have "int (brk (p_os p)) + sint (total_size sz) > int (brk_limit (p_os p))"
    unfolding n using assms(5) unfolding st fst_conv by linarith
  then have sb: "sbrk (sint (total_size sz)) (p_os p) = (SBRK_FAILED, p_os p)"
    by (simp add: sbrk_def Let_def)
  have "\<not> mapped (p_os p) SBRK_FAILED 16"
    using assms(1) by (auto simp: st mapped_def inv1_def heap1_def heap_at_def arena_held_def os_held_def)
  moreover have "allocate_body 8 getMemoryFromOS (total_size sz) (p_mem p) (a_freels a) s =
      rbind (getMemoryFromOS (total_size sz) (p_mem p) s) (\<lambda>(mem, t, m, s). Inr (mem, t, m, a_freels a, s))" for s
    using assms(3,4) L total_size_aligned(2) by (intro allocate_body_no_fit [of _ True _ _ L]) (auto simp: st free_blocks_def)
  ultimately show ?thesis
    using assms(2) sb e
    by (simp add: malloc_def allocateObject_def st getMemoryFromOS_def finish_allocate_def Let_def case_prod_beta)
qed

lemma wrapped_size:
  assumes "2 ^ 64 - 39 \<le> unat sz"
  shows "total_size sz = 48"
proof -
  have "unat (sz + 39) = unat sz + 39 - 2 ^ 64"
    using assms unsigned_less [of sz, where ?'a = nat]
    by (simp add: unat_word_ariths mod_if)
  then have "unat (sz + push_bit 1 16 + 7) < 39"
    using unsigned_less [of sz, where ?'a = nat] by (simp add: add.assoc)
  then have "unat ((sz + push_bit 1 16 + 7) AND (NOT 7)) < 48"
    using unat_and_not_mask [of "sz + push_bit 1 16 + 7" 3] by (simp add: mask_eq_exp_minus_1)
  then show ?thesis
    by (simp add: total_size_def Let_def word_less_nat_alt)
qed

text \<open>
  C20.  A request within 39 bytes of the top of \<open>size_t\<close> wraps around.  On every heap in order with room for 48 bytes, \<open>malloc\<close> then
  does exactly what it does for a request of 16 bytes: it succeeds, and the object it returns is smaller than \<open>2 ^ 34\<close> bytes.
\<close>

theorem malloc_size_overflow:
  assumes "inv1 st A" "2 ^ 64 - 39 \<le> unat sz" "room1 st sz"
  shows "malloc sz st = malloc 16 st \<and>
    (\<exists>ptr st'. malloc sz st = Inr (ptr, st') \<and> inv1 st' (insert (ptr - 16) A) \<and>
      unat (objectSize ptr (p_mem (fst st'))) < 2 ^ 34 \<and> objectSize ptr (p_mem (fst st')) < sz)"
proof -
  obtain p a where st: "st = (p, a)"
    by fastforce
  have ts: "total_size sz = total_size 16"
    using wrapped_size [OF assms(2)] by (simp add: total_size_def Let_def)
  have sz: "0 < sz"
    using assms(2) by (simp add: word_less_nat_alt)
  obtain h t p' a' where al: "allocateObject sz (p, a) = Inr (16 + h, p', a')"
    and r: "inv1 (p', a') (insert h A)" "region_ok h t" "bsize (p_mem p') h = t"
    using allocateObject_correct assms(1,3) unfolding st by metis
  have os: "unat (objectSize (16 + h) (p_mem p')) < 2 ^ 34"
  proof -
    have "32 \<le> obj_size (p_mem p') h"
      using r(2,3) by (simp add: region_ok_def bsize_def word_le_nat_alt)
    then show ?thesis
      using r(2,3) by (auto simp: objectSize_def region_ok_def bsize_def unat_sub)
  qed
  moreover from os have "objectSize (16 + h) (p_mem p') < sz"
    using assms(2) by (simp add: word_less_nat_alt)
  moreover have "inv1 (p', increaseMallocCalls a') (insert h A)"
    using r(1) by (simp add: inv1_def increaseMallocCalls_def)
  moreover have "malloc sz st = malloc 16 st"
    using sz by (simp add: malloc_def allocateObject_def ts)
  ultimately show ?thesis
    using sz al by (intro conjI exI [of _ "16 + h"] exI [of _ "(p', increaseMallocCalls a')"]) (simp_all add: malloc_def st)
qed

text \<open>
  The bound of \<open>2 ^ 34\<close> bytes on blocks is that of the code: from there on the number of the size class is not an \<open>int\<close>, and the assertion
  around the insertion into the free lists fails.
\<close>

lemma huge_block_not_freed:
  assumes "2 ^ 34 \<le> bsize m h" "bsize m h < 2 ^ 35"
  shows "free_body 8 (16 + h) m freels = Inl AssertFail"
proof -
  have q: "unat (obj_size m h div 8) = bsize m h div 8"
    by (simp add: unat_div_word bsize_def)
  define k where "k = bsize m h div 8"
  have k: "2 ^ 31 \<le> k" "k < 2 ^ 32"
    using assms by (simp_all add: k_def)
  have "uint (ucast (obj_size m h div 8) :: int32) = int k"
    using k q unfolding k_def [symmetric] by (simp add: unsigned_ucast_eq take_bit_eq_mod uint_nat del: of_nat_unat)
  moreover have "int k div 2 ^ 31 = 1"
    using k by (intro int_div_pos_eq [of _ _ _ "int k - 2 ^ 31"]) simp_all
  then have "bit (int k) 31"
    by (simp add: bit_iff_odd)
  ultimately have "to_int (obj_size m h div 8) < 0"
    by (simp add: to_int_def sint_uint signed_take_bit_eq_if_negative)
  then show ?thesis
    using assms free_body_eq [of m h 8 freels] by (simp add: insertFreeBlock_def)
qed

section \<open>A concrete heap\<close>

text \<open>A process with its break at 4096, before and after a first \<open>malloc(100)\<close>.\<close>

definition demo_process :: process where
  "demo_process = \<lparr>p_mem = (\<lambda>_. 0), p_os = \<lparr>brk_start = 4096, brk = 4096, brk_limit = 2 ^ 30\<rparr>,
     p_verbose_env = None, p_atexit = 0\<rparr>"

definition demo_state :: state1 where
  "demo_state =
     (\<lparr>p_mem = stamp ObjAllocated 4096 136 (\<lambda>_. 0),
       p_os = \<lparr>brk_start = 4096, brk = 4232, brk_limit = 2 ^ 30\<rparr>, p_verbose_env = None, p_atexit = 1\<rparr>,
      \<lparr>a_freels = replicate NUMOFSIZECLASSES NULL, a_heapSize = 136, a_initialized = 1, a_verbose = 1,
       a_mallocCalls = 1, a_freeCalls = 0, a_reallocCalls = 0, a_callocCalls = 0\<rparr>)"

lemma booted_demo: "booted demo_process"
  by (simp add: booted_def demo_process_def)

lemma demo_total_size: "total_size 100 = 136"
  by (simp add: total_size_def Let_def)

lemma demo_malloc: "malloc 100 (demo_process, TheAllocator) = Inr (4112, demo_state)"
proof -
  have "getMemoryFromOS 136 (p_mem demo_process) (0, p_os demo_process) =
      Inr (4096, 136, p_mem demo_process, 136, (p_os demo_process)\<lparr>brk := 4232\<rparr>)"
    using getMemoryFromOS_room [of "p_mem demo_process" "(0, p_os demo_process)" "{}" 0 136]
    by (simp add: os_held_def os_room_def demo_process_def)
  then show ?thesis
    by (simp add: malloc_def allocateObject_def ensure_initialized_def initialize_def TheAllocator_def
        allocate_body_empty demo_total_size finish_allocate_def mapped_def Let_def stamp_allocated_eq demo_state_def
        demo_process_def increaseMallocCalls_def)
qed

lemma room1_demo: "room1 (demo_process, TheAllocator) 100" "room1 demo_state 100" "room1 demo_state 24"
  by (simp_all add: room1_def demo_total_size os_room_def demo_process_def TheAllocator_def demo_state_def
      total_size_def Let_def)

lemma reach1_demo: "reach1 demo_state {4096}"
  using reach1.do_malloc [OF reach1.start [OF booted_demo] room1_demo(1) demo_malloc] by simp

lemma inv1_demo: "inv1 demo_state {4096}"
  using reach1_demo by (rule reach1_inv)

lemma demo_size: "load64 (p_mem (fst demo_state)) 4104 = 136" "bsize (p_mem (fst demo_state)) 4096 = 136"
  using stamp_facts(1) [of 136 ObjAllocated 4096 "\<lambda>_. 0"]
  by (simp_all add: demo_state_def bsize_def word_unat_eq_iff)

section \<open>The properties on the concrete heap\<close>

theorem malloc_correct_witness:
  "\<exists>ptr st'. malloc 24 demo_state = Inr (ptr, st') \<and> inv1 st' {ptr - 16, 4096} \<and> ptr - 16 \<noteq> 4096 \<and>
     24 \<le> objectSize ptr (p_mem (fst st'))"
  using malloc_correct [OF inv1_demo _ _ room1_demo(3)] by auto

theorem free_correct_witness: "\<exists>st'. free 4112 demo_state = Inr st' \<and> inv1 st' {}"
  using free_correct [OF inv1_demo, of 4096] by auto

theorem realloc_correct_witness:
  "\<exists>newptr st'. realloc 4112 100 demo_state = Inr (newptr, st') \<and> inv1 st' {newptr - 16} \<and>
     100 \<le> objectSize newptr (p_mem (fst st'))"
  using realloc_correct [OF inv1_demo, of 4096 100] room1_demo(2) by auto

theorem histories_pass_checks_witness: "checkALL demo_state = Inr ()"
  using histories_pass_checks [OF reach1_demo] .

theorem histories_conserve_witness:
  "\<exists>m r c f s. print_stats demo_state = Inr (m, r, c, f, 136, s, False) \<and> unat s = 0"
  using histories_conserve [OF reach1_demo] by (auto simp: demo_size) (auto simp: demo_state_def)

theorem free_then_malloc_reuses_witness:
  "\<exists>p1 a1 p2 a2. free 4112 demo_state = Inr (p1, a1) \<and> malloc 100 (p1, a1) = Inr (4112, p2, a2)"
proof -
  have "inv1 (fst demo_state, snd demo_state) {4096}"
    using inv1_demo by simp
  from free_then_malloc_reuses [OF this, of 4096 100] show ?thesis
    by (auto simp: demo_size demo_total_size)
qed

text \<open>A heap with a live object and without free blocks.\<close>

lemma demo_no_free_block: "free_blocks demo_state = {}"
proof -
  have "L ! i = []" if "arena_ok 8 True (p_mem (fst demo_state)) (a_freels (snd demo_state)) L" "i < 65" for L i
    using arena_okD(4) [OF that] that(2) by (cases "L ! i") (auto simp: demo_state_def)
  then show ?thesis
    by (fastforce simp: free_blocks_def in_set_conv_nth dest: arena_okD(2))
qed

theorem malloc_out_of_memory_witness: "malloc (2 ^ 31) demo_state = Inl BadAddress"
proof -
  have "total_size (2 ^ 31) = 2 ^ 31 + 32"
    by (simp add: total_size_def Let_def)
  then show ?thesis
    using malloc_out_of_memory [OF inv1_demo, of "2 ^ 31"] demo_no_free_block by (simp add: demo_state_def)
qed

theorem malloc_size_overflow_witness:
  "\<exists>ptr st'. malloc 18446744073709551615 demo_state = Inr (ptr, st') \<and> malloc 16 demo_state = Inr (ptr, st') \<and>
     objectSize ptr (p_mem (fst st')) < 18446744073709551615"
proof -
  have "room1 demo_state 18446744073709551615"
    using wrapped_size [of 18446744073709551615] by (simp add: room1_def os_room_def demo_state_def)
  then show ?thesis
    using malloc_size_overflow [OF inv1_demo, of 18446744073709551615] by (simp, metis)
qed

end
