(* ===== verification/Two_Layer_Correct.thy ===== *)
theory Two_Layer_Correct
  imports Two_Layer One_Layer_Correct
begin

text \<open>
  Correctness of the two-layer allocator.  The central heap is an arena over the operating system
  and, with its headers stamped, a source of memory itself; a thread cache is an arena over the
  central heap.  Both facts are interpretations of the contracts, and the theorems about the C
  interface follow for every assignment of threads to caches.
\<close>

section \<open>The central heap as an arena and as a source\<close>

lemma ch_getMemoryFromOS_eq: "ch_getMemoryFromOS = getMemoryFromOS"
  by (simp add: fun_eq_iff ch_getMemoryFromOS_def getMemoryFromOS_def)

interpretation ch: arena_over ch_getMemoryFromOS os_held os_room os_hi BASICALLOCSIZE False
  unfolding ch_getMemoryFromOS_eq by unfold_locales simp_all

lemma ch_total_size_eq:
  assumes "unat sz < 2 ^ 33"
  shows "unat (ch_total_size sz) = (unat sz + 4127) div 4096 * 4096"
proof -
  have "unat (sz + push_bit 1 16 + BASICALLOCSIZE - 1) = unat sz + 4127"
    using assms by (simp add: unat_simps)
  moreover have "BASICALLOCSIZE - 1 = mask 12"
    by (simp add: mask_eq_exp_minus_1)
  ultimately have e: "unat ((sz + push_bit 1 16 + BASICALLOCSIZE - 1) AND (NOT (BASICALLOCSIZE - 1))) =
      (unat sz + 4127) div 4096 * 4096"
    using unat_and_not_mask [of "sz + push_bit 1 16 + BASICALLOCSIZE - 1" 12] by simp
  have "1 \<le> (unat sz + 4127) div 4096"
    by (simp add: div_greater_zero_iff Suc_leI)
  then have "4096 \<le> (unat sz + 4127) div 4096 * 4096"
    by simp
  then show ?thesis
    using e by (simp add: ch_total_size_def Let_def word_less_nat_alt)
qed

lemma ch_total_size_facts:
  assumes "unat sz < 2 ^ 33"
  shows "48 \<le> unat (ch_total_size sz)" "4096 dvd unat (ch_total_size sz)" "unat (ch_total_size sz) < 2 ^ 34"
    "unat sz + 32 \<le> unat (ch_total_size sz)"
proof -
  have d: "unat sz + 4127 < (unat sz + 4127) div 4096 * 4096 + 4096"
    using div_mult_mod_eq [of "unat sz + 4127" 4096] mod_less_divisor [of 4096 "unat sz + 4127"] by linarith
  show "4096 dvd unat (ch_total_size sz)"
    using ch_total_size_eq [OF assms] by simp
  show "unat (ch_total_size sz) < 2 ^ 34" "unat sz + 32 \<le> unat (ch_total_size sz)"
    using ch_total_size_eq [OF assms] d assms div_times_less_eq_dividend [of "unat sz + 4127" 4096] by auto
  show "48 \<le> unat (ch_total_size sz)"
    by (simp add: ch_total_size_def Let_def word_less_nat_alt)
qed

definition heap2 :: "mem \<Rightarrow> addr list \<times> size_t \<times> os \<Rightarrow> addr set \<Rightarrow> bool" where
  "heap2 = heap_at (arena_held (unat BASICALLOCSIZE) False os_held) (\<lambda>st. os_hi (snd st))"

definition cstate :: "state2 \<Rightarrow> addr list \<times> size_t \<times> os" where
  "cstate st = (c_freels (snd st), c_heapSize (snd st), p_os (fst st))"

definition croom :: "state2 \<Rightarrow> size_t \<Rightarrow> bool" where
  "croom st sz \<longleftrightarrow> unat sz < 2 ^ 33 \<and> os_room (c_heapSize (snd st), p_os (fst st)) (unat (ch_total_size sz))"

text \<open>What \<open>ch_allocateObject\<close> does, in terms of the arena.\<close>

lemma ch_allocateObject_eq:
  assumes "0 < unat sz" "unat sz < 2 ^ 33"
    and "arena_get BASICALLOCSIZE ch_getMemoryFromOS (ch_total_size sz) (p_mem p) (cstate (p, c)) =
      Inr (h, t, m', freels', hs', w')" and "region_ok h (unat t)" and "h + unat t \<le> brk w'"
  shows "ch_allocateObject sz (p, c) =
    Inr (16 + h, p\<lparr>p_os := w', p_mem := stamp ObjAllocated h t m'\<rparr>, c\<lparr>c_freels := freels', c_heapSize := hs'\<rparr>)"
proof -
  have "ch_total_size sz mod BASICALLOCSIZE = 0"
    using ch_total_size_facts(2) [OF assms(2)] by (simp add: word_unat_eq_iff unat_mod)
  moreover have "finish_allocate w' h t m' = Inr (16 + h, stamp ObjAllocated h t m')"
    using assms(4,5) by (simp add: finish_allocate_ok region_ok_def stamp_allocated_eq)
  moreover have "sz \<noteq> 0"
    using assms(1) by auto
  ultimately show ?thesis
    using assms(3) unfolding ch_allocateObject_def
    by (simp add: arena_get_def cstate_def)
qed

section \<open>The central heap seen from a cache\<close>

definition cent_held :: "mem \<Rightarrow> bool \<times> state2 \<Rightarrow> addr set \<Rightarrow> nat \<Rightarrow> bool" where
  "cent_held m s F k \<longleftrightarrow> fst s \<and> arena_held (unat BASICALLOCSIZE) False os_held m (cstate (snd s)) F k"

definition cent_room :: "bool \<times> state2 \<Rightarrow> nat \<Rightarrow> bool" where
  "cent_room s n \<longleftrightarrow> n < 2 ^ 33 \<and> croom (snd s) (of_nat n)"

definition cent_hi :: "bool \<times> state2 \<Rightarrow> nat" where
  "cent_hi s = brk (p_os (fst (snd s)))"

interpretation cent: mem_source getMemoryFromCentHeap cent_held cent_room cent_hi
proof unfold_locales
  fix m m' s F k
  assume "cent_held m s F k" "blocks_ok m F" "\<And>b. b \<in> F \<Longrightarrow> same_on (block m b) m m'"
  then show "cent_held m' s F k"
    using ch.arena.held_same unfolding cent_held_def by blast
next
  fix m s F k B and n :: size_t
  assume hd: "cent_held m s F k" and ok: "blocks_ok m B" "F \<subseteq> B"
    and below: "\<And>b. b \<in> B \<Longrightarrow> b + bsize m b \<le> cent_hi s" and n: "48 \<le> unat n" "cent_room s (unat n)"
  obtain p c where s: "s = (True, p, c)"
    using hd by (cases s) (auto simp: cent_held_def)
  have sz: "unat n < 2 ^ 33" and rm: "croom (p, c) n"
    using n by (simp_all add: cent_room_def s)
  note ts = ch_total_size_facts [OF sz]
  have "arena_room BASICALLOCSIZE os_room (cstate (p, c)) (unat (ch_total_size n))"
    using rm ts by (simp add: croom_def arena_room_def cstate_def)
  moreover have "8 dvd unat (ch_total_size n)"
    using ts(2) by (rule dvd_trans [rotated]) simp
  moreover have "arena_held (unat BASICALLOCSIZE) False os_held m (cstate (p, c)) F k"
    using hd by (simp add: cent_held_def s)
  moreover have "b + bsize m b \<le> os_hi (snd (cstate (p, c)))" if "b \<in> B" for b
    using below [OF that] by (simp add: cent_hi_def s os_hi_def cstate_def)
  ultimately obtain h t m1 s1 F' where
    gm: "arena_get BASICALLOCSIZE ch_getMemoryFromOS (ch_total_size n) m (cstate (p, c)) = Inr (h, t, m1, s1)"
    and hd': "arena_held (unat BASICALLOCSIZE) False os_held m1 s1 F' (k + unat t)"
    and sv: "served B F (os_hi (snd s1)) m m1 F' h (unat t) (unat (ch_total_size n))"
    using ch.arena.getmem_served [OF _ ok _ ts(1)] by blast
  obtain freels' hs' w' where s1: "s1 = (freels', hs', w')"
    by (metis prod_cases3)
  define m' where "m' = stamp ObjAllocated h t m1"
  define s' where "s' = (True, p\<lparr>p_mem := m', p_os := w'\<rparr>, c\<lparr>c_freels := freels', c_heapSize := hs'\<rparr>)"
  have rg: "region_ok h (unat t)" and le: "unat n \<le> unat t"
    using sv ts(4) by (auto simp: served_def spot_def)
  then have t: "48 \<le> unat t"
    by (simp add: region_ok_def)
  have okF: "blocks_ok m (B - F)"
    using ok(1) by (rule blocks_ok_mono) blast
  have "ch_allocateObject n (p\<lparr>p_mem := m\<rparr>, c) = Inr (16 + h, snd s')"
    using ch_allocateObject_eq [of n "p\<lparr>p_mem := m\<rparr>" c h t m1 freels' hs' w'] n(1) sz gm rg sv
    by (simp add: s1 cstate_def m'_def s'_def served_def os_hi_def)
  moreover have "obj_size m' h = t"
    using stamp_facts(1) [OF t, of ObjAllocated h m1] by (simp add: m'_def bsize_def word_unat_eq_iff)
  moreover have "(if n < t then t else n) = t"
    using le by (auto simp: word_less_nat_alt word_unat_eq_iff)
  ultimately have "getMemoryFromCentHeap n m s = Inr (h, t, m', s')"
    by (auto simp: getMemoryFromCentHeap_def s s'_def split: if_splits)
  moreover have "cent_held m' s' F' (k + unat t)"
    using ch.arena.held_stamp [OF hd' sv okF] by (simp add: cent_held_def m'_def s'_def cstate_def s1)
  moreover have "served B F (cent_hi s') m m' F' h (unat t) (unat n)"
    using served_stamp(1) [OF sv okF, of ObjAllocated] ts(4)
    by (simp add: served_def m'_def s'_def s1 cent_hi_def os_hi_def)
  ultimately show "\<exists>h t m' s' F'. getMemoryFromCentHeap n m s = Inr (h, t, m', s') \<and>
      cent_held m' s' F' (k + unat t) \<and> served B F (cent_hi s') m m' F' h (unat t) (unat n)"
    by blast
qed

interpretation tc: arena_over getMemoryFromCentHeap cent_held cent_room cent_hi 8 True
  by unfold_locales simp_all

section \<open>The invariant of both layers\<close>

definition cached :: "addr list list list \<Rightarrow> addr set" where
  "cached Ls = (\<Union>i < NUMOFTHREADCACHES. set (concat (Ls ! i)))"

definition others :: "nat \<Rightarrow> addr list list list \<Rightarrow> addr set" where
  "others i Ls = (\<Union>j \<in> {..<NUMOFTHREADCACHES} - {i}. set (concat (Ls ! j)))"

definition caches_ok :: "mem \<Rightarrow> thread_cache list \<Rightarrow> addr list list list \<Rightarrow> bool" where
  "caches_ok m ts Ls \<longleftrightarrow>
     length ts = NUMOFTHREADCACHES \<and> length Ls = NUMOFTHREADCACHES \<and>
     (\<forall>i < NUMOFTHREADCACHES. arena_ok 8 True m (t_freels (ts ! i)) (Ls ! i) \<and>
        (t_initialized (ts ! i) = 0 \<longrightarrow> t_freels (ts ! i) = replicate NUMOFSIZECLASSES NULL)) \<and>
     (\<forall>i < NUMOFTHREADCACHES. \<forall>j < NUMOFTHREADCACHES. i \<noteq> j \<longrightarrow>
        set (concat (Ls ! i)) \<inter> set (concat (Ls ! j)) = {})"

text \<open>
  \<open>inv2 st A\<close>: the central lists and all caches are in order, their blocks and the live objects \<open>A\<close>
  are all there is, and once the heap is initialised every cache knows it.
\<close>

definition inv2 :: "state2 \<Rightarrow> addr set \<Rightarrow> bool" where
  "inv2 st A \<longleftrightarrow>
     (\<exists>Ls. caches_ok (p_mem (fst st)) (c_thr_caches (snd st)) Ls \<and> A \<inter> cached Ls = {} \<and>
           heap2 (p_mem (fst st)) (cstate st) (A \<union> cached Ls)) \<and>
     (\<forall>b \<in> A. live_block (p_mem (fst st)) b) \<and>
     (if c_initialized (snd st) = 0
      then A = {} \<and> c_freels (snd st) = replicate NUMOFSIZECLASSES NULL \<and> c_heapSize (snd st) = 0
      else \<forall>t \<in> set (c_thr_caches (snd st)). t_cent_heap t)"

lemma inv2_counters [simp]:
  "inv2 (p, ch_increaseMallocCalls c) A = inv2 (p, c) A"
  "inv2 (p, ch_increaseReallocCalls c) A = inv2 (p, c) A"
  "inv2 (p, ch_increaseFreeCalls c) A = inv2 (p, c) A"
  by (simp_all add: inv2_def cstate_def ch_increaseMallocCalls_def ch_increaseReallocCalls_def
      ch_increaseFreeCalls_def cong: if_cong)

lemma cached_split:
  assumes "i < NUMOFTHREADCACHES"
  shows "cached Ls = others i Ls \<union> set (concat (Ls ! i))"
  using assms by (auto simp: cached_def others_def)

lemma others_update [simp]: "others i (Ls[i := L]) = others i Ls"
  by (auto simp: others_def)

lemma heap2_cent:
  "heap_at cent_held cent_hi m (True, st) X \<longleftrightarrow> heap2 m (cstate st) X"
  by (simp add: heap_at_def heap2_def cent_held_def cent_hi_def os_hi_def cstate_def)

lemma caches_okD:
  assumes "caches_ok m ts Ls" "i < NUMOFTHREADCACHES"
  shows "arena_ok 8 True m (t_freels (ts ! i)) (Ls ! i)" "set (concat (Ls ! i)) \<inter> others i Ls = {}"
    "t_initialized (ts ! i) = 0 \<Longrightarrow> t_freels (ts ! i) = replicate NUMOFSIZECLASSES NULL"
    "length ts = NUMOFTHREADCACHES" "length Ls = NUMOFTHREADCACHES"
proof -
  show "set (concat (Ls ! i)) \<inter> others i Ls = {}"
    using assms unfolding caches_ok_def others_def by blast
qed (use assms in \<open>auto simp: caches_ok_def\<close>)

abbreviation cache_heap :: "mem \<Rightarrow> addr list \<times> bool \<times> state2 \<Rightarrow> addr set \<Rightarrow> bool" where
  "cache_heap \<equiv> heap_at (arena_held (unat (8 :: size_t)) True cent_held) (\<lambda>s. cent_hi (snd s))"

text \<open>One cache as an arena over the central heap; the blocks of the others belong to its clients.\<close>

lemma focus_cache:
  assumes ok: "caches_ok m ts Ls" and i: "i < NUMOFTHREADCACHES" and dj: "A \<inter> cached Ls = {}"
    and hp: "heap2 m (cstate st) (A \<union> cached Ls)"
  shows "cache_heap m (t_freels (ts ! i), True, st) (A \<union> others i Ls)"
proof -
  have "A \<union> cached Ls - set (concat (Ls ! i)) = A \<union> others i Ls"
    using dj caches_okD(2) [OF ok i] unfolding cached_split [OF i] by blast
  moreover have "cache_heap m (t_freels (ts ! i), True, st) (A \<union> cached Ls - set (concat (Ls ! i)))"
  proof (rule heap_at_down)
    show "heap_at cent_held cent_hi m (True, st) (A \<union> cached Ls)"
      using hp by (simp add: heap2_cent)
    show "arena_ok (unat (8 :: size_t)) True m (t_freels (ts ! i)) (Ls ! i)"
      using caches_okD(1) [OF ok i] by simp
    show "set (concat (Ls ! i)) \<subseteq> A \<union> cached Ls"
      using cached_split [OF i] by blast
  qed
  ultimately show ?thesis by simp
qed

lemma unfocus_cache:
  assumes ok: "caches_ok m ts Ls" and i: "i < NUMOFTHREADCACHES" and bo: "blocks_ok m (others i Ls)"
    and hp: "cache_heap m' (t_freels t', True, st') (A' \<union> others i Ls)" and dj: "A' \<inter> others i Ls = {}"
    and ini: "t_initialized t' \<noteq> 0"
    and same: "\<And>b. b \<in> others i Ls \<Longrightarrow> same_on (block m b) m m'"
  obtains Ls' where "caches_ok m' (ts[i := t']) Ls'" and "A' \<inter> cached Ls' = {}"
    and "heap2 m' (cstate st') (A' \<union> cached Ls')"
proof -
  obtain L where L: "arena_ok 8 True m' (t_freels t') L" and dL: "set (concat L) \<inter> (A' \<union> others i Ls) = {}"
    and hp': "heap2 m' (cstate st') (A' \<union> others i Ls \<union> set (concat L))"
    using heap_at_up [OF hp] unfolding heap2_cent by auto
  define Ls' where "Ls' = Ls[i := L]"
  note d = caches_okD(4,5) [OF ok i]
  have Ls'i: "Ls' ! i = L" "others i Ls' = others i Ls"
    using i d by (simp_all add: Ls'_def)
  have c': "cached Ls' = others i Ls \<union> set (concat L)"
    using cached_split [OF i, of Ls'] Ls'i by simp
  have "arena_ok 8 True m' (t_freels (ts[i := t'] ! j)) (Ls' ! j) \<and>
      (t_initialized (ts[i := t'] ! j) = 0 \<longrightarrow> t_freels (ts[i := t'] ! j) = replicate NUMOFSIZECLASSES NULL)"
    if j: "j < NUMOFTHREADCACHES" for j
  proof (cases "j = i")
    case True
    then show ?thesis
      using L ini i d by (simp add: Ls'_def)
  next
    case False
    have sub: "set (concat (Ls ! j)) \<subseteq> others i Ls"
      using False j by (auto simp: others_def)
    have "arena_ok 8 True m' (t_freels (ts ! j)) (Ls ! j)"
      using arena_ok_same [OF caches_okD(1) [OF ok j] bo sub same [OF subsetD [OF sub]]] .
    then show ?thesis
      using False caches_okD(3) [OF ok j] by (simp add: Ls'_def)
  qed
  moreover have "set (concat (Ls' ! j)) \<inter> set (concat (Ls' ! k)) = {}"
    if jk: "j < NUMOFTHREADCACHES" "k < NUMOFTHREADCACHES" "j \<noteq> k" for j k
  proof -
    have sub: "set (concat (Ls ! x)) \<subseteq> others i Ls" if "x < NUMOFTHREADCACHES" "x \<noteq> i" for x
      using that unfolding others_def by blast
    have nth: "Ls' ! x = (if x = i then L else Ls ! x)" for x
      using i d by (simp add: Ls'_def nth_list_update)
    consider "j = i" "k \<noteq> i" | "k = i" "j \<noteq> i" | "j \<noteq> i" "k \<noteq> i"
      using jk(3) by blast
    then show ?thesis
    proof cases
      case 3
      then have "Ls' ! j = Ls ! j" "Ls' ! k = Ls ! k"
        by (simp_all add: nth)
      then show ?thesis
        using ok jk unfolding caches_ok_def by metis
    next
      case 1
      then have "Ls' ! j = L" "Ls' ! k = Ls ! k"
        by (simp_all add: nth)
      then show ?thesis
        using sub [OF jk(2) 1(2)] dL by (simp only:) blast
    next
      case 2
      then have "Ls' ! k = L" "Ls' ! j = Ls ! j"
        by (simp_all add: nth)
      then show ?thesis
        using sub [OF jk(1) 2(2)] dL by (simp only:) blast
    qed
  qed
  ultimately have "caches_ok m' (ts[i := t']) Ls'"
    using d by (simp add: caches_ok_def Ls'_def)
  then show ?thesis
    using that [of Ls'] hp' dL dj unfolding c' by (auto simp: Un_assoc)
qed

section \<open>Allocation\<close>

text \<open>What a successful allocation achieves, on either layer.\<close>

definition allocated2 :: "state2 \<Rightarrow> addr set \<Rightarrow> size_t \<Rightarrow> addr \<Rightarrow> state2 \<Rightarrow> bool" where
  "allocated2 st A sz h st' \<longleftrightarrow>
     inv2 st' (insert h A) \<and> h \<notin> A \<and>
     region_ok h (bsize (p_mem (fst st')) h) \<and> unat sz + 32 \<le> bsize (p_mem (fst st')) h \<and>
     (\<forall>b \<in> A. same_on (block (p_mem (fst st)) b) (p_mem (fst st)) (p_mem (fst st')) \<and>
              block (p_mem (fst st)) b \<inter> block (p_mem (fst st')) h = {})"

lemma inv2E:
  assumes "inv2 (p, c) A" "c_initialized c \<noteq> 0"
  obtains Ls where "caches_ok (p_mem p) (c_thr_caches c) Ls" "A \<inter> cached Ls = {}"
    "heap2 (p_mem p) (cstate (p, c)) (A \<union> cached Ls)" "\<forall>b \<in> A. live_block (p_mem p) b"
    "\<forall>t \<in> set (c_thr_caches c). t_cent_heap t"
  using assms by (auto simp: inv2_def)

lemma caches_ok_same:
  assumes ok: "caches_ok m ts Ls" and bo: "blocks_ok m (cached Ls)"
    and same: "\<And>b. b \<in> cached Ls \<Longrightarrow> same_on (block m b) m m'"
  shows "caches_ok m' ts Ls"
proof -
  have "arena_ok 8 True m' (t_freels (ts ! i)) (Ls ! i)" if i: "i < NUMOFTHREADCACHES" for i
  proof -
    have sub: "set (concat (Ls ! i)) \<subseteq> cached Ls"
      using cached_split [OF i] by blast
    show ?thesis
      using arena_ok_same [OF caches_okD(1) [OF ok i] bo sub same [OF subsetD [OF sub]]] .
  qed
  then show ?thesis
    using ok by (simp add: caches_ok_def)
qed

lemma central_allocate:
  assumes inv: "inv2 (p, c) A" "c_initialized c \<noteq> 0" and sz: "0 < unat sz" and rm: "croom (p, c) sz"
  shows "\<exists>h st'. ch_allocateObject sz (p, c) = Inr (16 + h, st') \<and> allocated2 (p, c) A sz h st'"
proof -
  obtain Ls where ok: "caches_ok (p_mem p) (c_thr_caches c) Ls" and dj: "A \<inter> cached Ls = {}"
    and hp: "heap2 (p_mem p) (cstate (p, c)) (A \<union> cached Ls)" and lv: "\<forall>b \<in> A. live_block (p_mem p) b"
    and ch: "\<forall>t \<in> set (c_thr_caches c). t_cent_heap t"
    using inv by (rule inv2E)
  have sz': "unat sz < 2 ^ 33"
    using rm by (simp add: croom_def)
  note ts = ch_total_size_facts [OF sz']
  have ar: "arena_room BASICALLOCSIZE os_room (cstate (p, c)) (unat (ch_total_size sz))"
    using rm ts by (simp add: croom_def arena_room_def cstate_def)
  have d8: "8 dvd unat (ch_total_size sz)"
    using ts(2) by (rule dvd_trans [rotated]) simp
  obtain h t m1 s1 where gm: "arena_get BASICALLOCSIZE ch_getMemoryFromOS (ch_total_size sz) (p_mem p) (cstate (p, c)) =
      Inr (h, t, m1, s1)"
    and hp': "heap2 (stamp ObjAllocated h t m1) s1 (insert h (A \<union> cached Ls))" and h: "h \<notin> A \<union> cached Ls"
      "unat (ch_total_size sz) \<le> unat t" "region_ok h (unat t)" "live_block (stamp ObjAllocated h t m1) h"
      "bsize (stamp ObjAllocated h t m1) h = unat t"
    and fr: "\<And>b. b \<in> A \<union> cached Ls \<Longrightarrow> same_on (block (p_mem p) b) (p_mem p) (stamp ObjAllocated h t m1)"
      "\<And>b. b \<in> A \<union> cached Ls \<Longrightarrow> block (p_mem p) b \<inter> {h..<h + unat t} = {}"
    using ch.arena.heap_getmem [OF hp [unfolded heap2_def] ts(1) d8 ar] unfolding heap2_def by metis
  obtain freels' hs' w' where s1: "s1 = (freels', hs', w')"
    by (metis prod_cases3)
  define m' where "m' = stamp ObjAllocated h t m1"
  define st' where "st' = (p\<lparr>p_os := w', p_mem := m'\<rparr>, c\<lparr>c_freels := freels', c_heapSize := hs'\<rparr>)"
  have "ch_allocateObject sz (p, c) = Inr (16 + h, st')"
    using ch_allocateObject_eq [OF sz sz' gm [unfolded s1] h(3)] heap_at_below [OF hp' [unfolded heap2_def], of h] h(5)
    by (simp add: st'_def m'_def s1 os_hi_def)
  moreover have "allocated2 (p, c) A sz h st'"
  proof -
    have bo: "blocks_ok (p_mem p) (A \<union> cached Ls)"
      using heap_at_blocks [OF hp [unfolded heap2_def]] .
    have "caches_ok m' (c_thr_caches c) Ls"
      unfolding m'_def by (rule caches_ok_same [OF ok blocks_ok_mono [OF bo]]) (auto intro: fr)
    moreover have "\<forall>b \<in> A. live_block m' b"
      unfolding m'_def by (rule live_kept [OF blocks_ok_mono [OF bo] lv]) (auto intro: fr)
    ultimately have "inv2 st' (insert h A)"
      using hp' h(1,4) dj ch inv(2) unfolding inv2_def st'_def s1 m'_def by (auto simp: cstate_def)
    then show ?thesis
      using h fr ts(4) by (simp add: allocated2_def st'_def m'_def block_def)
  qed
  ultimately show ?thesis by blast
qed

text \<open>An allocation changes the central heap's lists and size only.\<close>

lemma allocate_body_source:
  assumes "allocate_body u g n m f s = Inr (h, t, m', f', s')"
  shows "s' = s \<or> (\<exists>h t m'. g n m s = Inr (h, t, m', s')) \<or> (\<exists>m1 h t m'. g n m1 s = Inr (h, t, m', s'))"
  using assms unfolding allocate_body_def Let_def
  by (auto simp: rbind_Inr_iff split: if_splits prod.splits)

lemma ch_allocateObject_frame:
  assumes "ch_allocateObject n (p, c) = Inr (ptr, p', c')"
  shows "c_thr_caches c' = c_thr_caches c \<and> c_initialized c' = c_initialized c"
proof (cases "n = 0 \<or> ch_total_size n mod BASICALLOCSIZE \<noteq> 0")
  case True
  then show ?thesis
    using assms by (auto simp: ch_allocateObject_def split: if_splits)
next
  case False
  then obtain h t m1 freels' hs' w' m2 where
    "Inr (ptr, p', c') = Inr (ptr, p\<lparr>p_os := w', p_mem := m2\<rparr>, c\<lparr>c_freels := freels', c_heapSize := hs'\<rparr>)"
    using assms unfolding ch_allocateObject_def Let_def by (auto simp: rbind_Inr_iff)
  then show ?thesis
    by simp
qed

lemma getMemoryFromCentHeap_frame:
  assumes "getMemoryFromCentHeap n m (b, p, c) = Inr (h, t, m', b', p', c')"
  shows "b' = b \<and> c_thr_caches c' = c_thr_caches c \<and> c_initialized c' = c_initialized c"
proof (cases b)
  case True
  then obtain ptr where "ch_allocateObject n (p\<lparr>p_mem := m\<rparr>, c) = Inr (ptr, p', c')" "b'"
    using assms unfolding getMemoryFromCentHeap_def Let_def by (auto simp: rbind_Inr_iff)
  then show ?thesis
    using ch_allocateObject_frame True by blast
qed (use assms in \<open>simp add: getMemoryFromCentHeap_def\<close>)

lemma cache_body_frame:
  assumes "allocate_body u getMemoryFromCentHeap n m f (b, p, c) = Inr (h, t, m', f', b', p', c')"
  shows "b' = b \<and> c_thr_caches c' = c_thr_caches c \<and> c_initialized c' = c_initialized c"
  using allocate_body_source [OF assms] getMemoryFromCentHeap_frame by blast

lemma tc_ensure_initialized_facts:
  assumes "t_initialized t = 0 \<Longrightarrow> t_freels t = replicate NUMOFSIZECLASSES NULL"
  obtains t' where "tc_ensure_initialized (t, st) = (t', st)" "t_freels t' = t_freels t"
    "t_cent_heap t' = t_cent_heap t" "t_initialized t' \<noteq> 0"
proof -
  obtain t' st' where e: "tc_ensure_initialized (t, st) = (t', st')"
    by (metis surj_pair)
  moreover from e have "st' = st" "t_freels t' = t_freels t" "t_cent_heap t' = t_cent_heap t" "t_initialized t' \<noteq> 0"
    using assms by (cases st; auto simp: tc_ensure_initialized_def tc_initialize_def Let_def split: if_splits)+
  ultimately show ?thesis
    using that by blast
qed

lemma cache_allocate:
  assumes inv: "inv2 (p, c) A" "c_initialized c \<noteq> 0" and i: "i < NUMOFTHREADCACHES"
    and sz: "unat sz < 2 ^ 32" and rm: "croom (p, c) (total_size sz)"
  shows "\<exists>h st'. with_cache i (tc_allocateObject sz) (p, c) = Inr (16 + h, st') \<and> allocated2 (p, c) A sz h st'"
proof -
  obtain Ls where ok: "caches_ok (p_mem p) (c_thr_caches c) Ls" and dj: "A \<inter> cached Ls = {}"
    and hp: "heap2 (p_mem p) (cstate (p, c)) (A \<union> cached Ls)" and lv: "\<forall>b \<in> A. live_block (p_mem p) b"
    and ch: "\<forall>t \<in> set (c_thr_caches c). t_cent_heap t"
    using inv by (rule inv2E)
  obtain t where te: "tc_ensure_initialized (c_thr_caches c ! i, p, c) = (t, p, c)"
    and t: "t_freels t = t_freels (c_thr_caches c ! i)" "t_cent_heap t" "t_initialized t \<noteq> 0"
    using tc_ensure_initialized_facts [of "c_thr_caches c ! i" "(p, c)"] caches_okD(3,4) [OF ok i] ch i
    by (metis nth_mem)
  have fo: "cache_heap (p_mem p) (t_freels t, True, p, c) (A \<union> others i Ls)"
    using focus_cache [OF ok i dj hp] by (simp add: t)
  have sz': "unat sz < 2 ^ 33"
    using sz by simp
  note ts = total_size_facts [OF sz']
  have ar: "arena_room 8 cent_room (t_freels t, True, p, c) (unat (total_size sz))"
    using rm ts by (simp add: arena_room_def cent_room_def croom_def)
  obtain h k m1 s1 where gm: "arena_get 8 getMemoryFromCentHeap (total_size sz) (p_mem p) (t_freels t, True, p, c) =
      Inr (h, k, m1, s1)"
    and hp': "cache_heap (stamp ObjAllocated h k m1) s1 (insert h (A \<union> others i Ls))"
    and h: "h \<notin> A \<union> others i Ls" "unat (total_size sz) \<le> unat k" "region_ok h (unat k)"
      "live_block (stamp ObjAllocated h k m1) h" "bsize (stamp ObjAllocated h k m1) h = unat k"
    and fr: "\<And>b. b \<in> A \<union> others i Ls \<Longrightarrow> same_on (block (p_mem p) b) (p_mem p) (stamp ObjAllocated h k m1)"
      "\<And>b. b \<in> A \<union> others i Ls \<Longrightarrow> block (p_mem p) b \<inter> {h..<h + unat k} = {}"
    using tc.arena.heap_getmem [OF fo ts(1,2) ar] by metis
  obtain freels' b' p' c' where s1: "s1 = (freels', b', p', c')"
    by (metis prod_cases4)
  have b': "b'" "c_thr_caches c' = c_thr_caches c" "c_initialized c' = c_initialized c"
    using cache_body_frame gm unfolding arena_get_def s1 by fastforce+
  define m' where "m' = stamp ObjAllocated h k m1"
  define t' where "t' = t\<lparr>t_freels := freels'\<rparr>"
  define st' where "st' = (p'\<lparr>p_mem := m'\<rparr>, c'\<lparr>c_thr_caches := (c_thr_caches c)[i := t']\<rparr>)"
  have "h + unat k \<le> brk (p_os p')"
    using heap_at_below [OF hp', of h] h(5) by (simp add: s1 cent_hi_def)
  then have "finish_allocate (p_os p') h k m1 = Inr (16 + h, stamp ObjAllocated h k m1)"
    using h(3) by (simp add: finish_allocate_ok region_ok_def stamp_allocated_eq)
  then have "with_cache i (tc_allocateObject sz) (p, c) = Inr (16 + h, st')"
    using gm b' t(2) unfolding with_cache_def tc_allocateObject_def arena_get_def s1
    by (simp add: te st'_def m'_def t'_def)
  moreover have "allocated2 (p, c) A sz h st'"
  proof -
    have bo: "blocks_ok (p_mem p) (A \<union> others i Ls)"
      using heap_at_blocks [OF fo] .
    have nd: "insert h A \<inter> others i Ls = {}"
      using dj h(1) unfolding cached_split [OF i] by blast
    have t': "t_initialized t' \<noteq> 0"
      using t(3) by (simp add: t'_def)
    have fr': "same_on (block (p_mem p) b) (p_mem p) m'" if "b \<in> others i Ls" for b
      unfolding m'_def using that by (intro fr) simp
    have "cache_heap m' (t_freels t', True, p', c') (insert h A \<union> others i Ls)"
      using hp' b'(1) by (simp add: m'_def s1 t'_def)
    then obtain Ls' where ok': "caches_ok m' ((c_thr_caches c)[i := t']) Ls'" "insert h A \<inter> cached Ls' = {}"
      "heap2 m' (cstate (p', c')) (insert h A \<union> cached Ls')"
      using unfocus_cache [OF ok i blocks_ok_mono [OF bo Un_upper2] _ nd] t'(1) fr'(1) by metis
    have "\<forall>b \<in> A. live_block m' b"
      unfolding m'_def by (rule live_kept [OF blocks_ok_mono [OF bo] lv]) (auto intro: fr)
    moreover have "\<forall>t \<in> set ((c_thr_caches c)[i := t']). t_cent_heap t"
      using ch t(2) set_update_subset_insert [of "c_thr_caches c" i t'] by (auto simp: t'_def)
    ultimately have "inv2 st' (insert h A)"
      using ok' h(4) inv(2) b' unfolding inv2_def st'_def by (auto simp: cstate_def m'_def)
    then show ?thesis
      using h fr ts(4) b' by (simp add: allocated2_def st'_def m'_def block_def)
  qed
  ultimately show ?thesis by blast
qed

section \<open>Freeing\<close>

definition freed2 :: "state2 \<Rightarrow> addr set \<Rightarrow> addr \<Rightarrow> state2 \<Rightarrow> bool" where
  "freed2 st A h st' \<longleftrightarrow>
     inv2 st' (A - {h}) \<and>
     (\<forall>b \<in> A - {h}. same_on (block (p_mem (fst st)) b) (p_mem (fst st)) (p_mem (fst st')))"

lemma inv2_initialized: "inv2 (p, c) A \<Longrightarrow> h \<in> A \<Longrightarrow> c_initialized c \<noteq> 0"
  by (auto simp: inv2_def split: if_splits)

lemma central_free:
  assumes inv: "inv2 (p, c) A" and h: "h \<in> A"
  shows "\<exists>st'. ch_freeObject (16 + h) (p, c) = Inr st' \<and> freed2 (p, c) A h st'"
proof -
  obtain Ls where ok: "caches_ok (p_mem p) (c_thr_caches c) Ls" and dj: "A \<inter> cached Ls = {}"
    and hp: "heap2 (p_mem p) (cstate (p, c)) (A \<union> cached Ls)" and lv: "\<forall>b \<in> A. live_block (p_mem p) b"
    and ch: "\<forall>t \<in> set (c_thr_caches c). t_cent_heap t"
    using inv inv2_initialized [OF inv h] by (rule inv2E)
  have hp0: "heap2 (p_mem p) (c_freels c, c_heapSize c, p_os p) (A \<union> cached Ls)"
    using hp by (simp add: cstate_def)
  have hX: "h \<in> A \<union> cached Ls" "live_block (p_mem p) h"
    using h lv by auto
  obtain m' freels' where fr: "free_body BASICALLOCSIZE (16 + h) (p_mem p) (c_freels c) = Inr (m', freels')"
    and hp': "heap2 m' (freels', c_heapSize c, p_os p) (A \<union> cached Ls - {h})"
    and same: "\<And>b. b \<in> A \<union> cached Ls - {h} \<Longrightarrow> same_on (block (p_mem p) b) (p_mem p) m'"
    using ch.heap_free [OF hp0 [unfolded heap2_def] hX] unfolding heap2_def by blast
  define st' where "st' = (p\<lparr>p_mem := m'\<rparr>, c\<lparr>c_freels := freels'\<rparr>)"
  have bo: "blocks_ok (p_mem p) (A \<union> cached Ls)"
    using heap_at_blocks [OF hp [unfolded heap2_def]] .
  have hn: "h \<notin> cached Ls"
    using h dj by blast
  have sC: "same_on (block (p_mem p) b) (p_mem p) m'" if "b \<in> cached Ls" for b
    using that hn by (intro same) blast
  have sA: "same_on (block (p_mem p) b) (p_mem p) m'" if "b \<in> A - {h}" for b
    using that by (intro same) blast
  have boA: "blocks_ok (p_mem p) (A - {h})" "\<forall>b \<in> A - {h}. live_block (p_mem p) b"
    using lv by (auto intro: blocks_ok_mono [OF bo])
  have "caches_ok m' (c_thr_caches c) Ls"
    using caches_ok_same [OF ok blocks_ok_mono [OF bo Un_upper2] sC] .
  moreover have "\<forall>b \<in> A - {h}. live_block m' b"
    using live_kept [OF boA sA] .
  moreover have "A \<union> cached Ls - {h} = (A - {h}) \<union> cached Ls"
    using hn by blast
  ultimately have "inv2 st' (A - {h})"
    using hp' dj ch inv2_initialized [OF inv h] unfolding inv2_def st'_def by (auto simp: cstate_def)
  moreover have "ch_freeObject (16 + h) (p, c) = Inr st'"
    using fr by (simp add: ch_freeObject_def st'_def)
  ultimately show ?thesis
    using sA by (simp add: freed2_def st'_def)
qed

lemma cache_free:
  assumes inv: "inv2 (p, c) A" and h: "h \<in> A" and i: "i < NUMOFTHREADCACHES"
    and ti: "t_initialized (c_thr_caches c ! i) \<noteq> 0"
  shows "\<exists>st'. with_cache i (\<lambda>ts. rbind (tc_freeObject (16 + h) ts) (\<lambda>ts. Inr ((), ts))) (p, c) = Inr ((), st') \<and>
    freed2 (p, c) A h st'"
proof -
  obtain Ls where ok: "caches_ok (p_mem p) (c_thr_caches c) Ls" and dj: "A \<inter> cached Ls = {}"
    and hp: "heap2 (p_mem p) (cstate (p, c)) (A \<union> cached Ls)" and lv: "\<forall>b \<in> A. live_block (p_mem p) b"
    and ch: "\<forall>t \<in> set (c_thr_caches c). t_cent_heap t"
    using inv inv2_initialized [OF inv h] by (rule inv2E)
  define t where "t = c_thr_caches c ! i"
  have fo: "cache_heap (p_mem p) (t_freels t, True, p, c) (A \<union> others i Ls)"
    using focus_cache [OF ok i dj hp] by (simp add: t_def)
  have hX: "h \<in> A \<union> others i Ls" "live_block (p_mem p) h"
    using h lv by auto
  obtain m' freels' where fr: "free_body 8 (16 + h) (p_mem p) (t_freels t) = Inr (m', freels')"
    and hp': "cache_heap m' (freels', True, p, c) (A \<union> others i Ls - {h})"
    and same: "\<And>b. b \<in> A \<union> others i Ls - {h} \<Longrightarrow> same_on (block (p_mem p) b) (p_mem p) m'"
    using tc.heap_free [OF fo hX] by blast
  define t' where "t' = t\<lparr>t_freels := freels'\<rparr>"
  define st' where "st' = (p\<lparr>p_mem := m'\<rparr>, c\<lparr>c_thr_caches := (c_thr_caches c)[i := t']\<rparr>)"
  have bo: "blocks_ok (p_mem p) (A \<union> others i Ls)"
    using heap_at_blocks [OF fo] .
  have hn: "h \<notin> others i Ls" "(A - {h}) \<inter> others i Ls = {}"
    using h dj unfolding cached_split [OF i] by blast+
  have "A \<union> others i Ls - {h} = (A - {h}) \<union> others i Ls"
    using hn by blast
  then have "cache_heap m' (t_freels t', True, p, c) ((A - {h}) \<union> others i Ls)"
    using hp' by (simp add: t'_def)
  moreover have "t_initialized t' \<noteq> 0"
    using ti by (simp add: t'_def t_def)
  moreover have "same_on (block (p_mem p) b) (p_mem p) m'" if "b \<in> others i Ls" for b
    using that hn by (intro same) blast
  ultimately obtain Ls' where ok': "caches_ok m' ((c_thr_caches c)[i := t']) Ls'" "(A - {h}) \<inter> cached Ls' = {}"
    "heap2 m' (cstate (p, c)) ((A - {h}) \<union> cached Ls')"
    using unfocus_cache [OF ok i blocks_ok_mono [OF bo Un_upper2] _ hn(2)] by metis
  have sA: "same_on (block (p_mem p) b) (p_mem p) m'" if "b \<in> A - {h}" for b
    using that by (intro same) blast
  have boA: "blocks_ok (p_mem p) (A - {h})" "\<forall>b \<in> A - {h}. live_block (p_mem p) b"
    using lv by (auto intro: blocks_ok_mono [OF bo])
  have "\<forall>b \<in> A - {h}. live_block m' b"
    using live_kept [OF boA sA] .
  moreover have "\<forall>t \<in> set ((c_thr_caches c)[i := t']). t_cent_heap t"
    using ch set_update_subset_insert [of "c_thr_caches c" i t'] i caches_okD(4) [OF ok i]
    by (auto simp: t'_def t_def)
  ultimately have "inv2 st' (A - {h})"
    using ok' inv2_initialized [OF inv h] unfolding inv2_def st'_def by (auto simp: cstate_def)
  moreover have "with_cache i (\<lambda>ts. rbind (tc_freeObject (16 + h) ts) (\<lambda>ts. Inr ((), ts))) (p, c) = Inr ((), st')"
    using fr by (simp add: with_cache_def tc_freeObject_def st'_def t'_def t_def)
  ultimately show ?thesis
    using sA by (simp add: freed2_def st'_def)
qed

section \<open>The C interface\<close>

text \<open>A request of less than \<open>2 ^ 32\<close> bytes, and room below the break limit for the pages it may need.\<close>

definition room2 :: "state2 \<Rightarrow> size_t \<Rightarrow> bool" where
  "room2 st sz \<longleftrightarrow>
     unat sz < 2 ^ 32 \<and> (if sz > CENTHEAPALLOCTHRESHOLD then croom st sz else croom st (total_size sz))"

lemma ch_ensure_initialized_facts:
  assumes "inv2 (p, c) A"
  obtains p' c' where "ch_ensure_initialized (p, c) = (p', c')" "inv2 (p', c') A" "c_initialized c' \<noteq> 0"
    "p_mem p' = p_mem p" "cstate (p', c') = cstate (p, c)"
proof (cases "c_initialized c = 0")
  case True
  obtain p' c' where e: "ch_ensure_initialized (p, c) = (p', c')"
    by (metis surj_pair)
  obtain Ls where Ls: "caches_ok (p_mem p) (c_thr_caches c) Ls" "A \<inter> cached Ls = {}"
    "heap2 (p_mem p) (cstate (p, c)) (A \<union> cached Ls)"
    using assms by (auto simp: inv2_def)
  have z: "A = {}" "c_freels c = replicate NUMOFSIZECLASSES NULL" "c_heapSize c = 0"
    using assms True by (auto simp: inv2_def)
  have f: "p_mem p' = p_mem p" "p_os p' = p_os p" "c_initialized c' \<noteq> 0"
    "c_freels c' = c_freels c" "c_heapSize c' = c_heapSize c" "c_thr_caches c' = map setCentralHeap (c_thr_caches c)"
    using e True z(2,3) by (auto simp: ch_ensure_initialized_def ch_initialize_def Let_def split: if_splits)
  have "caches_ok (p_mem p) (map setCentralHeap (c_thr_caches c)) Ls"
    using Ls(1) by (simp add: caches_ok_def setCentralHeap_def)
  then have "inv2 (p', c') A"
    using Ls(2,3) z(1) f unfolding inv2_def by (auto simp: cstate_def setCentralHeap_def)
  then show ?thesis
    using that [OF e] f by (simp add: cstate_def)
next
  case False
  then show ?thesis
    using that [of p c] assms by (simp add: ch_ensure_initialized_def)
qed

lemma malloc2_allocates:
  assumes inv: "inv2 (p, c) A" and sz: "0 < sz" and rm: "room2 (p, c) sz"
  shows "\<exists>h st'. malloc2 self sz (p, c) = Inr (16 + h, st') \<and> allocated2 (p, c) A sz h st'"
proof -
  obtain p1 c1 where e: "ch_ensure_initialized (p, c) = (p1, c1)" and i1: "inv2 (p1, c1) A" "c_initialized c1 \<noteq> 0"
    and m1: "p_mem p1 = p_mem p" and c1: "cstate (p1, c1) = cstate (p, c)"
    using inv by (rule ch_ensure_initialized_facts)
  have cr: "croom (p1, c1) n \<longleftrightarrow> croom (p, c) n" for n
    using c1 by (simp add: croom_def cstate_def)
  have ix: "cache_index self < NUMOFTHREADCACHES"
    by (simp add: cache_index_def)
  have "\<exists>h st'. assignMalloc self sz (p, c) = Inr (16 + h, st') \<and> allocated2 (p1, c1) A sz h st'"
  proof (cases "sz > CENTHEAPALLOCTHRESHOLD")
    case True
    have "0 < unat sz"
      using sz by (simp add: word_less_nat_alt)
    then show ?thesis
      using central_allocate [OF i1] rm cr True by (simp add: assignMalloc_def e room2_def)
  next
    case False
    then show ?thesis
      using cache_allocate [OF i1 ix] rm cr by (simp add: assignMalloc_def e room2_def)
  qed
  then obtain h p' c' where a: "assignMalloc self sz (p, c) = Inr (16 + h, p', c')"
    and al: "allocated2 (p1, c1) A sz h (p', c')"
    by auto
  have "allocated2 (p, c) A sz h (p', ch_increaseMallocCalls c')"
    using al m1 by (simp add: allocated2_def)
  then show ?thesis
    using a sz by (auto simp: malloc2_def)
qed

text \<open>
  C9.  \<open>malloc\<close> of the two-layer allocator, called by any thread: with both layers in order, for less
  than \<open>2 ^ 32\<close> bytes and with room below the break limit, it returns a new 8-aligned object of at least the size asked for, whose block
  overlaps no live block, and neither layer touches a byte of a live block.
\<close>

theorem malloc2_correct:
  assumes "inv2 st A" "0 < sz" "room2 st sz"
  shows "\<exists>ptr st'. malloc2 self sz st = Inr (ptr, st') \<and> inv2 st' (insert (ptr - 16) A) \<and> ptr - 16 \<notin> A \<and>
    16 \<le> ptr \<and> 8 dvd ptr \<and> sz \<le> objectSize ptr (p_mem (fst st')) \<and>
    (\<forall>b \<in> A. same_on (block (p_mem (fst st)) b) (p_mem (fst st)) (p_mem (fst st')) \<and>
              block (p_mem (fst st)) b \<inter> block (p_mem (fst st')) (ptr - 16) = {})"
proof -
  obtain h st' where m: "malloc2 self sz st = Inr (16 + h, st')" and a: "allocated2 st A sz h st'"
    using malloc2_allocates assms by (metis surj_pair)
  have "8 dvd 16 + h"
    using a by (simp add: allocated2_def region_ok_def dvd_add)
  then show ?thesis
    using m a objectSize_ge unfolding allocated2_def
    by (intro exI [of _ "16 + h"] exI [of _ st']) auto
qed

text \<open>
  C10.  \<open>free\<close> by any thread whose cache is initialised returns, takes the object out of the live ones,
  keeps both layers in order and no byte of another live block changes.
\<close>

theorem free2_correct:
  assumes "inv2 (p, c) A" "h \<in> A" "t_initialized (c_thr_caches c ! cache_index self) \<noteq> 0"
  shows "\<exists>p' c'. free2 self (16 + h) (p, c) = Inr (p', c') \<and> inv2 (p', c') (A - {h}) \<and>
    (\<forall>b \<in> A - {h}. same_on (block (p_mem p) b) (p_mem p) (p_mem p'))"
proof -
  let ?c = "ch_increaseFreeCalls c"
  have inv: "inv2 (p, ?c) A"
    using assms(1) by simp
  have ix: "cache_index self < NUMOFTHREADCACHES"
    by (simp add: cache_index_def)
  have "\<exists>st'. free2 self (16 + h) (p, c) = Inr st' \<and> freed2 (p, ?c) A h st'"
  proof (cases "objectSize (16 + h) (p_mem p) mod CENTHEAPALLOCTHRESHOLD = 0")
    case True
    then show ?thesis
      using central_free [OF inv assms(2)] by (simp add: free2_def)
  next
    case False
    have "t_initialized (c_thr_caches ?c ! cache_index self) \<noteq> 0"
      using assms(3) by (simp add: ch_increaseFreeCalls_def)
    then show ?thesis
      using False cache_free [OF inv assms(2) ix] by (fastforce simp: free2_def)
  qed
  then show ?thesis
    by (auto simp: freed2_def)
qed

lemma inv2_blocks:
  assumes "inv2 (p, c) A"
  shows "blocks_ok (p_mem p) A"
proof -
  obtain Ls where hp: "heap2 (p_mem p) (cstate (p, c)) (A \<union> cached Ls)"
    using assms by (auto simp: inv2_def)
  show ?thesis
    using heap_at_blocks [OF hp [unfolded heap2_def]] by (rule blocks_ok_mono) blast
qed

lemma user_write_inv2:
  assumes inv: "inv2 (p, c) A" and b: "b \<in> A" and w: "same_on (- user_bytes (p_mem p) b) (p_mem p) m'"
  shows "inv2 (p\<lparr>p_mem := m'\<rparr>, c) A"
    and "x \<in> A - {b} \<Longrightarrow> same_on (block (p_mem p) x) (p_mem p) m'"
    and "x \<in> A \<Longrightarrow> bsize m' x = bsize (p_mem p) x"
proof -
  note ini = inv2_initialized [OF inv b]
  obtain Ls where ok: "caches_ok (p_mem p) (c_thr_caches c) Ls" and dj: "A \<inter> cached Ls = {}"
    and hp: "heap2 (p_mem p) (cstate (p, c)) (A \<union> cached Ls)" and lv: "\<forall>b \<in> A. live_block (p_mem p) b"
    and ch: "\<forall>t \<in> set (c_thr_caches c). t_cent_heap t"
    using inv ini by (rule inv2E)
  have bX: "b \<in> A \<union> cached Ls" "b \<notin> cached Ls"
    using b dj by blast+
  note uw = ch.arena.heap_user_write [OF hp [unfolded heap2_def] bX(1) w, folded heap2_def]
  have sC: "same_on (block (p_mem p) x) (p_mem p) m'" if "x \<in> cached Ls" for x
    using that bX(2) by (intro uw(3)) blast
  have "blocks_ok (p_mem p) (cached Ls)"
    using heap_at_blocks [OF hp [unfolded heap2_def]] by (rule blocks_ok_mono) blast
  then have "caches_ok m' (c_thr_caches c) Ls"
    using caches_ok_same [OF ok _ sC] by blast
  then show "inv2 (p\<lparr>p_mem := m'\<rparr>, c) A"
    using uw(1,2) dj lv ch ini unfolding inv2_def by (auto simp: cstate_def)
  show "same_on (block (p_mem p) x) (p_mem p) m'" if "x \<in> A - {b}"
    using that by (intro uw(3)) blast
  show "bsize m' x = bsize (p_mem p) x" if "x \<in> A"
    using that uw(2) by blast
qed

definition put_mem2 :: "mem \<Rightarrow> state2 \<Rightarrow> state2" where
  "put_mem2 m st = ((fst st)\<lparr>p_mem := m\<rparr>, snd st)"

interpretation oh2: object_heap "\<lambda>st. p_mem (fst st)" put_mem2 inv2 ch_freeObject
proof unfold_locales
  fix m and st :: state2
  show "p_mem (fst (put_mem2 m st)) = m"
    by (simp add: put_mem2_def)
next
  fix st A
  assume "inv2 st A"
  then show "blocks_ok (p_mem (fst st)) A"
    using inv2_blocks by (cases st) simp
next
  fix st A b m'
  assume "inv2 st A" "b \<in> A" "same_on (- user_bytes (p_mem (fst st)) b) (p_mem (fst st)) m'"
  then show "inv2 (put_mem2 m' st) A"
    using user_write_inv2(1) by (cases st) (simp add: put_mem2_def)
next
  fix st A b m' x
  assume "inv2 st A" "b \<in> A" "same_on (- user_bytes (p_mem (fst st)) b) (p_mem (fst st)) m'" "x \<in> A - {b}"
  then show "same_on (block (p_mem (fst st)) x) (p_mem (fst st)) m'"
    using user_write_inv2(2) by (cases st) simp
next
  fix st A h
  assume "inv2 st A" "h \<in> A"
  then show "\<exists>st'. ch_freeObject (16 + h) st = Inr st' \<and> inv2 st' (A - {h}) \<and>
      (\<forall>b \<in> A - {h}. same_on (block (p_mem (fst st)) b) (p_mem (fst st)) (p_mem (fst st')))"
    using central_free by (cases st) (auto simp: freed2_def)
qed

text \<open>
  C11.  \<open>realloc\<close> of the two-layer allocator, to less than \<open>2 ^ 32\<close> bytes and with room below the break limit, keeps the object's bytes up to the smaller of the two sizes,
  returns a live object of at least the size asked for, and changes no other live block.
\<close>

theorem realloc2_correct:
  assumes inv: "inv2 (p, c) A" and h: "h \<in> A" and sz: "0 < sz" "room2 (p, c) sz"
  shows "\<exists>h2 p' c'. realloc2 self (16 + h) sz (p, c) = Inr (16 + h2, p', c') \<and>
    inv2 (p', c') (insert h2 (A - {h})) \<and> h2 \<notin> A \<and> sz \<le> objectSize (16 + h2) (p_mem p') \<and>
    (\<forall>i < unat (min sz (objectSize (16 + h) (p_mem p))). p_mem p' (16 + h2 + i) = p_mem p (16 + h + i)) \<and>
    (\<forall>b \<in> A - {h}. same_on (block (p_mem p) b) (p_mem p) (p_mem p'))"
proof -
  obtain h2 p1 c1 where al: "malloc2 self sz (p, c) = Inr (16 + h2, p1, c1)"
    and a2: "allocated2 (p, c) A sz h2 (p1, c1)"
    using malloc2_allocates [OF inv sz] by (metis surj_pair)
  have i1: "inv2 (p1, c1) (insert h2 A)" and h2: "h2 \<notin> A" "unat sz + 32 \<le> bsize (p_mem p1) h2"
    and s1: "\<And>b. b \<in> A \<Longrightarrow> same_on (block (p_mem p) b) (p_mem p) (p_mem p1)"
    using a2 by (simp_all add: allocated2_def)
  define n where "n = (if objectSize (16 + h) (p_mem p1) > sz then sz else objectSize (16 + h) (p_mem p1))"
  obtain p' c' where fr: "ch_freeObject (16 + h) (p1\<lparr>p_mem := memcpy (16 + h2) (16 + h) n (p_mem p1)\<rparr>, c1) = Inr (p', c')"
    and r: "inv2 (p', c') (insert h2 (A - {h}))" "unat sz + 32 \<le> bsize (p_mem p') h2"
      "\<And>i. i < unat (min sz (objectSize (16 + h) (p_mem p))) \<Longrightarrow> p_mem p' (16 + h2 + i) = p_mem p (16 + h + i)"
      "\<And>b. b \<in> A - {h} \<Longrightarrow> same_on (block (p_mem p) b) (p_mem p) (p_mem p')"
    using oh2.move_object [of "(p, c)" A h "(p1, c1)" h2 sz] inv h i1 h2 s1
    unfolding n_def put_mem2_def fst_conv snd_conv by (metis surj_pair fst_conv)
  have "realloc2 self (16 + h) sz (p, c) = Inr (16 + h2, p', ch_increaseReallocCalls c')"
    using fr al sz(1) by (simp add: realloc2_def Let_def n_def [symmetric] split del: if_split)
  then show ?thesis
    using r h2(1) objectSize_ge by (metis inv2_counters(2))
qed

section \<open>The built-in checks on both layers\<close>

lemma check_sorted_class_ok:
  assumes L: "arena_ok 8 True m freels L" and ok: "blocks_ok m (set (concat L))" and i: "i < 65"
    and size_ok: "\<And>pre h. (if i \<le> 63 then obj_size m h = of_nat i * 8
        else of_nat i * 8 \<le> obj_size m h \<and> pre \<le> obj_size m h) \<Longrightarrow> size_ok pre (obj_size m h)"
  shows "check_nodes size_ok m 0 (freels ! i) = Some True"
proof (rule check_nodes_dll)
  note ao = arena_okD [OF L]
  show "dll m NULL (freels ! i) (L ! i) NULL"
    using i by (rule ao)
  have sub: "set (L ! i) \<subseteq> set (concat L)"
    using i ao(2) by (intro concat_nth_subset) simp
  show "free_block m h \<and> 48 \<le> bsize m h" if "h \<in> set (L ! i)" for h
    using ao(5) [OF i that] blocks_okD(1) [OF ok] sub that by blast
  have iw: "unat (of_nat i * 8 :: size_t) = i * 8"
    using i by (simp add: unat_word_ariths unat_of_nat)
  have ge: "size_ok pre (obj_size m h)" if "h \<in> set (L ! i)" "i = 64 \<Longrightarrow> pre \<le> obj_size m h" for pre h
    using ao(6) [OF i that(1)] that(2) iw i
    by (intro size_ok) (auto simp: class_ok_def bsize_def word_unat_eq_iff word_le_nat_alt)
  have "sorted_wrt size_ok (map (obj_size m) (L ! i))"
  proof (cases "i = 64")
    case True
    have "sorted_wrt (\<lambda>x y. bsize m x \<le> bsize m y) (L ! i)"
      using ao(7) by (simp add: True sorted_map)
    then have "sorted_wrt (\<lambda>x y. size_ok (obj_size m x) (obj_size m y)) (L ! i)"
      by (rule sorted_wrt_mono_rel [rotated]) (auto simp: bsize_def word_le_nat_alt intro: ge)
    then show ?thesis
      by (simp add: sorted_wrt_map)
  next
    case False
    then show ?thesis
      using ge by (auto simp: sorted_wrt_iff_nth_less)
  qed
  then show "sorted_wrt size_ok (0 # map (obj_size m) (L ! i))"
    using ge by auto
qed

text \<open>
  C12.  The checks of a thread cache never fail: with both layers in order, \<open>checkALL\<close> of every cache
  passes, the order of its last list included.
\<close>

theorem cache_checks_pass:
  assumes "inv2 (p, c) A" "i < NUMOFTHREADCACHES"
  shows "tc_checkALL (p_mem p) (c_thr_caches c ! i) = Inr ()"
proof -
  define t where "t = c_thr_caches c ! i"
  obtain Ls where ok: "caches_ok (p_mem p) (c_thr_caches c) Ls"
    and hp: "heap2 (p_mem p) (cstate (p, c)) (A \<union> cached Ls)"
    using assms(1) by (auto simp: inv2_def)
  have L: "arena_ok 8 True (p_mem p) (t_freels t) (Ls ! i)"
    using caches_okD(1) [OF ok assms(2)] by (simp add: t_def)
  have bo: "blocks_ok (p_mem p) (set (concat (Ls ! i)))"
    using heap_at_blocks [OF hp [unfolded heap2_def]] cached_split [OF assms(2), of Ls]
    by (auto elim!: blocks_ok_mono)
  have "tc_checkFreeLsConsist k (p_mem p) t = Inr ()" "tc_checkDualLnkList k (p_mem p) t = Inr ()" if k: "k < 65" for k
  proof -
    show "tc_checkFreeLsConsist k (p_mem p) t = Inr ()"
      using k check_sorted_class_ok [OF L bo k]
      by (auto simp: tc_checkFreeLsConsist_def assert_opt_def Let_def)
    show "tc_checkDualLnkList k (p_mem p) t = Inr ()"
      using k check_links_dll [OF arena_okD(4) [OF L k]] by (simp add: tc_checkDualLnkList_def assert_opt_def)
  qed
  then show ?thesis
    unfolding tc_checkALL_def t_def by (intro for_classes_ok) auto
qed

lemma central_check_fails:
  assumes L: "arena_ok 4096 False (p_mem p) (c_freels c) L" and h: "h \<in> set (concat L)"
    and sz: "\<not> 4096 dvd bsize (p_mem p) h"
  shows "ch_checkALL (p, c) = Inl AssertFail"
proof -
  note ao = arena_okD [OF L]
  obtain k where k: "k < 65" "h \<in> set (L ! k)"
    using h ao(2) by (metis in_set_conv_nth set_concat UN_E)
  have bad: "obj_size (p_mem p) h mod BASICALLOCSIZE \<noteq> 0"
    using sz by (simp add: bsize_def dvd_eq_mod_eq_0 word_unat_eq_iff unat_mod)
  have dual: "ch_checkDualLnkList i (p, c) = Inr ()" if "i < 65" for i
    using that check_links_dll [OF ao(4) [OF that]] by (simp add: ch_checkDualLnkList_def assert_opt_def)
  have tot: "ch_checkFreeLsConsist i (p, c) = Inr () \<or> ch_checkFreeLsConsist i (p, c) = Inl AssertFail"
    if i: "i < 65" for i
  proof -
    obtain b where "check_nodes (\<lambda>prenodesize totsize. totsize mod BASICALLOCSIZE = 0 \<and>
        (if i \<le> NUMOFSIZECLASSES - 2 then totsize = of_nat i * BASICALLOCSIZE
         else totsize \<ge> of_nat i * BASICALLOCSIZE \<and> totsize \<ge> prenodesize)) (p_mem p) 0 (c_freels c ! i) = Some b"
      using check_nodes_total [OF ao(4) [OF i]] by blast
    then show ?thesis
      using i by (cases b) (simp_all add: ch_checkFreeLsConsist_def assert_opt_def Let_def)
  qed
  have "ch_checkFreeLsConsist k (p, c) = Inl AssertFail"
    using k(1) check_nodes_bad [OF ao(4) [OF k(1)] k(2)] bad
    by (simp add: ch_checkFreeLsConsist_def assert_opt_def Let_def)
  then show ?thesis
    unfolding ch_checkALL_def using dual tot k(1)
    by (intro for_classes_fail [of _ _ k]) (force simp: rbind_def)+
qed

section \<open>Blocks in the wrong place\<close>

lemma central_free_links:
  assumes inv: "inv2 (p, c) A" and h: "h \<in> A" and fr: "ch_freeObject (16 + h) (p, c) = Inr (p', c')"
  shows "\<exists>L. arena_ok 4096 False (p_mem p') (c_freels c') L \<and> h \<in> set (concat L) \<and>
    bsize (p_mem p') h = bsize (p_mem p) h"
proof -
  obtain Ls where hp: "heap2 (p_mem p) (cstate (p, c)) (A \<union> cached Ls)" and lv: "\<forall>b \<in> A. live_block (p_mem p) b"
    using inv inv2_initialized [OF inv h] by (rule inv2E)
  have hX: "h \<in> A \<union> cached Ls" "live_block (p_mem p) h"
    using h lv by auto
  obtain m' freels' L where "free_body BASICALLOCSIZE (16 + h) (p_mem p) (c_freels c) = Inr (m', freels')"
    and "arena_ok 4096 False m' freels' L" "h \<in> set (concat L)" "bsize m' h = bsize (p_mem p) h"
    using ch.heap_free [OF hp [unfolded heap2_def cstate_def fst_conv snd_conv] hX] by auto
  then show ?thesis
    using fr by (auto simp: ch_freeObject_def)
qed

text \<open>
  \<open>realloc\<close> returns the old block to the central heap, whatever layer it came from.  Once a block
  whose size is no multiple of 4096 is there, the central heap's own check aborts.
\<close>

theorem realloc2_breaks_central_check:
  assumes inv: "inv2 (p, c) A" and h: "h \<in> A" and sz: "0 < sz" "room2 (p, c) sz"
    and odd: "\<not> 4096 dvd bsize (p_mem p) h"
  shows "\<exists>ptr st'. realloc2 self (16 + h) sz (p, c) = Inr (ptr, st') \<and> ch_checkALL st' = Inl AssertFail"
proof -
  obtain h2 p1 c1 where al: "malloc2 self sz (p, c) = Inr (16 + h2, p1, c1)"
    and a2: "allocated2 (p, c) A sz h2 (p1, c1)"
    using malloc2_allocates [OF inv sz] by (metis surj_pair)
  have i1: "inv2 (p1, c1) (insert h2 A)" and h2: "h2 \<notin> A" "unat sz + 32 \<le> bsize (p_mem p1) h2"
    and s1: "same_on (block (p_mem p) h) (p_mem p) (p_mem p1)"
    using a2 h by (simp_all add: allocated2_def)
  define n where "n = (if objectSize (16 + h) (p_mem p1) > sz then sz else objectSize (16 + h) (p_mem p1))"
  define m1 where "m1 = memcpy (16 + h2) (16 + h) n (p_mem p1)"
  have "n \<le> sz"
    by (auto simp: n_def)
  then have w: "same_on (- user_bytes (p_mem p1) h2) (p_mem p1) m1"
    unfolding m1_def using h2(2)
    by (intro same_on_mono [OF memcpy_facts(1)]) (auto simp: user_bytes_def word_le_nat_alt)
  note uw = user_write_inv2 [OF i1 insertI1 w]
  obtain p' c' where fr: "ch_freeObject (16 + h) (p1\<lparr>p_mem := m1\<rparr>, c1) = Inr (p', c')"
    using central_free [OF uw(1), of h] h by auto
  obtain L where L: "arena_ok 4096 False (p_mem p') (c_freels c') L" "h \<in> set (concat L)"
    and b: "bsize (p_mem p') h = bsize m1 h"
    using central_free_links [OF uw(1) _ fr] h by auto
  have "bsize (p_mem p') h = bsize (p_mem p) h"
    using b uw(3) [of h] h block_same(1) [OF s1 blocks_okD(1) [OF inv2_blocks [OF inv] h]] by simp
  then have "ch_checkALL (p', c') = Inl AssertFail"
    using odd by (intro central_check_fails [OF L]) simp
  moreover have "ch_checkALL (p', ch_increaseReallocCalls c') = ch_checkALL (p', c')"
    by (simp add: ch_checkALL_def ch_checkFreeLsConsist_def ch_checkDualLnkList_def ch_increaseReallocCalls_def
        cong: if_cong)
  moreover have "realloc2 self (16 + h) sz (p, c) = Inr (16 + h2, p', ch_increaseReallocCalls c')"
    using fr al sz(1) by (simp add: realloc2_def Let_def n_def [symmetric] m1_def split del: if_split)
  ultimately show ?thesis by auto
qed

text \<open>
  An object that came straight from the central heap never returns there through \<open>free\<close>: the test
  looks at the usable size, which is 32 less than a multiple of 4096 and so no multiple of the
  threshold; the block ends up in the freeing thread's cache.
\<close>

theorem free2_of_central_object:
  assumes "inv2 (p, c) A" "h \<in> A" "4096 dvd bsize (p_mem p) h"
  shows "free2 self (16 + h) (p, c) =
    rbind (with_cache (cache_index self) (\<lambda>ts. rbind (tc_freeObject (16 + h) ts) (\<lambda>ts. Inr ((), ts)))
             (p, ch_increaseFreeCalls c)) (\<lambda>(_, st). Inr st)"
proof -
  let ?n = "bsize (p_mem p) h"
  have "48 \<le> ?n"
    using blocks_okD(1) [OF inv2_blocks [OF assms(1)] assms(2)] .
  then have os: "unat (objectSize (16 + h) (p_mem p)) = ?n - 32"
    by (simp add: objectSize_def bsize_def unat_simps word_le_nat_alt)
  have "\<not> (16384 :: nat) dvd ?n - 32"
  proof
    assume "(16384 :: nat) dvd ?n - 32"
    moreover have "(4096 :: nat) dvd 16384"
      by simp
    ultimately have "(4096 :: nat) dvd ?n - 32"
      by (rule dvd_trans [rotated])
    with assms(3) have "(4096 :: nat) dvd ?n - (?n - 32)"
      by (rule dvd_diff_nat)
    moreover have "?n - (?n - 32) = 32"
      using \<open>48 \<le> ?n\<close> by linarith
    ultimately show False
      by simp
  qed
  moreover have "unat (objectSize (16 + h) (p_mem p) mod CENTHEAPALLOCTHRESHOLD) = (?n - 32) mod 16384"
    unfolding unat_mod os by simp
  ultimately have "objectSize (16 + h) (p_mem p) mod CENTHEAPALLOCTHRESHOLD \<noteq> 0"
    unfolding dvd_eq_mod_eq_0 by (metis unat_0)
  then show ?thesis
    by (simp add: free2_def)
qed

lemma tc_allocate_uninitialised:
  assumes un: "t_initialized t = 0" and al: "tc_allocateObject sz (t, p, c) = Inr (ptr, t', p', c')"
  shows "t_freels t' = replicate NUMOFSIZECLASSES NULL" "c_thr_caches c' = c_thr_caches c"
proof -
  obtain t1 where e: "tc_ensure_initialized (t, p, c) = (t1, p, c)"
    and f1: "t_freels t1 = replicate NUMOFSIZECLASSES NULL"
    using un by (auto simp: tc_ensure_initialized_def tc_initialize_def Let_def)
  obtain h k m b p2 c2 where gm: "getMemoryFromCentHeap (total_size sz) (p_mem p) (t_cent_heap t1, p, c) = Inr (h, k, m, b, p2, c2)"
    and r: "t' = t1\<lparr>t_freels := replicate NUMOFSIZECLASSES NULL\<rparr>" "c' = c2"
    using al unfolding tc_allocateObject_def e Let_def case_prod_conv f1 allocate_body_empty
    by (auto simp: rbind_Inr_iff)
  show "t_freels t' = replicate NUMOFSIZECLASSES NULL" "c_thr_caches c' = c_thr_caches c"
    using r getMemoryFromCentHeap_frame [OF gm] by simp_all
qed

lemma malloc2_uninitialised:
  assumes c: "c_initialized c \<noteq> 0" "length (c_thr_caches c) = NUMOFTHREADCACHES"
    and un: "t_initialized (c_thr_caches c ! cache_index self) = 0"
    and m: "sz \<le> CENTHEAPALLOCTHRESHOLD" "malloc2 self sz (p, c) = Inr (ptr, p', c')"
  shows "t_freels (c_thr_caches c' ! cache_index self) = replicate NUMOFSIZECLASSES NULL"
proof -
  let ?i = "cache_index self"
  have e: "ch_ensure_initialized (p, c) = (p, c)"
    using c(1) by (simp add: ch_ensure_initialized_def)
  obtain t' p2 c2 where al: "tc_allocateObject sz (c_thr_caches c ! ?i, p, c) = Inr (ptr, t', p2, c2)"
    and c': "c' = ch_increaseMallocCalls (c2\<lparr>c_thr_caches := (c_thr_caches c2)[?i := t']\<rparr>)"
    using m unfolding malloc2_def assignMalloc_def e Let_def with_cache_def
    by (auto simp: rbind_Inr_iff not_less split: if_splits)
  have "?i < length (c_thr_caches c2)"
    using tc_allocate_uninitialised(2) [OF un al] c(2) by (simp add: cache_index_def)
  then show ?thesis
    using tc_allocate_uninitialised(1) [OF un al] by (simp add: c' ch_increaseMallocCalls_def)
qed

text \<open>
  A thread that frees an object before its first allocation loses the block: \<open>free\<close> links it into
  the lists of a cache that is not initialised, and any later small allocation by the thread
  initialises the cache and leaves all its lists empty.
\<close>

theorem uninitialised_cache_loses_block:
  assumes inv: "inv2 (p, c) A" and h: "h \<in> A"
    and br: "objectSize (16 + h) (p_mem p) mod CENTHEAPALLOCTHRESHOLD \<noteq> 0"
    and un: "t_initialized (c_thr_caches c ! cache_index self) = 0"
  shows "\<exists>p1 c1 L. free2 self (16 + h) (p, c) = Inr (p1, c1) \<and>
    arena_ok 8 True (p_mem p1) (t_freels (c_thr_caches c1 ! cache_index self)) L \<and> h \<in> set (concat L) \<and>
    (\<forall>sz ptr p2 c2. sz \<le> CENTHEAPALLOCTHRESHOLD \<and> malloc2 self sz (p1, c1) = Inr (ptr, p2, c2) \<longrightarrow>
       t_freels (c_thr_caches c2 ! cache_index self) = replicate NUMOFSIZECLASSES NULL)"
proof -
  let ?i = "cache_index self"
  have i: "?i < NUMOFTHREADCACHES"
    by (simp add: cache_index_def)
  note ini = inv2_initialized [OF inv h]
  obtain Ls where ok: "caches_ok (p_mem p) (c_thr_caches c) Ls" and dj: "A \<inter> cached Ls = {}"
    and hp: "heap2 (p_mem p) (cstate (p, c)) (A \<union> cached Ls)" and lv: "\<forall>b \<in> A. live_block (p_mem p) b"
    using inv ini by (rule inv2E)
  define t where "t = c_thr_caches c ! ?i"
  have fo: "cache_heap (p_mem p) (t_freels t, True, p, c) (A \<union> others ?i Ls)"
    using focus_cache [OF ok i dj hp] by (simp add: t_def)
  have hX: "h \<in> A \<union> others ?i Ls" "live_block (p_mem p) h"
    using h lv by auto
  obtain m' freels' L where fr: "free_body 8 (16 + h) (p_mem p) (t_freels t) = Inr (m', freels')"
    and L: "arena_ok 8 True m' freels' L" "h \<in> set (concat L)"
    using tc.heap_free [OF fo hX] by auto
  define c1 where "c1 = (ch_increaseFreeCalls c)\<lparr>c_thr_caches := (c_thr_caches c)[?i := t\<lparr>t_freels := freels'\<rparr>]\<rparr>"
  have "free2 self (16 + h) (p, c) = Inr (p\<lparr>p_mem := m'\<rparr>, c1)"
    using fr br by (simp add: free2_def with_cache_def tc_freeObject_def c1_def t_def ch_increaseFreeCalls_def Let_def)
  moreover have "c_thr_caches c1 ! ?i = t\<lparr>t_freels := freels'\<rparr>" "length (c_thr_caches c1) = NUMOFTHREADCACHES"
    "c_initialized c1 \<noteq> 0"
    using i ini caches_okD(4) [OF ok i] by (simp_all add: c1_def ch_increaseFreeCalls_def)
  moreover from this have "t_freels (c_thr_caches c2 ! ?i) = replicate NUMOFSIZECLASSES NULL"
    if "sz \<le> CENTHEAPALLOCTHRESHOLD \<and> malloc2 self sz (p\<lparr>p_mem := m'\<rparr>, c1) = Inr (ptr, p2, c2)" for sz ptr p2 c2
    using malloc2_uninitialised [of c1 self sz "p\<lparr>p_mem := m'\<rparr>" ptr p2 c2] un that by (simp add: t_def)
  ultimately show ?thesis
    using L by (intro exI [of _ "p\<lparr>p_mem := m'\<rparr>"] exI [of _ c1] exI [of _ L]) simp
qed

section \<open>Accounting over both layers\<close>

lemma fsum_uninitialised:
  assumes "arena_ok u ex m (replicate NUMOFSIZECLASSES NULL) L"
  shows "fsum m L = 0"
proof -
  have "L ! i = []" if "i < 65" for i
    using arena_okD(4) [OF assms that] that by (cases "L ! i") auto
  then have "concat L = []"
    using arena_okD(2) [OF assms] by (auto simp: in_set_conv_nth)
  then show ?thesis
    unfolding fsum_def by (simp only: list.map sum_list.Nil)
qed

lemma add_caches_sum:
  assumes "length ts = length Ls" "\<And>i. i < length ts \<Longrightarrow> arena_ok 8 True m (t_freels (ts ! i)) (Ls ! i) \<and>
      (t_initialized (ts ! i) = 0 \<longrightarrow> t_freels (ts ! i) = replicate NUMOFSIZECLASSES NULL)"
  shows "add_caches m ts acc = Inr (acc + of_nat (sum_list (map (fsum m) Ls)))"
  using assms
proof (induction ts Ls arbitrary: acc rule: list_induct2)
  case (Cons t ts L Ls)
  have a: "arena_ok 8 True m (t_freels t) L" "t_initialized t = 0 \<Longrightarrow> t_freels t = replicate NUMOFSIZECLASSES NULL"
    using Cons.prems [of 0] by auto
  have IH: "add_caches m ts acc = Inr (acc + of_nat (sum_list (map (fsum m) Ls)))" for acc
    using Cons.prems [of "Suc i" for i] by (intro Cons.IH) auto
  show ?case
  proof (cases "t_initialized t = 0")
    case True
    then show ?thesis
      using fsum_uninitialised a IH by (simp add: isInitialized_def)
  next
    case False
    then show ?thesis
      using sum_lists_arena [OF a(1)] IH by (simp add: isInitialized_def tc_sumFreeListSize_def add.assoc)
  qed
qed simp

lemma cached_sum:
  assumes ok: "caches_ok m ts Ls"
  shows "(\<Sum>b \<in> cached Ls. bsize m b) = sum_list (map (fsum m) Ls)" "finite (cached Ls)"
proof -
  have "(\<Sum>b \<in> cached Ls. bsize m b) = (\<Sum>i < NUMOFTHREADCACHES. \<Sum>b \<in> set (concat (Ls ! i)). bsize m b)"
    unfolding cached_def using ok by (intro sum.UNION_disjoint) (auto simp: caches_ok_def)
  also have "\<dots> = (\<Sum>i < NUMOFTHREADCACHES. fsum m (Ls ! i))"
    using fsum_set [OF arena_okD(3) [OF caches_okD(1) [OF ok]]] by (intro sum.cong) simp_all
  also have "\<dots> = sum_list (map (fsum m) Ls)"
    using ok by (simp add: sum_list_sum_nth caches_ok_def atLeast0LessThan)
  finally show "(\<Sum>b \<in> cached Ls. bsize m b) = sum_list (map (fsum m) Ls)" .
  show "finite (cached Ls)"
    by (simp add: cached_def)
qed

text \<open>
  C16.  Nothing is lost over both layers: the report of the central heap counts the free bytes of the
  central lists and of all caches, and with the live blocks they add up to the bytes obtained from the
  system.
\<close>

theorem two_layers_conserve:
  assumes "inv2 (p, c) A"
  shows "\<exists>n r k f s eq. ch_print (p, c) = Inr (n, r, k, f, c_heapSize c, s, eq) \<and>
    unat s + (\<Sum>b \<in> A. bsize (p_mem p) b) = unat (c_heapSize c)"
proof -
  obtain Ls where ok: "caches_ok (p_mem p) (c_thr_caches c) Ls" and dj: "A \<inter> cached Ls = {}"
    and hp: "heap2 (p_mem p) (cstate (p, c)) (A \<union> cached Ls)"
    using assms by (auto simp: inv2_def)
  obtain L where L: "arena_ok 4096 False (p_mem p) (c_freels c) L"
    and k: "(\<Sum>b \<in> A \<union> cached Ls. bsize (p_mem p) b) + fsum (p_mem p) L = unat (c_heapSize c)"
    and fin: "finite (A \<union> cached Ls)"
    using hp by (auto simp: heap2_def heap_at_def arena_held_def os_held_def cstate_def)
  define S where "S = fsum (p_mem p) L + sum_list (map (fsum (p_mem p)) Ls)"
  have t: "S + (\<Sum>b \<in> A. bsize (p_mem p) b) = unat (c_heapSize c)"
    using k fin dj cached_sum(1) [OF ok] by (simp add: S_def sum.union_disjoint)
  then have "S < 2 ^ 64"
    using unsigned_less [of "c_heapSize c", where ?'a = nat] by simp
  then have u: "unat (of_nat S :: size_t) = S"
    by (rule unat_of_nat_small)
  have "add_caches (p_mem p) (c_thr_caches c) acc = Inr (acc + of_nat (sum_list (map (fsum (p_mem p)) Ls)))" for acc
    using ok by (intro add_caches_sum) (auto simp: caches_ok_def)
  then show ?thesis
    using t u sum_lists_arena [OF L] by (simp add: ch_print_def ch_sumFreeListSize_def S_def)
qed

section \<open>A concrete heap of two layers\<close>

text \<open>A heap whose lists are all empty: every byte is in a live block.\<close>

lemma heap2_live:
  assumes os: "os_held m (hs, w) {} (\<Sum>b \<in> A. bsize m b)" and A: "finite A" "blocks_ok m A"
    "\<forall>b \<in> A. b + bsize m b \<le> brk w"
  shows "heap2 m (replicate NUMOFSIZECLASSES NULL, hs, w) A"
proof -
  have "arena_held (unat BASICALLOCSIZE) False os_held m (replicate NUMOFSIZECLASSES NULL, hs, w)
      (set (concat (replicate NUMOFSIZECLASSES [])) \<union> {}) (\<Sum>b \<in> A. bsize m b)"
    using os by (intro arena_heldI arena_ok_empty) (simp_all add: fsum_def)
  then show ?thesis
    using A unfolding heap2_def heap_at_def by (intro exI [of _ "{}"]) (simp add: os_hi_def)
qed

lemma caches_ok_empty:
  assumes "length ts = NUMOFTHREADCACHES" "\<forall>t \<in> set ts. t_freels t = replicate NUMOFSIZECLASSES NULL"
  shows "\<exists>Ls. caches_ok m ts Ls \<and> cached Ls = {}"
proof (intro exI conjI)
  let ?Ls = "replicate NUMOFTHREADCACHES (replicate NUMOFSIZECLASSES [])"
  show "caches_ok m ts ?Ls"
    using assms by (simp add: caches_ok_def arena_ok_empty)
  show "cached ?Ls = {}"
    by (simp add: cached_def)
qed

lemma boot_inv2:
  assumes "booted p"
  shows "inv2 (p, TheCentralHeap) {}"
proof -
  obtain Ls where "caches_ok (p_mem p) (c_thr_caches TheCentralHeap) Ls" "cached Ls = {}"
    using caches_ok_empty [of "c_thr_caches TheCentralHeap"]
    by (auto simp: TheCentralHeap_def new_thread_cache_def)
  moreover have "heap2 (p_mem p) (cstate (p, TheCentralHeap)) {}"
    using heap2_live [of "p_mem p" 0 "p_os p" "{}"] assms
    by (simp add: cstate_def TheCentralHeap_def os_held_def booted_def blocks_ok_def)
  ultimately show ?thesis
    by (auto simp: inv2_def TheCentralHeap_def)
qed

text \<open>The state after the first thread has called \<open>malloc(100)\<close>: its cache took a whole page.\<close>

definition demo_caches :: "thread_cache list" where
  "demo_caches = (replicate NUMOFTHREADCACHES (setCentralHeap new_thread_cache))
     [0 := \<lparr>t_freels = replicate NUMOFSIZECLASSES NULL, t_cent_heap = True, t_heapSize = 0,
            t_initialized = 1, t_verbose = 1\<rparr>]"

definition demo_state2 :: state2 where
  "demo_state2 =
     (\<lparr>p_mem = stamp ObjAllocated 4096 4096 (stamp ObjAllocated 4096 4096 (\<lambda>_. 0)),
       p_os = \<lparr>brk_start = 4096, brk = 8192, brk_limit = 2 ^ 30\<rparr>, p_verbose_env = None, p_atexit = 1\<rparr>,
      \<lparr>c_freels = replicate NUMOFSIZECLASSES NULL, c_thr_caches = demo_caches, c_heapSize = 4096,
       c_initialized = 1, c_verbose = 1, c_mallocCalls = 1, c_freeCalls = 0, c_reallocCalls = 0,
       c_callocCalls = 0\<rparr>)"

lemma demo_malloc2: "malloc2 0 100 (demo_process, TheCentralHeap) = Inr (4112, demo_state2)"
proof -
  have os: "ch_getMemoryFromOS 4096 m (0, \<lparr>brk_start = 4096, brk = 4096, brk_limit = 1073741824\<rparr>) =
      Inr (4096, 4096, m, 4096, \<lparr>brk_start = 4096, brk = 8192, brk_limit = 1073741824\<rparr>)" for m
    by (simp add: ch_getMemoryFromOS_def sbrk_def)
  have ts: "ch_total_size 136 = 4096"
    by (simp add: ch_total_size_def Let_def)
  have o: "load64 (stamp ObjAllocated 4096 4096 m) 4104 = 4096" for m
    using stamp_facts(1) [of 4096 ObjAllocated 4096 m] by (simp add: bsize_def word_unat_eq_iff)
  show ?thesis
    by (simp add: malloc2_def assignMalloc_def ch_ensure_initialized_def ch_initialize_def TheCentralHeap_def
        demo_process_def with_cache_def tc_allocateObject_def tc_ensure_initialized_def tc_initialize_def
        cache_index_def new_thread_cache_def setCentralHeap_def demo_total_size allocate_body_empty
        getMemoryFromCentHeap_def ch_allocateObject_def ts os o finish_allocate_def mapped_def stamp_allocated_eq Let_def
        demo_state2_def demo_caches_def ch_increaseMallocCalls_def)
qed

lemma room2_demo: "room2 (demo_process, TheCentralHeap) 100" "room2 demo_state2 100"
  by (simp_all add: room2_def croom_def ch_total_size_def demo_total_size Let_def os_room_def demo_process_def
      TheCentralHeap_def demo_state2_def)

lemma inv2_demo: "inv2 demo_state2 {4096}"
proof -
  obtain h st' where m: "malloc2 0 100 (demo_process, TheCentralHeap) = Inr (16 + h, st')"
    and a: "allocated2 (demo_process, TheCentralHeap) {} 100 h st'"
    using malloc2_allocates [OF boot_inv2 [OF booted_demo] _ room2_demo(1), of 0] by auto
  then have "h = 4096" "st' = demo_state2"
    by (simp_all add: demo_malloc2)
  then show ?thesis
    using a by (simp add: allocated2_def)
qed

lemma demo2_size: "load64 (p_mem (fst demo_state2)) 4104 = 4096" "bsize (p_mem (fst demo_state2)) 4096 = 4096"
  using stamp_facts(1) [of 4096 ObjAllocated 4096 "stamp ObjAllocated 4096 4096 (\<lambda>_. 0)"]
  by (simp_all add: demo_state2_def bsize_def word_unat_eq_iff)

text \<open>The page split into two live objects, of 136 and of 3960 bytes.\<close>

definition demo_state3 :: state2 where
  "demo_state3 = ((fst demo_state2)\<lparr>p_mem := stamp ObjAllocated 4096 136 (stamp ObjAllocated 4232 3960 (\<lambda>_. 0))\<rparr>,
     snd demo_state2)"

lemma demo3_size: "bsize (p_mem (fst demo_state3)) 4096 = 136" "bsize (p_mem (fst demo_state3)) 4232 = 3960"
  "live_block (p_mem (fst demo_state3)) 4096" "live_block (p_mem (fst demo_state3)) 4232"
proof -
  let ?m = "stamp ObjAllocated 4232 3960 (\<lambda>_. 0)"
  have m: "bsize ?m 4232 = 3960" "bsize ?m 8176 = 3960"
    using stamp_facts(1,3) [of 3960 ObjAllocated 4232 "\<lambda>_. 0"] by simp_all
  have s: "same_on (block ?m 4232) ?m (stamp ObjAllocated 4096 136 ?m)"
    using m by (intro stamp_outside) (auto simp: block_def)
  show "bsize (p_mem (fst demo_state3)) 4096 = 136" "live_block (p_mem (fst demo_state3)) 4096"
    using stamp_facts(1,3) [of 136 ObjAllocated 4096 ?m] by (simp_all add: demo_state3_def live_block_def)
  show "bsize (p_mem (fst demo_state3)) 4232 = 3960" "live_block (p_mem (fst demo_state3)) 4232"
    using block_same(1) [OF s] live_block_same [OF s] m by (simp_all add: demo_state3_def live_block_def)
qed

lemma demo_caches_facts:
  "length demo_caches = NUMOFTHREADCACHES"
  "t \<in> set demo_caches \<Longrightarrow> t_freels t = replicate NUMOFSIZECLASSES NULL \<and> t_cent_heap t"
  by (auto simp: demo_caches_def new_thread_cache_def setCentralHeap_def
      dest!: subsetD [OF set_update_subset_insert])

lemma inv2_demo3: "inv2 demo_state3 {4096, 4232}"
proof -
  let ?m = "p_mem (fst demo_state3)"
  have "blocks_ok ?m {4096, 4232}"
    by (simp add: blocks_ok_def demo3_size region_ok_def)
  then have "heap2 ?m (cstate demo_state3) {4096, 4232}"
    using heap2_live [of ?m 4096 "\<lparr>brk_start = 4096, brk = 8192, brk_limit = 2 ^ 30\<rparr>" "{4096, 4232}"]
    by (simp add: cstate_def demo3_size os_held_def) (simp add: demo_state3_def demo_state2_def)
  moreover have ts: "c_thr_caches (snd demo_state3) = demo_caches" "c_initialized (snd demo_state3) \<noteq> 0"
    by (simp_all add: demo_state3_def demo_state2_def)
  moreover obtain Ls where "caches_ok ?m demo_caches Ls" "cached Ls = {}"
    using caches_ok_empty [of demo_caches ?m] demo_caches_facts by blast
  ultimately show ?thesis
    using demo3_size demo_caches_facts by (auto simp: inv2_def)
qed

lemma room2_demo3: "room2 demo_state3 100"
  using room2_demo(2) by (simp add: room2_def croom_def demo_state3_def)

section \<open>The properties on the concrete heap\<close>

theorem malloc2_correct_witness:
  "\<exists>ptr st'. malloc2 5 100 demo_state2 = Inr (ptr, st') \<and> inv2 st' {ptr - 16, 4096} \<and> ptr - 16 \<noteq> 4096"
  using malloc2_correct [OF inv2_demo _ room2_demo(2), of 5] by auto

theorem free2_correct_witness: "\<exists>p' c'. free2 0 4112 demo_state2 = Inr (p', c') \<and> inv2 (p', c') {}"
  using free2_correct [of "fst demo_state2" "snd demo_state2" "{4096}" 4096 0] inv2_demo
  by (simp add: cache_index_def demo_state2_def demo_caches_def)

theorem realloc2_correct_witness:
  "\<exists>h2 p' c'. realloc2 3 4112 100 demo_state2 = Inr (16 + h2, p', c') \<and> inv2 (p', c') {h2} \<and>
     100 \<le> objectSize (16 + h2) (p_mem p')"
  using realloc2_correct [of "fst demo_state2" "snd demo_state2" "{4096}" 4096 100 3] inv2_demo room2_demo(2) by auto

text \<open>The object is freed into the last list of the first cache.\<close>

lemma demo_free2: "\<exists>p' c'. free2 0 4112 demo_state2 = Inr (p', c') \<and> inv2 (p', c') {} \<and> t_freels (c_thr_caches c' ! 0) ! 64 = 4112"
proof -
  let ?c = "ch_increaseFreeCalls (snd demo_state2)"
  let ?f = "replicate NUMOFSIZECLASSES NULL"
  have t: "c_thr_caches ?c ! 0 = demo_caches ! 0" "length (c_thr_caches ?c) = 17" "t_freels (demo_caches ! 0) = ?f"
      "t_initialized (demo_caches ! 0) \<noteq> 0"
    using demo_caches_facts(1) by (simp_all add: ch_increaseFreeCalls_def demo_state2_def demo_caches_def)
  have inv: "inv2 (fst demo_state2, ?c) {4096}"
    using inv2_demo by (cases demo_state2) simp
  have "obj_size (p_mem (fst demo_state2)) 4096 = 4096"
    using demo2_size(1) by simp
  then obtain m' where "free_body 8 4112 (p_mem (fst demo_state2)) ?f = Inr (m', ?f[64 := 4112])"
    using free_body_eq [of "p_mem (fst demo_state2)" 4096 8 ?f] demo2_size(2) class_number(1) [of 8 4096]
    by (simp add: insertFreeBlock_def clamp_pos_def Let_def)
  then have "free2 0 4112 demo_state2 = Inr ((fst demo_state2)\<lparr>p_mem := m'\<rparr>,
      ?c\<lparr>c_thr_caches := (c_thr_caches ?c)[0 := (demo_caches ! 0)\<lparr>t_freels := ?f[64 := 4112]\<rparr>]\<rparr>)"
    using t demo2_size by (simp add: free2_def with_cache_def tc_freeObject_def cache_index_def objectSize_def case_prod_beta Let_def)
  moreover obtain st' where "free2 0 (16 + 4096) demo_state2 = Inr st'" "freed2 (fst demo_state2, ?c) {4096} 4096 st'"
    using cache_free [OF inv, of 4096 0] t demo2_size
    by (auto simp: free2_def cache_index_def objectSize_def case_prod_beta)
  ultimately show ?thesis
    using t(2) by (auto simp: freed2_def)
qed

theorem cache_checks_pass_witness:
  "\<exists>p' c'. free2 0 4112 demo_state2 = Inr (p', c') \<and> t_freels (c_thr_caches c' ! 0) ! 64 = 4112 \<and>
     tc_checkALL (p_mem p') (c_thr_caches c' ! 0) = Inr ()"
  using demo_free2 cache_checks_pass [of _ _ "{}" 0] by (metis zero_less_numeral)

theorem realloc2_breaks_central_check_witness:
  "\<exists>ptr st'. realloc2 0 4112 100 demo_state3 = Inr (ptr, st') \<and> ch_checkALL st' = Inl AssertFail"
  using realloc2_breaks_central_check [of "fst demo_state3" "snd demo_state3" "{4096, 4232}" 4096 100 0]
    inv2_demo3 room2_demo3 by (simp add: demo3_size)

theorem free2_of_central_object_witness:
  "free2 0 4112 demo_state2 =
    rbind (with_cache 0 (\<lambda>ts. rbind (tc_freeObject 4112 ts) (\<lambda>ts. Inr ((), ts)))
             (fst demo_state2, ch_increaseFreeCalls (snd demo_state2))) (\<lambda>(_, st). Inr st)"
  using free2_of_central_object [of "fst demo_state2" "snd demo_state2" "{4096}" 4096 0] inv2_demo
  by (simp add: demo2_size cache_index_def)

theorem uninitialised_cache_loses_block_witness:
  "\<exists>p1 c1 L. free2 5 4112 demo_state2 = Inr (p1, c1) \<and>
     arena_ok 8 True (p_mem p1) (t_freels (c_thr_caches c1 ! 5)) L \<and> 4096 \<in> set (concat L)"
proof -
  have os: "objectSize 4112 (p_mem (fst demo_state2)) mod 16384 \<noteq> 0"
    by (simp add: objectSize_def demo2_size)
  have un: "t_initialized (c_thr_caches (snd demo_state2) ! 5) = 0"
    by (simp add: demo_state2_def demo_caches_def setCentralHeap_def new_thread_cache_def)
  show ?thesis
    using uninitialised_cache_loses_block [of "fst demo_state2" "snd demo_state2" "{4096}" 4096 5] inv2_demo os un
    by (auto simp: cache_index_def)
qed

theorem two_layers_conserve_witness:
  "\<exists>n r k f s eq. ch_print demo_state2 = Inr (n, r, k, f, 4096, s, eq) \<and> unat s = 0"
  using two_layers_conserve [of "fst demo_state2" "snd demo_state2" "{4096}"] inv2_demo
  by (auto simp: demo2_size) (auto simp: demo_state2_def)

end
