(* ===== verification/Buffer.thy ===== *)
theory Buffer
  imports Prelude
begin

text \<open>
  The streaming buffer (\<open>buffer.hpp\<close>, \<open>buffer.cpp\<close>): a deque of chunks of 4096 bytes with a write
  position in the last chunk and a read position in front of it.  The bytes a \<open>new char[BlockSize]\<close>
  holds before they are written are an argument of the operations that add chunks.  An index into
  a deque that does not exist is the fault \<^const>\<open>BadAddress\<close>.
\<close>

section \<open>State\<close>

definition BlockSize :: nat where
  "BlockSize = 4096"

record position =
  pos_idx :: nat
  pos_off :: nat

record buffer =
  b_chunks :: "char list list"
  b_sizes :: "nat list"
  b_wpos :: position
  b_rpos :: position

text \<open>What the bytes of the \<open>n\<close>-th chunk of a buffer are when it is allocated.\<close>

type_synonym raw = "nat \<Rightarrow> nat \<Rightarrow> char"

definition deque_at :: "'a list \<Rightarrow> nat \<Rightarrow> 'a result" where
  "deque_at xs i = (if i < length xs then Inr (xs ! i) else Inl BadAddress)"

text \<open>The string a \<open>MemPiece\<close> made from a null-terminated \<open>char*\<close> refers to.\<close>

definition c_str :: "char list \<Rightarrow> char list" where
  "c_str s = takeWhile (\<lambda>c. c \<noteq> CHR 0x00) s"

section \<open>Chunks\<close>

definition addChunk :: "raw \<Rightarrow> buffer \<Rightarrow> position \<times> buffer" where
  "addChunk raw b =
     (let chunk = map (raw (length (b_chunks b))) [0..<BlockSize];
          b = b\<lparr>b_chunks := b_chunks b @ [chunk], b_sizes := b_sizes b @ [0]\<rparr>
      in (\<lparr>pos_idx = length (b_chunks b) - 1, pos_off = 0\<rparr>, b))"

text \<open>The statement \<open>wpos_ = addChunk()\<close>.\<close>

definition with_chunk :: "raw \<Rightarrow> buffer \<Rightarrow> buffer" where
  "with_chunk raw b = (let (p, b) = addChunk raw b in b\<lparr>b_wpos := p\<rparr>)"

definition dropChunks :: "nat \<Rightarrow> buffer \<Rightarrow> buffer" where
  "dropChunks n b =
     (if n = 0 then b
      else b\<lparr>b_wpos := (b_wpos b)\<lparr>pos_idx := pos_idx (b_wpos b) - n\<rparr>,
             b_rpos := (b_rpos b)\<lparr>pos_idx := pos_idx (b_rpos b) - n\<rparr>,
             b_chunks := drop n (b_chunks b), b_sizes := drop n (b_sizes b)\<rparr>)"

definition isConsumed :: "buffer \<Rightarrow> bool" where
  "isConsumed b \<longleftrightarrow> pos_idx (b_rpos b) \<noteq> 0 \<or> pos_off (b_rpos b) \<noteq> 0"

definition new_buffer :: "raw \<Rightarrow> buffer" where
  "new_buffer raw =
     (let zero = \<lparr>pos_idx = 0, pos_off = 0\<rparr>;
          (p, b) = addChunk raw \<lparr>b_chunks = [], b_sizes = [], b_wpos = zero, b_rpos = zero\<rparr>
      in b\<lparr>b_wpos := p, b_rpos := p\<rparr>)"

section \<open>Writing\<close>

definition writeSize :: "buffer \<Rightarrow> nat" where
  "writeSize b = BlockSize - pos_off (b_wpos b)"

definition reserve :: "raw \<Rightarrow> nat \<Rightarrow> buffer \<Rightarrow> bool \<times> buffer" where
  "reserve raw bytes b =
     (if bytes > BlockSize then (False, b)
      else if BlockSize - pos_off (b_wpos b) \<ge> bytes then (True, b)
      else
        let should_advance = (b_rpos b = b_wpos b);
            b = with_chunk raw b;
            b = (if should_advance then dropChunks 1 (b\<lparr>b_rpos := b_wpos b\<rparr>) else b)
        in (True, b))"

definition advance :: "nat \<Rightarrow> buffer \<Rightarrow> (bool \<times> buffer) result" where
  "advance bytes b =
     (if bytes = 0 then Inr (False, b)
      else if bytes \<le> writeSize b then
        let w = b_wpos b in
        rbind (deque_at (b_sizes b) (pos_idx w)) (\<lambda>n.
          Inr (True, b\<lparr>b_wpos := w\<lparr>pos_off := pos_off w + bytes\<rparr>,
                       b_sizes := (b_sizes b)[pos_idx w := n + bytes]\<rparr>))
      else Inr (False, b))"

text \<open>The bytes \<open>data\<close> stored through \<open>writePtr()\<close>, at offset \<open>off\<close> of a chunk.\<close>

definition put_bytes :: "nat \<Rightarrow> char list \<Rightarrow> char list \<Rightarrow> char list" where
  "put_bytes off data chunk = take off chunk @ data @ drop (off + length data) chunk"

definition poke :: "char list \<Rightarrow> buffer \<Rightarrow> buffer result" where
  "poke data b =
     (let w = b_wpos b in
      rbind (deque_at (b_chunks b) (pos_idx w)) (\<lambda>chunk.
        if pos_off w + length data \<le> BlockSize
        then Inr (b\<lparr>b_chunks := (b_chunks b)[pos_idx w := put_bytes (pos_off w) data chunk]\<rparr>)
        else Inl BadAddress))"

text \<open>
  One round of the loop in \<open>Buffer::write\<close>: as many bytes as fit are stored, the size of the chunk and
  the write position follow, and a chunk is added when there is more to write or this one is full.
\<close>

definition write_round :: "raw \<Rightarrow> char list \<Rightarrow> buffer \<Rightarrow> buffer result" where
  "write_round raw data b =
     (let bytes_in_chunk = min (writeSize b) (length data) in
      rbind (poke (take bytes_in_chunk data) b) (\<lambda>b.
        let w = b_wpos b in
        rbind (deque_at (b_sizes b) (pos_idx w)) (\<lambda>n.
          let b = b\<lparr>b_sizes := (b_sizes b)[pos_idx w := n + bytes_in_chunk],
                    b_wpos := w\<lparr>pos_off := pos_off w + bytes_in_chunk\<rparr>\<rparr>;
              b = (if length data - bytes_in_chunk > 0 \<or> pos_off (b_wpos b) = BlockSize
                   then with_chunk raw b else b)
          in Inr b)))"

lemma write_round_room:
  assumes "write_round raw data b = Inr b'" "min (writeSize b) (length data) < length data"
  shows "writeSize b' = BlockSize"
  using assms
  by (auto simp: write_round_def poke_def deque_at_def with_chunk_def addChunk_def writeSize_def Let_def split: if_splits)

function buffer_write :: "raw \<Rightarrow> char list \<Rightarrow> buffer \<Rightarrow> buffer result" where
  "buffer_write raw data b =
     (if data = [] then Inr b
      else case write_round raw data b of
             Inl e \<Rightarrow> Inl e
           | Inr b' \<Rightarrow> buffer_write raw (drop (min (writeSize b) (length data)) data) b')"
  by pat_completeness auto
termination
proof (relation "measure (\<lambda>(raw, data, b). 2 * length data + (if writeSize b = 0 then 1 else 0))")
  fix raw :: raw and data :: "char list" and b b' :: buffer
  assume *: "data \<noteq> []" "write_round raw data b = Inr b'"
  show "((raw, drop (min (writeSize b) (length data)) data, b'), raw, data, b)
    \<in> measure (\<lambda>(raw, data, b). 2 * length data + (if writeSize b = 0 then 1 else 0))"
    using * write_round_room [OF *(2)]
    by (cases data; cases "writeSize b = 0"; cases "length data \<le> writeSize b") (auto simp: BlockSize_def)
qed simp

declare buffer_write.simps [simp del]

section \<open>Reading\<close>

definition readSize :: "buffer \<Rightarrow> nat result" where
  "readSize b = rbind (deque_at (b_sizes b) (pos_idx (b_rpos b))) (\<lambda>n. Inr (n - pos_off (b_rpos b)))"

text \<open>The \<open>n\<close> bytes at \<open>readPtr()\<close>.\<close>

definition peek :: "nat \<Rightarrow> buffer \<Rightarrow> char list result" where
  "peek n b =
     rbind (deque_at (b_chunks b) (pos_idx (b_rpos b))) (\<lambda>chunk.
       if pos_off (b_rpos b) + n \<le> BlockSize
       then Inr (take n (drop (pos_off (b_rpos b)) chunk)) else Inl BadAddress)"

text \<open>
  The loop of \<open>consume\<close> over the chunks before the last one; it returns what is left to consume and
  how many chunks are to be dropped.
\<close>

function consume_loop :: "nat \<Rightarrow> nat \<Rightarrow> buffer \<Rightarrow> (nat \<times> nat \<times> buffer) result" where
  "consume_loop bytes chunks_to_drop b =
     (if bytes > 0 \<and> pos_idx (b_rpos b) < pos_idx (b_wpos b) then
        if pos_idx (b_rpos b) < length (b_sizes b) then
          let r = b_rpos b;
              read_size = b_sizes b ! pos_idx r - pos_off r;
              bytes_in_chunk = min bytes read_size;
              r = r\<lparr>pos_off := pos_off r + bytes_in_chunk\<rparr>
          in if b_sizes b ! pos_idx r - pos_off r = 0
             then consume_loop (bytes - bytes_in_chunk) (chunks_to_drop + 1)
                    (b\<lparr>b_rpos := \<lparr>pos_idx = pos_idx r + 1, pos_off = 0\<rparr>\<rparr>)
             else consume_loop (bytes - bytes_in_chunk) chunks_to_drop (b\<lparr>b_rpos := r\<rparr>)
        else Inl BadAddress
      else Inr (bytes, chunks_to_drop, b))"
  by pat_completeness auto
termination
  by (relation "measure (\<lambda>(bytes, n, b). bytes + (pos_idx (b_wpos b) - pos_idx (b_rpos b)))") auto

declare consume_loop.simps [simp del]

definition consume :: "nat \<Rightarrow> buffer \<Rightarrow> buffer result" where
  "consume bytes_to_consume b =
     rbind (consume_loop bytes_to_consume 0 b) (\<lambda>(bytes_to_consume, chunks_to_drop, b).
       rbind (if bytes_to_consume > 0 then
                rbind (readSize b) (\<lambda>read_size.
                  Inr (b\<lparr>b_rpos := (b_rpos b)\<lparr>pos_off := pos_off (b_rpos b) + min bytes_to_consume read_size\<rparr>\<rparr>))
              else Inr b)
         (\<lambda>b. Inr (dropChunks chunks_to_drop b)))"

definition byteCount :: "buffer \<Rightarrow> nat result" where
  "byteCount b = rbind (readSize b) (\<lambda>count. Inr (count + sum_list (drop 1 (b_sizes b))))"

section \<open>Moving and copying between buffers\<close>

definition maybeRemoveLastChunk :: "buffer \<Rightarrow> (char list option \<times> buffer) result" where
  "maybeRemoveLastChunk b =
     rbind (deque_at (b_sizes b) (pos_idx (b_wpos b))) (\<lambda>n.
       if n = 0 then
         rbind (deque_at (b_chunks b) (pos_idx (b_wpos b))) (\<lambda>last_chunk.
           Inr (Some last_chunk, b\<lparr>b_chunks := butlast (b_chunks b), b_sizes := butlast (b_sizes b)\<rparr>))
       else Inr (None, b))"

text \<open>\<open>LOG(FATAL)\<close> ends the process (\<open>MCP_BASE_exit_on_fatal\<close> is true by default).\<close>

definition appendFrom :: "raw \<Rightarrow> buffer \<Rightarrow> buffer \<Rightarrow> (buffer \<times> buffer) result" where
  "appendFrom raw this other =
     (if isConsumed other then Inl Fatal
      else
        rbind (readSize other) (\<lambda>n.
          if n = 0 then Inr (this, other)
          else
            rbind (maybeRemoveLastChunk this) (\<lambda>(last_chunk, this).
            rbind (maybeRemoveLastChunk other) (\<lambda>(other_last_chunk, other).
              let this = this\<lparr>b_chunks := b_chunks this @ b_chunks other,
                              b_sizes := b_sizes this @ b_sizes other\<rparr>;
                  this = (if last (b_sizes this) = BlockSize then
                            (case last_chunk of
                               None \<Rightarrow> snd (addChunk raw this)
                             | Some c \<Rightarrow> this\<lparr>b_chunks := b_chunks this @ [c], b_sizes := b_sizes this @ [0]\<rparr>)
                          else this)
              in rbind (readSize this) (\<lambda>n.
                   let this = (if n = 0
                               then this\<lparr>b_rpos := \<lparr>pos_idx = pos_idx (b_rpos this) + 1, pos_off = 0\<rparr>\<rparr>
                               else this);
                       this = this\<lparr>b_wpos := \<lparr>pos_idx = length (b_chunks this) - 1,
                                              pos_off = last (b_sizes this)\<rparr>\<rparr>;
                       other = other\<lparr>b_chunks := [], b_sizes := []\<rparr>;
                       other = (case other_last_chunk of
                                  None \<Rightarrow> with_chunk raw other
                                | Some c \<Rightarrow> other\<lparr>b_chunks := [c], b_sizes := [0]\<rparr>);
                       other = other\<lparr>b_rpos := b_wpos other\<rparr>
                   in Inr (this, other))))))"

text \<open>One chunk of the other buffer; \<open>first\<close> tells whether it is the first one.\<close>

definition copy_chunk :: "raw \<Rightarrow> bool \<Rightarrow> char list \<Rightarrow> nat \<Rightarrow> buffer \<Rightarrow> buffer result" where
  "copy_chunk raw first chunk len b =
     (let b = (if \<not> first \<or> len > writeSize b
               then with_chunk raw b else b)
      in rbind (poke (take len chunk) b) (\<lambda>b.
           let w = b_wpos b in
           rbind (deque_at (b_sizes b) (pos_idx w)) (\<lambda>n.
             Inr (b\<lparr>b_sizes := (b_sizes b)[pos_idx w := n + len],
                    b_wpos := w\<lparr>pos_off := pos_off w + len\<rparr>\<rparr>))))"

fun copy_chunks :: "raw \<Rightarrow> bool \<Rightarrow> (char list \<times> nat) list \<Rightarrow> buffer \<Rightarrow> buffer result" where
  "copy_chunks raw first [] b = Inr b"
| "copy_chunks raw first ((chunk, len) # rest) b =
     rbind (copy_chunk raw first chunk len b) (copy_chunks raw False rest)"

definition copyFrom :: "raw \<Rightarrow> buffer \<Rightarrow> buffer \<Rightarrow> buffer result" where
  "copyFrom raw this other =
     (if isConsumed other then Inl Fatal
      else
        rbind (readSize other) (\<lambda>n.
          if n = 0 then Inr this
          else
            rbind (copy_chunks raw True (zip (b_chunks other) (b_sizes other)) this) (\<lambda>this.
              Inr (if pos_off (b_wpos this) = BlockSize
                   then with_chunk raw this else this))))"

section \<open>Iterators\<close>

text \<open>\<open>it_chunk\<close> is the index of the chunk that \<open>chunk_start_\<close> points to.\<close>

record iterator =
  it_pos :: position
  it_bytes_read :: nat
  it_bytes_total :: nat
  it_budget :: nat
  it_chunk :: nat

definition getBudget :: "buffer \<Rightarrow> position \<Rightarrow> nat result" where
  "getBudget b pos = rbind (deque_at (b_sizes b) (pos_idx pos)) (\<lambda>n. Inr (n - pos_off pos))"

definition new_iterator :: "buffer \<Rightarrow> iterator result" where
  "new_iterator b =
     rbind (byteCount b) (\<lambda>total.
       rbind (getBudget b (b_rpos b)) (\<lambda>budget.
         Inr \<lparr>it_pos = b_rpos b, it_bytes_read = 0, it_bytes_total = total, it_budget = budget,
              it_chunk = pos_idx (b_rpos b)\<rparr>))"

definition buffer_begin :: "buffer \<Rightarrow> iterator result" where
  "buffer_begin b = rbind (new_iterator b) (\<lambda>iter. Inr (iter\<lparr>it_pos := b_rpos b\<rparr>))"

definition buffer_end :: "buffer \<Rightarrow> iterator result" where
  "buffer_end b = rbind (new_iterator b) (\<lambda>iter. Inr (iter\<lparr>it_pos := b_wpos b\<rparr>))"

definition eob :: "buffer \<Rightarrow> iterator \<Rightarrow> bool" where
  "eob b it =
     (if it_budget it \<noteq> 0 then False
      else pos_idx (it_pos it) = pos_idx (b_wpos b) \<and> pos_off (it_pos it) = pos_off (b_wpos b))"

definition slowNext :: "buffer \<Rightarrow> iterator \<Rightarrow> iterator result" where
  "slowNext b it =
     rbind (deque_at (b_sizes b) (pos_idx (it_pos it))) (\<lambda>n.
       if pos_off (it_pos it) < n then
         let pos = (it_pos it)\<lparr>pos_off := pos_off (it_pos it) + 1\<rparr>;
             it = it\<lparr>it_pos := pos, it_bytes_read := it_bytes_read it + 1\<rparr>;
             it = (if pos_off pos = n \<and> pos_idx pos < pos_idx (b_wpos b)
                   then it\<lparr>it_pos := \<lparr>pos_idx = pos_idx pos + 1, pos_off = 0\<rparr>, it_chunk := pos_idx pos + 1\<rparr>
                   else it)
         in rbind (getBudget b (it_pos it)) (\<lambda>budget. Inr (it\<lparr>it_budget := budget\<rparr>))
       else Inr it)"

definition it_next :: "buffer \<Rightarrow> iterator \<Rightarrow> iterator result" where
  "it_next b it =
     (if it_budget it > 1
      then Inr (it\<lparr>it_budget := it_budget it - 1, it_pos := (it_pos it)\<lparr>pos_off := pos_off (it_pos it) + 1\<rparr>,
                   it_bytes_read := it_bytes_read it + 1\<rparr>)
      else slowNext b it)"

definition getChar :: "buffer \<Rightarrow> iterator \<Rightarrow> char result" where
  "getChar b it =
     rbind (deque_at (b_chunks b) (it_chunk it)) (\<lambda>chunk.
       if pos_off (it_pos it) < BlockSize then deque_at chunk (pos_off (it_pos it)) else Inl BadAddress)"

definition it_equal :: "iterator \<Rightarrow> iterator \<Rightarrow> bool" where
  "it_equal x y \<longleftrightarrow> it_pos x = it_pos y"

end
