(* ===== verification/Buffer_Correct.thy ===== *)
theory Buffer_Correct
  imports Buffer
begin

text \<open>
  What the streaming buffer promises: it is a first-in first-out stream of bytes.  The contents of a
  buffer are the bytes from the read position on; writing appends to them, consuming drops from
  their front, an iterator yields them in order.
\<close>

section \<open>Segments\<close>

text \<open>The unread part of a list of segments, from offset \<open>off\<close> of segment \<open>i\<close> on.\<close>

definition unread :: "nat \<Rightarrow> nat \<Rightarrow> 'a list list \<Rightarrow> 'a list" where
  "unread i off segs = drop off (concat (drop i segs))"

lemma unread_step:
  assumes "i < length segs" "off \<le> length (segs ! i)"
  shows "unread i off segs = drop off (segs ! i) @ unread (Suc i) 0 segs"
  using assms by (simp add: unread_def Cons_nth_drop_Suc [symmetric])

lemma unread_within:
  assumes "i < length segs" "off + n \<le> length (segs ! i)"
  shows "unread i (off + n) segs = drop n (unread i off segs)"
  by (simp add: unread_def add.commute)

lemma unread_append_last:
  assumes "i \<le> length xs" "off \<le> length ((xs @ [x]) ! i)"
  shows "unread i off (xs @ [x @ d]) = unread i off (xs @ [x]) @ d"
proof (cases "i = length xs")
  case False
  then have "off \<le> length (concat (drop i xs))"
    using assms by (auto simp: nth_append Cons_nth_drop_Suc [symmetric] intro: le_trans)
  then show ?thesis
    using assms by (simp add: unread_def)
qed (use assms in \<open>simp add: unread_def\<close>)

lemma unread_append:
  assumes "i < length xs" "off \<le> length (xs ! i)"
  shows "unread i off (xs @ ys) = unread i off xs @ concat ys"
proof -
  have "off \<le> length (concat (drop i xs))"
    using assms by (auto simp: Cons_nth_drop_Suc [symmetric] intro: le_trans)
  then show ?thesis
    using assms by (simp add: unread_def)
qed

lemma unread_drop: "n \<le> i \<Longrightarrow> unread (i - n) off (drop n segs) = unread i off segs"
  by (simp add: unread_def)

section \<open>The invariant\<close>

definition segs :: "buffer \<Rightarrow> char list list" where
  "segs b = map2 take (b_sizes b) (b_chunks b)"

definition contents :: "buffer \<Rightarrow> char list" where
  "contents b = unread (pos_idx (b_rpos b)) (pos_off (b_rpos b)) (segs b)"

definition buf_ok :: "buffer \<Rightarrow> bool" where
  "buf_ok b \<longleftrightarrow>
     b_chunks b \<noteq> [] \<and> length (b_sizes b) = length (b_chunks b) \<and>
     (\<forall>c \<in> set (b_chunks b). length c = BlockSize) \<and> (\<forall>n \<in> set (b_sizes b). n \<le> BlockSize) \<and>
     b_wpos b = \<lparr>pos_idx = length (b_chunks b) - 1, pos_off = last (b_sizes b)\<rparr> \<and>
     pos_idx (b_rpos b) < length (b_chunks b) \<and> pos_off (b_rpos b) \<le> b_sizes b ! pos_idx (b_rpos b)"

text \<open>
  A buffer flows when the read position has something to read in its own chunk, unless it is in the
  last one, and no chunk in between is empty.
\<close>

definition flowing :: "buffer \<Rightarrow> bool" where
  "flowing b \<longleftrightarrow>
     (pos_idx (b_rpos b) < pos_idx (b_wpos b) \<longrightarrow> pos_off (b_rpos b) < b_sizes b ! pos_idx (b_rpos b)) \<and>
     (\<forall>i. pos_idx (b_rpos b) < i \<and> i < pos_idx (b_wpos b) \<longrightarrow> 0 < b_sizes b ! i)"

text \<open>The read position is in the first chunk.\<close>

definition compact :: "buffer \<Rightarrow> bool" where
  "compact b \<longleftrightarrow> pos_idx (b_rpos b) = 0"

lemma buf_ok_last:
  assumes "buf_ok b"
  obtains cs c ns n where "b_chunks b = cs @ [c]" "b_sizes b = ns @ [n]" "length cs = length ns"
    "length c = BlockSize" "n \<le> BlockSize" "b_wpos b = \<lparr>pos_idx = length ns, pos_off = n\<rparr>"
    "\<forall>c \<in> set cs. length c = BlockSize" "\<forall>n \<in> set ns. n \<le> BlockSize" "pos_idx (b_rpos b) \<le> length ns"
    "pos_off (b_rpos b) \<le> (ns @ [n]) ! pos_idx (b_rpos b)"
proof -
  from assms have ne: "b_chunks b \<noteq> []" "b_sizes b \<noteq> []"
    by (auto simp: buf_ok_def)
  then obtain cs c ns n where "b_chunks b = cs @ [c]" "b_sizes b = ns @ [n]"
    by (metis append_butlast_last_id)
  with assms show thesis
    by (intro that [of cs c ns n]) (auto simp: buf_ok_def)
qed

lemma segs_snoc:
  "length cs = length ns \<Longrightarrow> b_chunks b = cs @ [c] \<Longrightarrow> b_sizes b = ns @ [n] \<Longrightarrow>
     segs b = map2 take ns cs @ [take n c]"
  by (simp add: segs_def)

lemma length_segs: "buf_ok b \<Longrightarrow> length (segs b) = length (b_chunks b)"
  by (simp add: segs_def buf_ok_def)

lemma nth_segs: "buf_ok b \<Longrightarrow> i < length (b_chunks b) \<Longrightarrow> length (segs b ! i) = b_sizes b ! i"
  by (simp add: segs_def buf_ok_def)

lemma buf_ok_wpos:
  assumes "buf_ok b"
  shows "pos_off (b_wpos b) \<le> BlockSize" "pos_idx (b_wpos b) < length (b_chunks b)"
    "pos_idx (b_wpos b) < length (b_sizes b)" "pos_off (b_wpos b) = b_sizes b ! pos_idx (b_wpos b)"
    "pos_idx (b_rpos b) \<le> pos_idx (b_wpos b)"
proof -
  have "b_sizes b \<noteq> []" using assms by (auto simp: buf_ok_def)
  then show "pos_off (b_wpos b) \<le> BlockSize" "pos_idx (b_wpos b) < length (b_chunks b)"
    "pos_idx (b_wpos b) < length (b_sizes b)" "pos_off (b_wpos b) = b_sizes b ! pos_idx (b_wpos b)"
    "pos_idx (b_rpos b) \<le> pos_idx (b_wpos b)"
    using assms by (auto simp: buf_ok_def last_conv_nth)
qed

lemma new_buffer_ok: "buf_ok (new_buffer raw)" "flowing (new_buffer raw)" "compact (new_buffer raw)"
    "contents (new_buffer raw) = []"
  by (auto simp: new_buffer_def addChunk_def buf_ok_def flowing_def compact_def contents_def segs_def unread_def Let_def)

section \<open>Writing appends\<close>

text \<open>The chunk at the write position after \<open>k\<close> bytes of \<open>data\<close> have been stored there and counted.\<close>

definition stored :: "char list \<Rightarrow> buffer \<Rightarrow> buffer" where
  "stored data b =
     (let w = b_wpos b in
      b\<lparr>b_chunks := (b_chunks b)[pos_idx w := put_bytes (pos_off w) data (b_chunks b ! pos_idx w)],
        b_sizes := (b_sizes b)[pos_idx w := b_sizes b ! pos_idx w + length data],
        b_wpos := w\<lparr>pos_off := pos_off w + length data\<rparr>\<rparr>)"

lemma put_bytes_facts:
  assumes "off + length data \<le> length c"
  shows "length (put_bytes off data c) = length c" "take (off + length data) (put_bytes off data c) = take off c @ data"
  using assms by (auto simp: put_bytes_def)

lemma stored_ok:
  assumes "buf_ok b" "length data \<le> writeSize b"
  shows "buf_ok (stored data b)" "contents (stored data b) = contents b @ data"
    "flowing b \<Longrightarrow> flowing (stored data b)" "b_rpos (stored data b) = b_rpos b"
    "pos_off (b_wpos (stored data b)) = pos_off (b_wpos b) + length data"
proof -
  obtain cs c ns n where b: "b_chunks b = cs @ [c]" "b_sizes b = ns @ [n]" "length cs = length ns"
    "length c = BlockSize" "n \<le> BlockSize" "b_wpos b = \<lparr>pos_idx = length ns, pos_off = n\<rparr>"
    "\<forall>c \<in> set cs. length c = BlockSize" "\<forall>n \<in> set ns. n \<le> BlockSize" "pos_idx (b_rpos b) \<le> length ns"
    "pos_off (b_rpos b) \<le> (ns @ [n]) ! pos_idx (b_rpos b)"
    using buf_ok_last [OF assms(1)] by metis
  have fit: "n + length data \<le> length c"
    using assms(2) b by (simp add: writeSize_def)
  have st: "b_chunks (stored data b) = cs @ [put_bytes n data c]" "b_sizes (stored data b) = ns @ [n + length data]"
    "b_wpos (stored data b) = \<lparr>pos_idx = length ns, pos_off = n + length data\<rparr>" "b_rpos (stored data b) = b_rpos b"
    using b by (simp_all add: stored_def Let_def list_update_append nth_append)
  then show "b_rpos (stored data b) = b_rpos b"
    "pos_off (b_wpos (stored data b)) = pos_off (b_wpos b) + length data"
    using b by simp_all
  have r: "pos_off (b_rpos b) \<le> (ns @ [n + length data]) ! pos_idx (b_rpos b)"
    using b(9,10) by (auto simp: nth_append split: if_splits)
  show "buf_ok (stored data b)"
    unfolding buf_ok_def st using b r fit put_bytes_facts(1) [OF fit] by auto
  have "segs (stored data b) = map2 take ns cs @ [take n c @ data]"
    using segs_snoc [OF b(3) st(1,2)] put_bytes_facts(2) [OF fit] by simp
  moreover have "pos_off (b_rpos b) \<le> length ((map2 take ns cs @ [take n c]) ! pos_idx (b_rpos b))"
    using nth_segs [OF assms(1), of "pos_idx (b_rpos b)"] segs_snoc [OF b(3,1,2)] b by simp
  ultimately show "contents (stored data b) = contents b @ data"
    using unread_append_last [of "pos_idx (b_rpos b)" "map2 take ns cs" _ "take n c" data] segs_snoc [OF b(3,1,2)] b
    by (simp add: contents_def st)
  show "flowing (stored data b)" if "flowing b"
    using that b by (auto simp: flowing_def st nth_append)
qed

lemma with_chunk_ok:
  assumes "buf_ok b"
  shows "buf_ok (with_chunk raw b)" "contents (with_chunk raw b) = contents b"
    "flowing b \<Longrightarrow> 0 < pos_off (b_wpos b) \<Longrightarrow> b_rpos b \<noteq> b_wpos b \<Longrightarrow> flowing (with_chunk raw b)"
    "b_rpos (with_chunk raw b) = b_rpos b"
    "b_wpos (with_chunk raw b) = \<lparr>pos_idx = length (b_chunks b), pos_off = 0\<rparr>"
proof -
  obtain cs c ns n where b: "b_chunks b = cs @ [c]" "b_sizes b = ns @ [n]" "length cs = length ns"
    "length c = BlockSize" "n \<le> BlockSize" "b_wpos b = \<lparr>pos_idx = length ns, pos_off = n\<rparr>"
    "\<forall>c \<in> set cs. length c = BlockSize" "\<forall>n \<in> set ns. n \<le> BlockSize" "pos_idx (b_rpos b) \<le> length ns"
    "pos_off (b_rpos b) \<le> (ns @ [n]) ! pos_idx (b_rpos b)"
    using buf_ok_last [OF assms(1)] by metis
  have st: "b_chunks (with_chunk raw b) = b_chunks b @ [map (raw (length (b_chunks b))) [0..<BlockSize]]"
    "b_sizes (with_chunk raw b) = b_sizes b @ [0]" "b_rpos (with_chunk raw b) = b_rpos b"
    "b_wpos (with_chunk raw b) = \<lparr>pos_idx = length (b_chunks b), pos_off = 0\<rparr>"
    by (simp_all add: with_chunk_def addChunk_def)
  then show "b_rpos (with_chunk raw b) = b_rpos b"
    "b_wpos (with_chunk raw b) = \<lparr>pos_idx = length (b_chunks b), pos_off = 0\<rparr>" by simp_all
  show "buf_ok (with_chunk raw b)"
    using assms st by (auto simp: buf_ok_def nth_append)
  have "segs (with_chunk raw b) = segs b @ [[]]"
    using assms st by (simp add: segs_def buf_ok_def)
  then show "contents (with_chunk raw b) = contents b"
    using unread_append [of "pos_idx (b_rpos b)" "segs b" "pos_off (b_rpos b)" "[[]]"] assms
    by (simp add: contents_def st length_segs nth_segs buf_ok_def)
  assume fl: "flowing b" "0 < pos_off (b_wpos b)" "b_rpos b \<noteq> b_wpos b"
  have rn: "pos_off (b_rpos b) < (ns @ [n, 0]) ! pos_idx (b_rpos b)"
  proof (cases "pos_idx (b_rpos b) = length ns")
    case True
    then have "pos_off (b_rpos b) \<noteq> n"
      using fl(3) b(6) by (cases "b_rpos b") auto
    then show ?thesis using True b(10) by simp
  next
    case False
    then show ?thesis using fl(1) b by (simp add: flowing_def nth_append)
  qed
  have "0 < (ns @ [n, 0]) ! i" if "pos_idx (b_rpos b) < i" "i < Suc (length ns)" for i
    using that fl(1,2) b by (cases "i = length ns") (auto simp: flowing_def nth_append)
  then show "flowing (with_chunk raw b)"
    using rn b by (simp add: flowing_def st)
qed

lemma write_round_eq:
  assumes "buf_ok b"
  shows "write_round raw data b =
    (let n = min (writeSize b) (length data); b' = stored (take n data) b
     in Inr (if n < length data \<or> pos_off (b_wpos b') = BlockSize then with_chunk raw b' else b'))"
proof -
  have "pos_off (b_wpos b) + length (take (min (writeSize b) (length data)) data) \<le> BlockSize"
    using buf_ok_wpos(1) [OF assms] by (simp add: writeSize_def)
  then show ?thesis
    using buf_ok_wpos [OF assms] by (simp add: write_round_def poke_def deque_at_def stored_def Let_def)
qed

text \<open>
  Where a write leaves the buffer flowing: not when the chunk is full and everything in it has been
  read.
\<close>

definition drained :: "buffer \<Rightarrow> bool" where
  "drained b \<longleftrightarrow> b_rpos b = b_wpos b \<and> writeSize b = 0"

lemma write_round_ok:
  assumes ok: "buf_ok b" and d: "data \<noteq> []"
  obtains b' where "write_round raw data b = Inr b'" "buf_ok b'" "b_rpos b' = b_rpos b"
    "contents b' = contents b @ take (min (writeSize b) (length data)) data"
    "flowing b \<and> \<not> drained b \<Longrightarrow> flowing b' \<and> \<not> drained b'"
    "pos_off (b_wpos b') < BlockSize"
proof -
  let ?n = "min (writeSize b) (length data)"
  let ?s = "stored (take ?n data) b"
  let ?b' = "if ?n < length data \<or> pos_off (b_wpos ?s) = BlockSize then with_chunk raw ?s else ?s"
  have len: "length (take ?n data) = ?n" "length (take ?n data) \<le> writeSize b"
    by simp_all
  note s = stored_ok [OF ok len(2)]
  note w = buf_ok_wpos(1) [OF ok]
  have nd: "b_rpos ?s \<noteq> b_wpos ?s" "0 < pos_off (b_wpos ?s)" if "flowing b" "\<not> drained b"
  proof -
    have "b_rpos b \<noteq> b_wpos ?s \<and> 0 < pos_off (b_wpos ?s)"
    proof (cases "?n = 0")
      case True
      then have "b_wpos ?s = b_wpos b" "writeSize b = 0"
        using d by (simp_all add: stored_def Let_def min_def split: if_splits)
      then show ?thesis
        using that(2) by (auto simp: drained_def writeSize_def BlockSize_def)
    next
      case False
      have "b_wpos ?s = \<lparr>pos_idx = pos_idx (b_wpos b), pos_off = pos_off (b_wpos b) + ?n\<rparr>"
        by (simp add: stored_def Let_def)
      moreover have "pos_idx (b_rpos b) = pos_idx (b_wpos b) \<longrightarrow> pos_off (b_rpos b) \<le> pos_off (b_wpos b)"
        using ok buf_ok_wpos(4) [OF ok] by (auto simp: buf_ok_def)
      ultimately show ?thesis
        using False by (cases "b_rpos b") (auto simp: min_def split: if_splits)
    qed
    then show "b_rpos ?s \<noteq> b_wpos ?s" "0 < pos_off (b_wpos ?s)"
      by (simp_all add: s(4))
  qed
  show thesis
  proof (rule that [of ?b'])
    show "write_round raw data b = Inr ?b'"
      by (simp add: write_round_eq [OF ok] Let_def)
    show "buf_ok ?b'" "b_rpos ?b' = b_rpos b" "contents ?b' = contents b @ take ?n data"
      using s with_chunk_ok [OF s(1)] by auto
    show "pos_off (b_wpos ?b') < BlockSize"
      using with_chunk_ok(5) [OF s(1)] s(5) w by (auto simp: BlockSize_def writeSize_def)
    then show "flowing ?b' \<and> \<not> drained ?b'" if "flowing b \<and> \<not> drained b"
      using that s(3) nd with_chunk_ok(3) [OF s(1)] by (auto simp: drained_def writeSize_def)
  qed
qed

lemma buffer_write_appends:
  assumes "buf_ok b"
  shows "\<exists>b'. buffer_write raw data b = Inr b' \<and> buf_ok b' \<and> contents b' = contents b @ data \<and>
    b_rpos b' = b_rpos b \<and> (flowing b \<and> \<not> drained b \<longrightarrow> flowing b' \<and> \<not> drained b')"
  using assms
proof (induction raw data b rule: buffer_write.induct)
  case (1 raw data b)
  show ?case
  proof (cases "data = []")
    case False
    let ?n = "min (writeSize b) (length data)"
    obtain b1 where r: "write_round raw data b = Inr b1" and b1: "buf_ok b1" "b_rpos b1 = b_rpos b"
      "contents b1 = contents b @ take ?n data" "flowing b \<and> \<not> drained b \<longrightarrow> flowing b1 \<and> \<not> drained b1"
      using write_round_ok [OF 1(2) False] by metis
    obtain b' where "buffer_write raw (drop ?n data) b1 = Inr b'" "buf_ok b'"
      "contents b' = contents b1 @ drop ?n data" "b_rpos b' = b_rpos b1"
      "flowing b1 \<and> \<not> drained b1 \<longrightarrow> flowing b' \<and> \<not> drained b'"
      using 1(1) [OF False r b1(1)] by blast
    then show ?thesis
      using False r b1 by (subst buffer_write.simps) auto
  qed (use 1(2) in \<open>simp add: buffer_write.simps\<close>)
qed

lemma advance_poked:
  assumes "buf_ok b" "length data \<le> writeSize b"
  shows "poke data b = Inr (b\<lparr>b_chunks := b_chunks (stored data b)\<rparr>)"
    "data \<noteq> [] \<Longrightarrow> advance (length data) (b\<lparr>b_chunks := b_chunks (stored data b)\<rparr>) = Inr (True, stored data b)"
proof -
  have "pos_off (b_wpos b) + length data \<le> BlockSize"
    using assms buf_ok_wpos(1) [OF assms(1)] by (simp add: writeSize_def)
  then show "poke data b = Inr (b\<lparr>b_chunks := b_chunks (stored data b)\<rparr>)"
    using buf_ok_wpos [OF assms(1)] by (simp add: poke_def deque_at_def stored_def Let_def)
  show "advance (length data) (b\<lparr>b_chunks := b_chunks (stored data b)\<rparr>) = Inr (True, stored data b)" if "data \<noteq> []"
    using that assms buf_ok_wpos [OF assms(1)]
    by (simp add: advance_def deque_at_def writeSize_def stored_def Let_def)
qed

section \<open>Consuming drops\<close>

lemma dropChunks_ok:
  assumes "buf_ok b" "n \<le> pos_idx (b_rpos b)"
  shows "buf_ok (dropChunks n b)" "contents (dropChunks n b) = contents b"
    "flowing b \<Longrightarrow> flowing (dropChunks n b)"
    "b_rpos (dropChunks n b) = (b_rpos b)\<lparr>pos_idx := pos_idx (b_rpos b) - n\<rparr>"
    "writeSize (dropChunks n b) = writeSize b"
proof -
  note w = buf_ok_wpos [OF assms(1)]
  have st: "b_chunks (dropChunks n b) = drop n (b_chunks b)" "b_sizes (dropChunks n b) = drop n (b_sizes b)"
    "b_rpos (dropChunks n b) = (b_rpos b)\<lparr>pos_idx := pos_idx (b_rpos b) - n\<rparr>"
    "b_wpos (dropChunks n b) = (b_wpos b)\<lparr>pos_idx := pos_idx (b_wpos b) - n\<rparr>"
    by (simp_all add: dropChunks_def)
  then show "b_rpos (dropChunks n b) = (b_rpos b)\<lparr>pos_idx := pos_idx (b_rpos b) - n\<rparr>"
    "writeSize (dropChunks n b) = writeSize b" by (simp_all add: writeSize_def)
  have n: "n < length (b_chunks b)" "n < length (b_sizes b)"
    using assms(2) w by linarith+
  show "buf_ok (dropChunks n b)"
    using assms w n by (auto simp: buf_ok_def st dest: in_set_dropD)
  have "segs (dropChunks n b) = drop n (segs b)"
    by (simp add: segs_def st drop_map drop_zip)
  then show "contents (dropChunks n b) = contents b"
    using assms(2) unread_drop by (simp add: contents_def st)
  show "flowing (dropChunks n b)" if "flowing b"
  proof -
    have "0 < drop n (b_sizes b) ! i" if "pos_idx (b_rpos b) - n < i" "i < pos_idx (b_wpos b) - n" for i
    proof -
      have "pos_idx (b_rpos b) < n + i" "n + i < pos_idx (b_wpos b)"
        using that assms(2) by linarith+
      then show ?thesis
        using \<open>flowing b\<close> w(3) by (simp add: flowing_def)
    qed
    then show ?thesis
      using that assms w by (auto simp: flowing_def st)
  qed
qed

text \<open>Moving the read position forward inside its chunk, and to the start of the next one.\<close>

lemma read_forward:
  assumes "buf_ok b" "pos_off (b_rpos b) + k \<le> b_sizes b ! pos_idx (b_rpos b)"
  shows "buf_ok (b\<lparr>b_rpos := (b_rpos b)\<lparr>pos_off := pos_off (b_rpos b) + k\<rparr>\<rparr>)"
    "contents (b\<lparr>b_rpos := (b_rpos b)\<lparr>pos_off := pos_off (b_rpos b) + k\<rparr>\<rparr>) = drop k (contents b)"
  using assms
  by (auto simp: buf_ok_def contents_def segs_def unread_def add.commute)

lemma read_next_chunk:
  assumes "buf_ok b" "pos_idx (b_rpos b) < pos_idx (b_wpos b)"
  shows "buf_ok (b\<lparr>b_rpos := \<lparr>pos_idx = pos_idx (b_rpos b) + 1, pos_off = 0\<rparr>\<rparr>)"
    "contents (b\<lparr>b_rpos := \<lparr>pos_idx = pos_idx (b_rpos b) + 1, pos_off = 0\<rparr>\<rparr>) =
       drop (b_sizes b ! pos_idx (b_rpos b) - pos_off (b_rpos b)) (contents b)"
    "flowing b \<Longrightarrow> flowing (b\<lparr>b_rpos := \<lparr>pos_idx = pos_idx (b_rpos b) + 1, pos_off = 0\<rparr>\<rparr>)"
proof -
  let ?i = "pos_idx (b_rpos b)"
  have i: "?i < length (segs b)" "length (segs b ! ?i) = b_sizes b ! ?i" "pos_off (b_rpos b) \<le> b_sizes b ! ?i"
    using assms length_segs nth_segs by (auto simp: buf_ok_def)
  show "buf_ok (b\<lparr>b_rpos := \<lparr>pos_idx = ?i + 1, pos_off = 0\<rparr>\<rparr>)"
    using assms by (auto simp: buf_ok_def)
  show "contents (b\<lparr>b_rpos := \<lparr>pos_idx = ?i + 1, pos_off = 0\<rparr>\<rparr>) =
      drop (b_sizes b ! ?i - pos_off (b_rpos b)) (contents b)"
    using unread_step [OF i(1)] i by (simp add: contents_def segs_def)
  show "flowing (b\<lparr>b_rpos := \<lparr>pos_idx = ?i + 1, pos_off = 0\<rparr>\<rparr>)" if "flowing b"
    using that by (auto simp: flowing_def)
qed

text \<open>What \<open>consume_loop\<close> leaves: the chunks untouched, the read position moved over \<open>k\<close> of them.\<close>

definition consumed_to :: "nat \<Rightarrow> nat \<Rightarrow> nat \<Rightarrow> buffer \<Rightarrow> buffer \<Rightarrow> bool" where
  "consumed_to bytes left k b b' \<longleftrightarrow>
     left \<le> bytes \<and> buf_ok b' \<and> contents b' = drop (bytes - left) (contents b) \<and>
     (flowing b \<longrightarrow> flowing b') \<and> pos_idx (b_rpos b') = pos_idx (b_rpos b) + k \<and>
     (left > 0 \<longrightarrow> pos_idx (b_rpos b') = pos_idx (b_wpos b')) \<and> writeSize b' = writeSize b"

lemma consumed_to_trans:
  assumes "consumed_to n1 left k b1 b2" "contents b1 = drop (n - n1) (contents b)" "n1 \<le> n"
    "flowing b \<longrightarrow> flowing b1" "pos_idx (b_rpos b1) = pos_idx (b_rpos b) + j" "writeSize b1 = writeSize b"
  shows "consumed_to n left (j + k) b b2"
  using assms by (auto simp: consumed_to_def add.commute)

lemma consume_loop_0: "consume_loop 0 n b = Inr (0, n, b)"
  by (simp add: consume_loop.simps)

lemma consume_loop_ok:
  assumes "buf_ok b"
  shows "\<exists>left k b'. consume_loop bytes n b = Inr (left, n + k, b') \<and> consumed_to bytes left k b b'"
  using assms
proof (induction bytes n b rule: consume_loop.induct)
  case (1 bytes n b)
  let ?i = "pos_idx (b_rpos b)" and ?off = "pos_off (b_rpos b)"
  let ?rs = "b_sizes b ! ?i - ?off"
  show ?case
  proof (cases "bytes > 0 \<and> ?i < pos_idx (b_wpos b)")
    case False
    then show ?thesis
      using 1(3) buf_ok_wpos(5) [OF 1(3)] by (subst consume_loop.simps) (auto simp: consumed_to_def)
  next
    case True
    have i: "?i < length (b_sizes b)" "?off \<le> b_sizes b ! ?i"
      using 1(3) by (auto simp: buf_ok_def)
    show ?thesis
    proof (cases "?rs \<le> bytes")
      case full: True
      let ?b1 = "b\<lparr>b_rpos := \<lparr>pos_idx = ?i + 1, pos_off = 0\<rparr>\<rparr>"
      note b1 = read_next_chunk [OF 1(3) conjunct2 [OF True]]
      have "?rs = 0 \<or> b_sizes b ! ?i - (?off + min bytes ?rs) = 0"
        using full by auto
      then have eq: "consume_loop bytes n b = consume_loop (bytes - ?rs) (n + 1) ?b1"
        using True i full by (subst consume_loop.simps) (simp add: Let_def min_absorb2)
      obtain left k b' where "consume_loop (bytes - ?rs) (n + 1) ?b1 = Inr (left, n + 1 + k, b')"
        "consumed_to (bytes - ?rs) left k ?b1 b'"
        using 1(1) [OF True i(1) refl refl refl refl] b1(1) full
        by (auto simp: min_absorb2)
      then show ?thesis
        using consumed_to_trans [of "bytes - ?rs" left k ?b1 b' bytes b 1] b1 full eq
        by (auto simp: writeSize_def)
    next
      case part: False
      let ?b1 = "b\<lparr>b_rpos := (b_rpos b)\<lparr>pos_off := ?off + bytes\<rparr>\<rparr>"
      have eq: "consume_loop bytes n b = Inr (0, n, ?b1)"
        using True i part by (subst consume_loop.simps) (auto simp: Let_def min_absorb1 consume_loop_0)
      have "consumed_to bytes 0 0 b ?b1"
        using read_forward [OF 1(3), of bytes] part
        by (auto simp: consumed_to_def flowing_def writeSize_def)
      then show ?thesis
        using eq by auto
    qed
  qed
qed

lemma contents_in_last:
  assumes "buf_ok b" "pos_idx (b_rpos b) = pos_idx (b_wpos b)"
  shows "length (contents b) = b_sizes b ! pos_idx (b_rpos b) - pos_off (b_rpos b)"
proof -
  have i: "pos_idx (b_rpos b) < length (segs b)" "length (segs b ! pos_idx (b_rpos b)) = b_sizes b ! pos_idx (b_rpos b)"
    "pos_off (b_rpos b) \<le> length (segs b ! pos_idx (b_rpos b))" "Suc (pos_idx (b_rpos b)) = length (segs b)"
    using assms length_segs nth_segs by (auto simp: buf_ok_def)
  then show ?thesis
    using unread_step [OF i(1,3)] by (simp add: contents_def) (simp add: unread_def)
qed

lemma consume_drops:
  assumes "buf_ok b"
  shows "\<exists>b'. consume n b = Inr b' \<and> buf_ok b' \<and> contents b' = drop n (contents b) \<and>
    (flowing b \<longrightarrow> flowing b') \<and> pos_idx (b_rpos b') = pos_idx (b_rpos b) \<and> writeSize b' = writeSize b"
proof -
  obtain left k b1 where l: "consume_loop n 0 b = Inr (left, k, b1)" and c: "consumed_to n left k b b1"
    using consume_loop_ok [OF assms, of n 0] by auto
  let ?i = "pos_idx (b_rpos b1)"
  let ?m = "min left (b_sizes b1 ! ?i - pos_off (b_rpos b1))"
  let ?b2 = "b1\<lparr>b_rpos := (b_rpos b1)\<lparr>pos_off := pos_off (b_rpos b1) + ?m\<rparr>\<rparr>"
  have ok1: "buf_ok b1" and i: "?i < length (b_sizes b1)" "pos_off (b_rpos b1) \<le> b_sizes b1 ! ?i"
    using c by (auto simp: consumed_to_def buf_ok_def)
  then have "pos_off (b_rpos b1) + ?m \<le> b_sizes b1 ! ?i"
    by auto
  note b2 = read_forward [OF ok1 this]
  have d: "drop ?m (contents b1) = drop left (contents b1)"
  proof (cases "left > 0")
    case True
    then have "length (contents b1) = b_sizes b1 ! ?i - pos_off (b_rpos b1)"
      using c contents_in_last [OF ok1] by (simp add: consumed_to_def)
    then show ?thesis by (simp add: min_def)
  qed simp
  have fl: "flowing b \<longrightarrow> flowing ?b2"
    using c by (cases "left > 0") (auto simp: consumed_to_def flowing_def)
  have eq: "consume n b = Inr (dropChunks k ?b2)"
    using l i by (cases "left > 0") (auto simp: consume_def readSize_def deque_at_def)
  have k: "k \<le> pos_idx (b_rpos ?b2)"
    using c by (simp add: consumed_to_def)
  show ?thesis
    using dropChunks_ok [OF b2(1) k] c b2(2) d fl eq
    by (auto simp: consumed_to_def writeSize_def)
qed

section \<open>Reserving and counting\<close>

lemma reserve_room:
  assumes "buf_ok b" "n \<le> BlockSize"
  shows "\<exists>b'. reserve raw n b = (True, b') \<and> buf_ok b' \<and> contents b' = contents b \<and> n \<le> writeSize b' \<and>
    (compact b \<longrightarrow> compact b') \<and> (flowing b \<and> (0 < n \<or> \<not> drained b) \<longrightarrow> flowing b' \<and> (0 < n \<longrightarrow> \<not> drained b'))"
proof (cases "n \<le> writeSize b")
  case True
  then show ?thesis
    using assms by (intro exI [of _ b]) (auto simp: reserve_def writeSize_def drained_def)
next
  case small: False
  then have n: "0 < n" "0 < pos_off (b_wpos b)"
    using assms by (auto simp: writeSize_def)
  note c = with_chunk_ok [OF assms(1), of raw]
  have room: "n \<le> writeSize (with_chunk raw b)" "\<not> drained (with_chunk raw b)"
    using assms(2) c(5) by (auto simp: writeSize_def drained_def BlockSize_def)
  have w: "pos_idx (b_wpos b) = length (b_chunks b) - 1" "0 < length (b_chunks b)"
    using assms by (auto simp: buf_ok_def)
  show ?thesis
  proof (cases "b_rpos b = b_wpos b")
    case False
    then have "reserve raw n b = (True, with_chunk raw b)"
      using small assms(2) by (simp add: reserve_def writeSize_def Let_def)
    then show ?thesis
      using c room n False by (auto simp: compact_def)
  next
    case True
    let ?c = "with_chunk raw b"
    let ?b1 = "?c\<lparr>b_rpos := b_wpos ?c\<rparr>"
    have eq: "reserve raw n b = (True, dropChunks 1 ?b1)"
      using small assms(2) True by (simp add: reserve_def writeSize_def Let_def)
    have ok1: "buf_ok ?b1" "flowing ?b1" "writeSize ?b1 = writeSize ?c"
      using c(1) buf_ok_wpos [OF c(1)] by (auto simp: buf_ok_def flowing_def writeSize_def)
    have "contents ?b1 = []" "contents b = []"
      using contents_in_last [OF ok1(1)] contents_in_last [OF assms(1)] True
        buf_ok_wpos(4) [OF c(1)] buf_ok_wpos(4) [OF assms(1)] by simp_all
    moreover have "1 \<le> pos_idx (b_rpos ?b1)"
      using c(5) w by (simp add: Suc_le_eq)
    note d = dropChunks_ok [OF ok1(1) this]
    moreover have "compact b \<longrightarrow> compact (dropChunks 1 ?b1)"
      using d(4) c(5) w True by (simp add: compact_def)
    ultimately show ?thesis
      using eq room ok1 by (auto simp: drained_def)
  qed
qed

lemma byteCount_contents:
  assumes "buf_ok b" "compact b"
  shows "byteCount b = Inr (length (contents b))"
proof -
  have i: "0 < length (segs b)" "pos_off (b_rpos b) \<le> length (segs b ! 0)" "length (segs b ! 0) = b_sizes b ! 0"
    "0 < length (b_sizes b)"
    using assms length_segs nth_segs by (auto simp: buf_ok_def compact_def)
  have "map length (segs b) = b_sizes b"
    using assms(1) by (auto simp: segs_def buf_ok_def intro!: nth_equalityI)
  then have "length (concat (drop 1 (segs b))) = sum_list (drop 1 (b_sizes b))"
    by (metis drop_map length_concat)
  then have "length (contents b) = b_sizes b ! 0 - pos_off (b_rpos b) + sum_list (drop 1 (b_sizes b))"
    using unread_step [OF i(1,2)] assms(2) i by (simp add: contents_def compact_def) (simp add: unread_def)
  then show ?thesis
    using assms(2) i(4) by (simp add: byteCount_def readSize_def deque_at_def compact_def)
qed

lemma readSize_flowing:
  assumes "buf_ok b" "flowing b"
  shows "\<exists>n. readSize b = Inr n \<and> n \<le> length (contents b) \<and> (contents b \<noteq> [] \<longrightarrow> 0 < n) \<and>
    peek n b = Inr (take n (contents b))"
proof -
  let ?i = "pos_idx (b_rpos b)" and ?n = "b_sizes b ! pos_idx (b_rpos b) - pos_off (b_rpos b)"
  have i: "?i < length (segs b)" "length (segs b ! ?i) = b_sizes b ! ?i" "pos_off (b_rpos b) \<le> length (segs b ! ?i)"
    "?i < length (b_sizes b)" "?i < length (b_chunks b)" "b_sizes b ! ?i \<le> BlockSize"
    "length (b_chunks b ! ?i) = BlockSize"
    using assms length_segs nth_segs by (auto simp: buf_ok_def)
  note u = unread_step [OF i(1,3)]
  have "segs b ! ?i = take (b_sizes b ! ?i) (b_chunks b ! ?i)"
    using i by (simp add: segs_def)
  then have "peek ?n b = Inr (drop (pos_off (b_rpos b)) (segs b ! ?i))"
    using i by (auto simp: peek_def deque_at_def drop_take)
  moreover have "0 < ?n" if "contents b \<noteq> []"
  proof (cases "?i = pos_idx (b_wpos b)")
    case True
    then show ?thesis
      using that contents_in_last [OF assms(1)] by (metis length_greater_0_conv)
  next
    case False
    then show ?thesis
      using assms(2) buf_ok_wpos(5) [OF assms(1)] by (simp add: flowing_def)
  qed
  ultimately show ?thesis
    using u i by (intro exI [of _ ?n]) (auto simp: readSize_def deque_at_def contents_def)
qed

section \<open>Iterators yield the contents\<close>

definition it_rest :: "buffer \<Rightarrow> iterator \<Rightarrow> char list" where
  "it_rest b it = unread (pos_idx (it_pos it)) (pos_off (it_pos it)) (segs b)"

text \<open>An iterator is good when a buffer that is read from its position would be good and flowing.\<close>

definition it_ok :: "buffer \<Rightarrow> iterator \<Rightarrow> bool" where
  "it_ok b it \<longleftrightarrow>
     buf_ok (b\<lparr>b_rpos := it_pos it\<rparr>) \<and> flowing (b\<lparr>b_rpos := it_pos it\<rparr>) \<and> it_chunk it = pos_idx (it_pos it) \<and>
     it_budget it = b_sizes b ! pos_idx (it_pos it) - pos_off (it_pos it)"

lemma it_rest_contents: "it_rest b it = contents (b\<lparr>b_rpos := it_pos it\<rparr>)"
  by (simp add: it_rest_def contents_def segs_def)

lemma begin_ok:
  assumes "buf_ok b" "flowing b" "compact b"
  shows "\<exists>it. buffer_begin b = Inr it \<and> it_ok b it \<and> it_rest b it = contents b \<and> it_bytes_read it = 0 \<and>
    it_bytes_total it = length (contents b)"
proof -
  have "pos_idx (b_rpos b) < length (b_sizes b)"
    using assms by (auto simp: buf_ok_def)
  then show ?thesis
    using assms byteCount_contents [OF assms(1,3)]
    by (simp add: buffer_begin_def new_iterator_def getBudget_def deque_at_def it_ok_def it_rest_contents)
qed

lemma it_budget_pos:
  assumes "it_ok b it" "it_rest b it \<noteq> []"
  shows "0 < it_budget it"
  using readSize_flowing [of "b\<lparr>b_rpos := it_pos it\<rparr>"] assms
  by (auto simp: it_ok_def it_rest_contents readSize_def deque_at_def split: if_splits)

lemma eob_iff:
  assumes "it_ok b it"
  shows "eob b it \<longleftrightarrow> it_rest b it = []"
proof
  assume "eob b it"
  then have "pos_idx (it_pos it) = pos_idx (b_wpos b)" "it_budget it = 0"
    by (auto simp: eob_def split: if_splits)
  then show "it_rest b it = []"
    using it_budget_pos [OF assms] by force
next
  let ?b = "b\<lparr>b_rpos := it_pos it\<rparr>"
  assume e: "it_rest b it = []"
  have ok: "buf_ok ?b" "flowing ?b" "it_budget it = b_sizes b ! pos_idx (it_pos it) - pos_off (it_pos it)"
    using assms by (auto simp: it_ok_def)
  have "it_budget it = 0"
    using readSize_flowing [OF ok(1,2)] e ok(3)
    by (auto simp: it_rest_contents readSize_def deque_at_def split: if_splits)
  moreover have "\<not> pos_idx (it_pos it) < pos_idx (b_wpos b)"
    using ok calculation by (auto simp: flowing_def)
  then have "pos_idx (it_pos it) = pos_idx (b_wpos b)"
    using buf_ok_wpos(5) [OF ok(1)] by simp
  moreover have "pos_off (it_pos it) = pos_off (b_wpos b)"
    using calculation ok buf_ok_wpos(4) [OF ok(1)] by (auto simp: buf_ok_def)
  ultimately show "eob b it"
    by (simp add: eob_def)
qed

lemma it_rest_in_chunk:
  assumes "it_ok b it" "it_rest b it \<noteq> []"
  obtains i off where "it_pos it = \<lparr>pos_idx = i, pos_off = off\<rparr>" "i < length (b_sizes b)" "i < length (b_chunks b)"
    "off < b_sizes b ! i" "b_sizes b ! i \<le> BlockSize" "length (b_chunks b ! i) = BlockSize" "it_chunk it = i"
    "it_budget it = b_sizes b ! i - off" "it_rest b it = b_chunks b ! i ! off # unread i (Suc off) (segs b)"
proof -
  let ?b = "b\<lparr>b_rpos := it_pos it\<rparr>"
  obtain i off where p: "it_pos it = \<lparr>pos_idx = i, pos_off = off\<rparr>" by (cases "it_pos it")
  have ok: "buf_ok ?b" "it_chunk it = i" "it_budget it = b_sizes b ! i - off"
    using assms p by (auto simp: it_ok_def)
  then have i: "i < length (b_sizes b)" "i < length (b_chunks b)" "b_sizes b ! i \<le> BlockSize"
    "length (b_chunks b ! i) = BlockSize" "off \<le> b_sizes b ! i"
    using p by (auto simp: buf_ok_def)
  have off: "off < b_sizes b ! i"
    using it_budget_pos [OF assms] ok(3) by simp
  have sg: "i < length (segs b)" "segs b ! i = take (b_sizes b ! i) (b_chunks b ! i)"
    using i by (simp_all add: segs_def)
  then have len: "length (segs b ! i) = b_sizes b ! i"
    using i by simp
  have "drop off (segs b ! i) = b_chunks b ! i ! off # drop (Suc off) (segs b ! i)"
    using off sg len i Cons_nth_drop_Suc [of off "segs b ! i"] by simp
  then have "it_rest b it = b_chunks b ! i ! off # unread i (Suc off) (segs b)"
    using unread_step [OF sg(1)] off len p by (simp add: it_rest_def)
  then show thesis
    using that p i off ok by blast
qed

lemma getChar_ok:
  assumes "it_ok b it" "it_rest b it \<noteq> []"
  shows "getChar b it = Inr (hd (it_rest b it))"
proof -
  obtain i off where "it_pos it = \<lparr>pos_idx = i, pos_off = off\<rparr>" "i < length (b_chunks b)"
    "off < b_sizes b ! i" "b_sizes b ! i \<le> BlockSize" "length (b_chunks b ! i) = BlockSize" "it_chunk it = i"
    "it_rest b it = b_chunks b ! i ! off # unread i (Suc off) (segs b)"
    using it_rest_in_chunk [OF assms] by metis
  then show ?thesis
    by (simp add: getChar_def deque_at_def)
qed

lemma next_ok:
  assumes "it_ok b it" "it_rest b it \<noteq> []"
  shows "\<exists>it'. it_next b it = Inr it' \<and> it_ok b it' \<and> it_rest b it' = tl (it_rest b it) \<and>
    it_bytes_read it' = it_bytes_read it + 1 \<and> it_bytes_total it' = it_bytes_total it"
proof -
  obtain i off where p: "it_pos it = \<lparr>pos_idx = i, pos_off = off\<rparr>" and i: "i < length (b_sizes b)"
    "off < b_sizes b ! i" "it_chunk it = i" "it_budget it = b_sizes b ! i - off"
    and r: "it_rest b it = b_chunks b ! i ! off # unread i (Suc off) (segs b)"
    using it_rest_in_chunk [OF assms] by metis
  let ?b = "b\<lparr>b_rpos := it_pos it\<rparr>"
  have ok: "buf_ok ?b" "flowing ?b"
    using assms by (auto simp: it_ok_def)
  show ?thesis
  proof (cases "Suc off = b_sizes b ! i \<and> i < pos_idx (b_wpos b)")
    case True
    let ?it' = "it\<lparr>it_pos := \<lparr>pos_idx = Suc i, pos_off = 0\<rparr>, it_bytes_read := it_bytes_read it + 1,
      it_chunk := Suc i, it_budget := b_sizes b ! Suc i\<rparr>"
    have "it_next b it = Inr ?it'"
      using True p i buf_ok_wpos(3) [OF ok(1)]
      by (auto simp: it_next_def slowNext_def getBudget_def deque_at_def Let_def)
    moreover have "it_ok b ?it'" "it_rest b ?it' = unread i (Suc off) (segs b)"
      using read_next_chunk [OF ok(1)] ok(2) True p by (auto simp: it_ok_def it_rest_def contents_def segs_def unread_def)
    ultimately show ?thesis
      using r by auto
  next
    case False
    let ?it' = "it\<lparr>it_pos := \<lparr>pos_idx = i, pos_off = Suc off\<rparr>, it_bytes_read := it_bytes_read it + 1,
      it_budget := b_sizes b ! i - Suc off\<rparr>"
    have "it_next b it = Inr ?it'"
      using False p i by (cases "it_budget it > 1")
        (auto simp: it_next_def slowNext_def getBudget_def deque_at_def Let_def)
    moreover have "it_ok b ?it'"
      using read_forward(1) [OF ok(1), of 1] ok(2) False p i by (auto simp: it_ok_def flowing_def)
    ultimately show ?thesis
      using r by (auto simp: it_rest_def)
  qed
qed

end
