(* ===== verification/Buffer_Transfer.thy ===== *)
theory Buffer_Transfer
  imports Buffer_Correct
begin

text \<open>
  Moving and copying between buffers, and the streams of operations on one buffer: every history of
  writes and consumes behaves as on a queue of bytes.  The last section has the states in which the
  code's buffers stop behaving as streams.
\<close>

section \<open>A buffer without its empty last chunk\<close>

text \<open>
  Between \<open>maybeRemoveLastChunk\<close> and the end of \<open>appendFrom\<close> a buffer may have no chunk at the read
  position.
\<close>

definition shape :: "buffer \<Rightarrow> bool" where
  "shape b \<longleftrightarrow> length (b_sizes b) = length (b_chunks b) \<and>
     (\<forall>c \<in> set (b_chunks b). length c = BlockSize) \<and> (\<forall>n \<in> set (b_sizes b). n \<le> BlockSize) \<and>
     (if pos_idx (b_rpos b) < length (b_sizes b) then pos_off (b_rpos b) \<le> b_sizes b ! pos_idx (b_rpos b)
      else pos_idx (b_rpos b) = length (b_sizes b) \<and> pos_off (b_rpos b) = 0)"

lemma removed_last:
  assumes "buf_ok b"
  shows "\<exists>l b'. maybeRemoveLastChunk b = Inr (l, b') \<and> shape b' \<and> contents b' = contents b \<and>
    concat (segs b') = concat (segs b) \<and> b_rpos b' = b_rpos b \<and> b_wpos b' = b_wpos b \<and>
    (last (b_sizes b) \<noteq> 0 \<longrightarrow> l = None \<and> b' = b) \<and>
    (last (b_sizes b) = 0 \<longrightarrow> b_chunks b' = butlast (b_chunks b) \<and> (\<exists>c. l = Some c \<and> length c = BlockSize))"
proof (cases "last (b_sizes b) = 0")
  case False
  moreover have "shape b"
    using assms by (auto simp: buf_ok_def shape_def)
  ultimately show ?thesis
    using buf_ok_wpos [OF assms] assms by (simp add: maybeRemoveLastChunk_def deque_at_def buf_ok_def)
next
  case True
  obtain cs c ns n where b: "b_chunks b = cs @ [c]" "b_sizes b = ns @ [n]" "length cs = length ns"
    "length c = BlockSize" "n \<le> BlockSize" "b_wpos b = \<lparr>pos_idx = length ns, pos_off = n\<rparr>"
    "\<forall>c \<in> set cs. length c = BlockSize" "\<forall>n \<in> set ns. n \<le> BlockSize" "pos_idx (b_rpos b) \<le> length ns"
    "pos_off (b_rpos b) \<le> (ns @ [n]) ! pos_idx (b_rpos b)"
    using buf_ok_last [OF assms] by metis
  let ?b' = "b\<lparr>b_chunks := cs, b_sizes := ns\<rparr>"
  have n: "n = 0" using True b by simp
  have sg: "segs b = segs ?b' @ [[]]"
    using segs_snoc [OF b(3,1,2)] n by (simp add: segs_def)
  have sh: "shape ?b'"
    using b n by (auto simp: shape_def nth_append split: if_splits)
  have len: "length (segs ?b') = length ns" "pos_idx (b_rpos b) < length ns \<Longrightarrow>
      length (segs ?b' ! pos_idx (b_rpos b)) = ns ! pos_idx (b_rpos b)"
    using b by (auto simp: segs_def)
  have "contents ?b' = contents b"
  proof (cases "pos_idx (b_rpos b) < length ns")
    case True
    then show ?thesis
      using unread_append [of "pos_idx (b_rpos b)" "segs ?b'" "pos_off (b_rpos b)" "[[]]"] len b(10) sg
      by (simp add: contents_def nth_append)
  next
    case False
    then show ?thesis
      using len b(9) sg by (simp add: contents_def unread_def)
  qed
  moreover have "maybeRemoveLastChunk b = Inr (Some c, ?b')"
    using b n by (simp add: maybeRemoveLastChunk_def deque_at_def nth_append)
  ultimately show ?thesis
    using sh sg b n by (intro exI [of _ "Some c"] exI [of _ ?b']) auto
qed

text \<open>A buffer of the given shape with chunks of another one behind it.\<close>

lemma shape_append:
  assumes "shape a" "length ns = length cs" "\<forall>c \<in> set cs. length c = BlockSize" "\<forall>n \<in> set ns. n \<le> BlockSize"
    and "cs \<noteq> []"
  defines "b \<equiv> a\<lparr>b_chunks := b_chunks a @ cs, b_sizes := b_sizes a @ ns\<rparr>"
  shows "pos_idx (b_rpos b) < length (b_sizes b)" "pos_off (b_rpos b) \<le> b_sizes b ! pos_idx (b_rpos b)"
    "contents b = contents a @ concat (map2 take ns cs)"
    "buf_ok (b\<lparr>b_wpos := \<lparr>pos_idx = length (b_chunks b) - 1, pos_off = last (b_sizes b)\<rparr>\<rparr>)"
proof -
  have sz: "b_sizes b = b_sizes a @ ns" "b_chunks b = b_chunks a @ cs" "b_rpos b = b_rpos a"
    by (simp_all add: b_def)
  have sa: "length (b_sizes a) = length (b_chunks a)"
    using assms(1) by (simp add: shape_def)
  show 1: "pos_idx (b_rpos b) < length (b_sizes b)" and 2: "pos_off (b_rpos b) \<le> b_sizes b ! pos_idx (b_rpos b)"
    using assms(1,2,5) by (auto simp: shape_def sz nth_append split: if_splits)
  have sg: "segs b = segs a @ map2 take ns cs" "length (segs a) = length (b_sizes a)"
    using sa by (simp_all add: segs_def sz)
  show "contents b = contents a @ concat (map2 take ns cs)"
  proof (cases "pos_idx (b_rpos a) < length (b_sizes a)")
    case True
    then have "pos_off (b_rpos a) \<le> length (segs a ! pos_idx (b_rpos a))"
      using assms(1) sa by (auto simp: shape_def segs_def)
    then show ?thesis
      using unread_append [of "pos_idx (b_rpos a)" "segs a"] True sg by (simp add: contents_def sz)
  next
    case False
    then show ?thesis
      using assms(1) sg by (auto simp: shape_def contents_def sz unread_def split: if_splits)
  qed
  show "buf_ok (b\<lparr>b_wpos := \<lparr>pos_idx = length (b_chunks b) - 1, pos_off = last (b_sizes b)\<rparr>\<rparr>)"
    using assms(1-5) 1 2 by (auto simp: buf_ok_def shape_def sz)
qed

lemma contents_wpos [simp]: "contents (b\<lparr>b_wpos := w\<rparr>) = contents b"
  by (simp add: contents_def segs_def)

lemma contents_unconsumed: "\<not> isConsumed b \<Longrightarrow> contents b = concat (segs b)"
  by (simp add: isConsumed_def contents_def unread_def)

lemma buf_ok_move_rpos:
  assumes "buf_ok b" "b_sizes b ! pos_idx (b_rpos b) - pos_off (b_rpos b) = 0" "pos_idx (b_rpos b) < length (b_chunks b) - 1"
  shows "buf_ok (b\<lparr>b_rpos := \<lparr>pos_idx = pos_idx (b_rpos b) + 1, pos_off = 0\<rparr>\<rparr>)"
    "contents (b\<lparr>b_rpos := \<lparr>pos_idx = pos_idx (b_rpos b) + 1, pos_off = 0\<rparr>\<rparr>) = contents b"
  using read_next_chunk [OF assms(1)] assms by (auto simp: buf_ok_def)

section \<open>Appending\<close>

text \<open>The chunks that \<open>appendFrom\<close> puts behind those of \<open>this\<close>, and their sizes.\<close>

definition tail_chunk :: "raw \<Rightarrow> char list option \<Rightarrow> buffer \<Rightarrow> char list" where
  "tail_chunk raw l this = (case l of None \<Rightarrow> map (raw (length (b_chunks this))) [0..<BlockSize] | Some c \<Rightarrow> c)"

lemma appendFrom_eq:
  fixes raw :: raw
  assumes "\<not> isConsumed other" "readSize other = Inr n" "0 < n"
    and "maybeRemoveLastChunk this = Inr (l, a)" "maybeRemoveLastChunk other = Inr (l2, o')" "b_sizes o' \<noteq> []"
  defines "full \<equiv> last (b_sizes o') = BlockSize"
  defines "cs \<equiv> b_chunks o' @ (if full then [tail_chunk raw l (a\<lparr>b_chunks := b_chunks a @ b_chunks o'\<rparr>)] else [])"
    and "ns \<equiv> b_sizes o' @ (if full then [0] else [])"
  defines "b \<equiv> a\<lparr>b_chunks := b_chunks a @ cs, b_sizes := b_sizes a @ ns\<rparr>"
  assumes "pos_idx (b_rpos b) < length (b_sizes b)"
  shows "\<exists>other'. appendFrom raw this other =
      Inr ((let b = (if b_sizes b ! pos_idx (b_rpos b) - pos_off (b_rpos b) = 0
                     then b\<lparr>b_rpos := \<lparr>pos_idx = pos_idx (b_rpos b) + 1, pos_off = 0\<rparr>\<rparr> else b)
            in b\<lparr>b_wpos := \<lparr>pos_idx = length (b_chunks b) - 1, pos_off = last (b_sizes b)\<rparr>\<rparr>), other') \<and>
      (l2 = None \<longrightarrow> other' = (new_buffer raw)) \<and>
      (\<forall>c. l2 = Some c \<longrightarrow> b_chunks other' = [c] \<and> b_sizes other' = [0] \<and> b_wpos other' = b_wpos o' \<and> b_rpos other' = b_wpos o')"
proof -
  have sn: "snd (addChunk raw x) =
      x\<lparr>b_chunks := b_chunks x @ [tail_chunk raw None x], b_sizes := b_sizes x @ [0]\<rparr>" for x
    by (simp add: addChunk_def tail_chunk_def)
  have t: "(if last (b_sizes (a\<lparr>b_chunks := b_chunks a @ b_chunks o', b_sizes := b_sizes a @ b_sizes o'\<rparr>)) = BlockSize then
       (case l of None \<Rightarrow> snd (addChunk raw (a\<lparr>b_chunks := b_chunks a @ b_chunks o', b_sizes := b_sizes a @ b_sizes o'\<rparr>))
        | Some c \<Rightarrow> (a\<lparr>b_chunks := b_chunks a @ b_chunks o', b_sizes := b_sizes a @ b_sizes o'\<rparr>)
            \<lparr>b_chunks := b_chunks (a\<lparr>b_chunks := b_chunks a @ b_chunks o', b_sizes := b_sizes a @ b_sizes o'\<rparr>) @ [c],
             b_sizes := b_sizes (a\<lparr>b_chunks := b_chunks a @ b_chunks o', b_sizes := b_sizes a @ b_sizes o'\<rparr>) @ [0]\<rparr>)
       else a\<lparr>b_chunks := b_chunks a @ b_chunks o', b_sizes := b_sizes a @ b_sizes o'\<rparr>) = b"
    using assms(6) unfolding b_def cs_def ns_def full_def sn by (auto simp: tail_chunk_def split: option.split)
  have rs: "readSize b = Inr (b_sizes b ! pos_idx (b_rpos b) - pos_off (b_rpos b))"
    using assms(11) by (simp add: readSize_def deque_at_def)
  show ?thesis
    unfolding appendFrom_def Let_def
    using assms(1-5) t rs
    by (simp add: new_buffer_def with_chunk_def addChunk_def Let_def split: option.split)
qed

lemma append_result:
  assumes me: "buf_ok this" and other: "buf_ok other" "flowing other" "\<not> isConsumed other"
  shows "\<exists>this' other'. appendFrom raw this other = Inr (this', other') \<and> buf_ok this' \<and>
    contents this' = contents this @ contents other \<and>
    (last (b_sizes other) \<noteq> 0 \<or> contents other = [] \<longrightarrow> buf_ok other' \<and> contents other' = []) \<and>
    (last (b_sizes other) = 0 \<and> contents other \<noteq> [] \<longrightarrow>
       length (b_sizes other') = 1 \<and> b_wpos other' = b_wpos other \<and> b_rpos other' = b_wpos other)"
proof (cases "contents other = []")
  case True
  then have "appendFrom raw this other = Inr (this, other)"
    using readSize_flowing [OF other(1,2)] other(3) by (auto simp: appendFrom_def)
  then show ?thesis
    using True assms by simp
next
  case False
  obtain n where n: "readSize other = Inr n" "0 < n"
    using readSize_flowing [OF other(1,2)] False by blast
  obtain l a where a: "maybeRemoveLastChunk this = Inr (l, a)" "shape a" "contents a = contents this"
      "b_rpos a = b_rpos this" "last (b_sizes this) \<noteq> 0 \<longrightarrow> a = this"
      "last (b_sizes this) = 0 \<longrightarrow> b_chunks a = butlast (b_chunks this)" "\<forall>c. l = Some c \<longrightarrow> length c = BlockSize"
    using removed_last [OF me] by fastforce
  obtain l2 o' where o: "maybeRemoveLastChunk other = Inr (l2, o')" "shape o'" "concat (segs o') = concat (segs other)"
      "last (b_sizes other) \<noteq> 0 \<longrightarrow> l2 = None" "b_wpos o' = b_wpos other" "last (b_sizes other) = 0 \<longrightarrow> (\<exists>c. l2 = Some c)"
    using removed_last [OF other(1)] by fastforce
  have oc: "concat (segs o') = contents other"
    using o(3) contents_unconsumed [OF other(3)] by simp
  then have one: "b_chunks o' \<noteq> []" "b_sizes o' \<noteq> []"
    using False by (auto simp: segs_def)
  let ?full = "last (b_sizes o') = BlockSize"
  let ?cs = "b_chunks o' @ (if ?full then [tail_chunk raw l (a\<lparr>b_chunks := b_chunks a @ b_chunks o'\<rparr>)] else [])"
  let ?ns = "b_sizes o' @ (if ?full then [0] else [])"
  let ?b = "a\<lparr>b_chunks := b_chunks a @ ?cs, b_sizes := b_sizes a @ ?ns\<rparr>"
  have "concat (map2 take ?ns ?cs) = contents other"
    using oc o(2) by (auto simp: segs_def shape_def)
  moreover have "length ?ns = length ?cs" "\<forall>c \<in> set ?cs. length c = BlockSize" "\<forall>n \<in> set ?ns. n \<le> BlockSize" "?cs \<noteq> []"
    using o(2) one a(7) by (auto simp: shape_def tail_chunk_def split: option.splits)
  ultimately have b: "pos_idx (b_rpos ?b) < length (b_sizes ?b)" "contents ?b = contents this @ contents other"
    "buf_ok (?b\<lparr>b_wpos := \<lparr>pos_idx = length (b_chunks ?b) - 1, pos_off = last (b_sizes ?b)\<rparr>\<rparr>)"
    using shape_append [OF a(2), of ?ns ?cs] a(3) by simp_all
  let ?b1 = "?b\<lparr>b_wpos := \<lparr>pos_idx = length (b_chunks ?b) - 1, pos_off = last (b_sizes ?b)\<rparr>\<rparr>"
  let ?move = "b_sizes ?b ! pos_idx (b_rpos ?b) - pos_off (b_rpos ?b) = 0"
  let ?b2 = "if ?move then ?b1\<lparr>b_rpos := \<lparr>pos_idx = pos_idx (b_rpos ?b1) + 1, pos_off = 0\<rparr>\<rparr> else ?b1"
  have "pos_idx (b_rpos ?b1) < length (b_chunks ?b1) - 1" if ?move
  proof (rule ccontr)
    assume "\<not> ?thesis"
    then have "pos_idx (b_rpos ?b1) = pos_idx (b_wpos ?b1)"
      using buf_ok_wpos(5) [OF b(3)] by simp
    then have "length (contents ?b1) = 0"
      using contents_in_last [OF b(3)] that by simp
    then show False using b(2) False by simp
  qed
  then have b2: "buf_ok ?b2" "contents ?b2 = contents this @ contents other"
    using buf_ok_move_rpos [OF b(3)] b by auto
  obtain other' where "appendFrom raw this other = Inr (?b2, other')" "l2 = None \<longrightarrow> other' = new_buffer raw"
    "\<forall>c. l2 = Some c \<longrightarrow> b_sizes other' = [0] \<and> b_wpos other' = b_wpos o' \<and> b_rpos other' = b_wpos o'"
    using appendFrom_eq [OF other(3) n a(1) o(1) one(2) b(1)] by (auto simp: Let_def split: if_splits)
  then show ?thesis
    using b2 o(4-6) False new_buffer_ok by auto
qed

section \<open>Copying\<close>

lemma copy_chunk_eq:
  assumes "buf_ok b" "length chunk = BlockSize" "len \<le> BlockSize"
  shows "copy_chunk raw first chunk len b =
    Inr (stored (take len chunk) (if \<not> first \<or> len > writeSize b then with_chunk raw b else b))"
proof -
  define b1 where "b1 = (if \<not> first \<or> len > writeSize b then with_chunk raw b else b)"
  have ok: "buf_ok b1"
    using assms with_chunk_ok(1) by (simp add: b1_def)
  have "len \<le> writeSize b1"
    using assms with_chunk_ok(5) by (simp add: b1_def writeSize_def)
  then have "poke (take len chunk) b1 = Inr (b1\<lparr>b_chunks := b_chunks (stored (take len chunk) b1)\<rparr>)"
    using assms(2,3) ok by (intro advance_poked) simp_all
  moreover have "length (take len chunk) = len"
    using assms by simp
  ultimately show ?thesis
    unfolding copy_chunk_def b1_def [symmetric] Let_def
    using buf_ok_wpos [OF ok] by (simp add: deque_at_def stored_def Let_def)
qed

lemma copy_chunks_appends:
  assumes "buf_ok b" "\<forall>(c, n) \<in> set xs. length c = BlockSize \<and> n \<le> BlockSize"
  shows "\<exists>b'. copy_chunks raw first xs b = Inr b' \<and> buf_ok b' \<and> b_rpos b' = b_rpos b \<and>
    contents b' = contents b @ concat (map (\<lambda>(c, n). take n c) xs)"
  using assms
proof (induction xs arbitrary: first b)
  case (Cons x xs)
  obtain c n where x: "x = (c, n)" "length c = BlockSize" "n \<le> BlockSize"
    using Cons.prems(2) by (cases x) auto
  let ?b1 = "if \<not> first \<or> n > writeSize b then with_chunk raw b else b"
  have ok: "buf_ok ?b1" "contents ?b1 = contents b" "b_rpos ?b1 = b_rpos b"
    using Cons.prems(1) with_chunk_ok by auto
  have "length (take n c) \<le> writeSize ?b1"
    using x Cons.prems with_chunk_ok(5) by (simp add: writeSize_def)
  note s = stored_ok [OF ok(1) this]
  show ?case
    using Cons.IH [OF s(1), of False] Cons.prems(2) copy_chunk_eq [OF Cons.prems(1) x(2,3), of raw first] s ok x
    by auto
qed simp

lemma copy_result:
  assumes "buf_ok this" "buf_ok other" "flowing other" "\<not> isConsumed other"
  shows "\<exists>this'. copyFrom raw this other = Inr this' \<and> buf_ok this' \<and> b_rpos this' = b_rpos this \<and>
    contents this' = contents this @ contents other"
proof (cases "contents other = []")
  case True
  then show ?thesis
    using readSize_flowing [OF assms(2,3)] assms(1,4) by (auto simp: copyFrom_def)
next
  case False
  obtain n where n: "readSize other = Inr n" "0 < n"
    using readSize_flowing [OF assms(2,3)] False by blast
  have "\<forall>(c, n) \<in> set (zip (b_chunks other) (b_sizes other)). length c = BlockSize \<and> n \<le> BlockSize"
    using assms(2) by (auto simp: buf_ok_def dest: set_zip_leftD set_zip_rightD)
  moreover have "map (\<lambda>(c, n). take n c) (zip (b_chunks other) (b_sizes other)) = segs other"
    using assms(2) by (auto simp: segs_def buf_ok_def intro!: nth_equalityI)
  ultimately obtain b' where b': "copy_chunks raw True (zip (b_chunks other) (b_sizes other)) this = Inr b'"
    "buf_ok b'" "b_rpos b' = b_rpos this" "contents b' = contents this @ contents other"
    using copy_chunks_appends [OF assms(1)] contents_unconsumed [OF assms(4)] by metis
  then show ?thesis
    using n assms(4) with_chunk_ok [OF b'(2), of raw]
    by (simp add: copyFrom_def)
qed

section \<open>Streams\<close>

text \<open>What a client of a stream of bytes relies on.\<close>

datatype stream_op = Put "char list" | Take nat

primrec run_op :: "(char list \<Rightarrow> 'b \<Rightarrow> 'b result) \<Rightarrow> (nat \<Rightarrow> 'b \<Rightarrow> 'b result) \<Rightarrow> stream_op \<Rightarrow> 'b \<Rightarrow> 'b result" where
  "run_op put take_from (Put data) b = put data b"
| "run_op put take_from (Take n) b = take_from n b"

primrec run_ops :: "(char list \<Rightarrow> 'b \<Rightarrow> 'b result) \<Rightarrow> (nat \<Rightarrow> 'b \<Rightarrow> 'b result) \<Rightarrow> stream_op list \<Rightarrow> 'b \<Rightarrow> 'b result" where
  "run_ops put take_from [] b = Inr b"
| "run_ops put take_from (p # ps) b = rbind (run_op put take_from p b) (run_ops put take_from ps)"

text \<open>The queue of bytes that is the specification.\<close>

primrec queue_op :: "char list \<Rightarrow> stream_op \<Rightarrow> char list" where
  "queue_op q (Put data) = q @ data"
| "queue_op q (Take n) = drop n q"

locale byte_stream =
  fixes ok :: "'b \<Rightarrow> bool"
    and stream :: "'b \<Rightarrow> char list"
    and put :: "char list \<Rightarrow> 'b \<Rightarrow> 'b result"
    and take_from :: "nat \<Rightarrow> 'b \<Rightarrow> 'b result"
  assumes put: "ok b \<Longrightarrow> \<exists>b'. put data b = Inr b' \<and> ok b' \<and> stream b' = stream b @ data"
    and take_from: "ok b \<Longrightarrow> \<exists>b'. take_from n b = Inr b' \<and> ok b' \<and> stream b' = drop n (stream b)"
begin

lemma op_step:
  assumes "ok b"
  shows "\<exists>b'. run_op put take_from p b = Inr b' \<and> ok b' \<and> stream b' = queue_op (stream b) p"
  using put [OF assms] take_from [OF assms] by (cases p) auto

lemma run_stream:
  assumes "ok b"
  shows "\<exists>b'. run_ops put take_from ps b = Inr b' \<and> ok b' \<and> stream b' = foldl queue_op (stream b) ps"
  using assms
proof (induction ps arbitrary: b)
  case (Cons p ps)
  obtain b1 where "run_op put take_from p b = Inr b1" "ok b1" "stream b1 = queue_op (stream b) p"
    using op_step [OF Cons.prems] by blast
  then show ?case
    using Cons.IH [of b1] by auto
qed simp

end

definition stream_ok :: "buffer \<Rightarrow> bool" where
  "stream_ok b \<longleftrightarrow> buf_ok b \<and> flowing b \<and> compact b \<and> 0 < writeSize b"

lemma buffer_write_room:
  assumes "buf_ok b" "0 < writeSize b"
  shows "\<exists>b'. buffer_write raw data b = Inr b' \<and> 0 < writeSize b'"
  using assms
proof (induction raw data b rule: buffer_write.induct)
  case (1 raw data b)
  show ?case
  proof (cases "data = []")
    case False
    obtain b1 where "write_round raw data b = Inr b1" "buf_ok b1" "pos_off (b_wpos b1) < BlockSize"
      using write_round_ok [OF 1(2) False] by metis
    then show ?thesis
      using 1(1) [OF False, of b1] False by (subst buffer_write.simps) (auto simp: writeSize_def)
  qed (use 1 in \<open>simp add: buffer_write.simps\<close>)
qed

lemma stream_ok_write:
  assumes "stream_ok b"
  shows "\<exists>b'. buffer_write raw data b = Inr b' \<and> stream_ok b' \<and> contents b' = contents b @ data"
  using buffer_write_appends [of b raw data] buffer_write_room [of b raw data] assms
  by (auto simp: stream_ok_def compact_def drained_def)

lemma stream_ok_consume:
  assumes "stream_ok b"
  shows "\<exists>b'. consume n b = Inr b' \<and> stream_ok b' \<and> contents b' = drop n (contents b)"
  using consume_drops [of b n] assms by (auto simp: stream_ok_def compact_def)

interpretation bs: byte_stream stream_ok contents "buffer_write raw" consume for raw
  using stream_ok_write stream_ok_consume by unfold_locales blast+

lemma stream_ok_new: "stream_ok (new_buffer raw)"
  using new_buffer_ok [of raw]
  by (simp add: stream_ok_def) (simp add: new_buffer_def addChunk_def Let_def writeSize_def BlockSize_def)

text \<open>A buffer that can be parsed; it may be full.\<close>

definition readable :: "buffer \<Rightarrow> bool" where
  "readable b \<longleftrightarrow> buf_ok b \<and> flowing b \<and> compact b"

lemma stream_ok_readable: "stream_ok b \<Longrightarrow> readable b"
  by (simp add: stream_ok_def readable_def)

lemma readable_consume:
  assumes "readable b"
  shows "\<exists>b'. consume n b = Inr b' \<and> readable b' \<and> contents b' = drop n (contents b)"
  using consume_drops [of b n] assms by (auto simp: readable_def compact_def)

lemma stream_okD: "stream_ok b \<Longrightarrow> buf_ok b" "stream_ok b \<Longrightarrow> flowing b" "stream_ok b \<Longrightarrow> compact b"
  by (simp_all add: stream_ok_def)

text \<open>Bytes stored at \<open>writePtr()\<close> and then made part of the buffer.\<close>

lemma fill_stored:
  assumes "buf_ok b" "length data \<le> writeSize b"
  shows "rbind (poke data b) (\<lambda>b. rbind (advance (length data) b) (\<lambda>(_, b). Inr b)) = Inr (stored data b)"
proof (cases "data = []")
  case True
  have "stored [] b = b\<lparr>b_chunks := b_chunks (stored [] b)\<rparr>"
    using buf_ok_wpos [OF assms(1)] by (simp add: stored_def Let_def)
  then show ?thesis
    using advance_poked(1) [OF assms] True by (simp add: advance_def)
qed (use advance_poked [OF assms] in simp)

text \<open>A short piece of data in a fresh buffer.\<close>

lemma buffer_write_short:
  assumes "buf_ok b" "data \<noteq> []" "length data < writeSize b"
  shows "buffer_write raw data b = Inr (stored data b)"
proof -
  have "write_round raw data b = Inr (stored data b)"
    using write_round_eq [OF assms(1), of raw data] stored_ok(5) [OF assms(1), of data] assms(3)
    by (simp add: Let_def writeSize_def)
  then show ?thesis
    using assms(2,3) by (subst buffer_write.simps) (simp add: buffer_write.simps)
qed

definition demo_buffer :: "char list \<Rightarrow> buffer" where
  "demo_buffer data = stored data (new_buffer (\<lambda>_ _. CHR 0x00))"

lemma new_buffer_fields:
  "b_chunks (new_buffer raw) = [map (raw 0) [0..<BlockSize]]" "b_sizes (new_buffer raw) = [0]"
  "b_wpos (new_buffer raw) = \<lparr>pos_idx = 0, pos_off = 0\<rparr>" "b_rpos (new_buffer raw) = \<lparr>pos_idx = 0, pos_off = 0\<rparr>"
  by (simp_all add: new_buffer_def addChunk_def Let_def)

lemma demo_buffer_facts:
  assumes "length data < BlockSize"
  shows "stream_ok (demo_buffer data)" "contents (demo_buffer data) = data" "\<not> isConsumed (demo_buffer data)"
    "b_sizes (demo_buffer data) = [length data]"
    "b_wpos (demo_buffer data) = \<lparr>pos_idx = 0, pos_off = length data\<rparr>" "length (b_chunks (demo_buffer data)) = 1"
  using stored_ok [OF new_buffer_ok(1), of data] new_buffer_ok assms
  by (simp_all add: demo_buffer_def stream_ok_def writeSize_def new_buffer_fields compact_def isConsumed_def)
    (simp_all add: stored_def new_buffer_fields Let_def)

end
