(* ===== verification/File_Cache.thy ===== *)
theory File_Cache
  imports Buffer_Transfer
begin

text \<open>
  The file cache (\<open>file_cache.hpp\<close>, \<open>file_cache.cpp\<close>): nodes on a singly linked list behind a sentinel,
  a map from file names to nodes, and counters.  Nodes live in a store; a node that has been deleted is
  not in it, and going through its address is the fault \<^const>\<open>BadAddress\<close>.  Each operation is one
  function: the critical sections of \<open>pin\<close>, \<open>evict\<close> and \<open>unpin\<close> run under the read-write lock.  What the
  operating system answers to \<open>open\<close>, \<open>fstat\<close> and \<open>read\<close> is an argument.
\<close>

section \<open>State\<close>

record fnode =
  fn_file_name :: string
  fn_buf :: "buffer option"
  fn_pin_count :: int
  fn_size :: int
  fn_next :: addr

record file_cache =
  fc_max_size :: int
  fc_head :: addr
  fc_nodes :: "addr \<rightharpoonup> fnode"
  fc_map :: "string \<rightharpoonup> addr"
  fc_bytes_used :: int
  fc_pin_total :: int
  fc_hit_total :: int
  fc_failed_total :: int
  fc_new :: addr   \<comment> \<open>the address the next \<open>new Node\<close> returns\<close>

text \<open>The address of the sentinel \<open>tail_\<close>.\<close>

abbreviation TAIL :: addr where
  "TAIL \<equiv> 1"

definition new_file_cache :: "int \<Rightarrow> file_cache" where
  "new_file_cache max_size =
     \<lparr>fc_max_size = max_size, fc_head = TAIL,
      fc_nodes = [TAIL \<mapsto> \<lparr>fn_file_name = [], fn_buf = None, fn_pin_count = 0, fn_size = 0, fn_next = NULL\<rparr>],
      fc_map = Map.empty, fc_bytes_used = 0, fc_pin_total = 0, fc_hit_total = 0, fc_failed_total = 0, fc_new = 2\<rparr>"

text \<open>
  An opened file: the size \<open>fstat\<close> reports and what the \<open>k\<close>-th \<open>read\<close> of at most \<open>n\<close> bytes returns, an
  error number or bytes.
\<close>

record opened_file =
  f_st_size :: nat
  f_read :: "nat \<Rightarrow> nat \<Rightarrow> int + char list"

type_synonym file_system = "string \<Rightarrow> int + opened_file"

definition node_at :: "file_cache \<Rightarrow> addr \<Rightarrow> fnode result" where
  "node_at fc a = (case fc_nodes fc a of None \<Rightarrow> Inl BadAddress | Some n \<Rightarrow> Inr n)"

definition set_node :: "addr \<Rightarrow> fnode \<Rightarrow> file_cache \<Rightarrow> file_cache" where
  "set_node a n fc = fc\<lparr>fc_nodes := (fc_nodes fc)(a \<mapsto> n)\<rparr>"

section \<open>The list\<close>

definition nodeInsert :: "addr \<Rightarrow> file_cache \<Rightarrow> file_cache result" where
  "nodeInsert node fc =
     rbind (node_at fc (fc_head fc)) (\<lambda>h.
       let fc = set_node (fc_head fc) (h\<lparr>fn_next := node\<rparr>) fc;
           fc = fc\<lparr>fc_head := node\<rparr>
       in rbind (node_at fc node) (\<lambda>n. Inr (set_node node (n\<lparr>fn_next := NULL\<rparr>) fc)))"

definition nodeExtract :: "addr \<Rightarrow> addr \<Rightarrow> file_cache \<Rightarrow> file_cache result" where
  "nodeExtract node prev fc =
     (if node = prev \<or> prev = NULL then Inl Fatal
      else
        let fc = (if fc_head fc = node then fc\<lparr>fc_head := prev\<rparr> else fc) in
        rbind (node_at fc node) (\<lambda>n.
          rbind (node_at fc prev) (\<lambda>p. Inr (set_node prev (p\<lparr>fn_next := fn_next n\<rparr>) fc))))"

section \<open>Eviction\<close>

text \<open>\<open>a -= b\<close> on \<open>size_t\<close> wraps.\<close>

definition size_sub :: "nat \<Rightarrow> nat \<Rightarrow> nat" where
  "size_sub a b = (a + (2 ^ 64 - b)) mod 2 ^ 64"

text \<open>An \<open>int\<close> that is converted to \<open>size_t\<close>.\<close>

definition size_of_int :: "int \<Rightarrow> nat" where
  "size_of_int i = nat (i mod 2 ^ 64)"

partial_function (option) evict_loop ::
    "nat \<Rightarrow> int \<Rightarrow> addr \<Rightarrow> addr \<Rightarrow> addr list \<Rightarrow> file_cache \<Rightarrow> (nat \<times> int \<times> addr list \<times> file_cache) result option" where
  "evict_loop bytes_to_evict bytes_evicted cur prev to_delete fc =
     (if bytes_to_evict > 0 \<and> cur \<noteq> NULL then
        case node_at fc cur of
          Inl e \<Rightarrow> Some (Inl e)
        | Inr n \<Rightarrow>
            (case (if fn_pin_count n = 0
                   then rbind (nodeExtract cur prev (fc\<lparr>fc_map := (fc_map fc)(fn_file_name n := None)\<rparr>)) (\<lambda>fc.
                          Inr (size_sub bytes_to_evict (size_of_int (fn_size n)), bytes_evicted + fn_size n, to_delete @ [cur], fc))
                   else Inr (bytes_to_evict, bytes_evicted, to_delete, fc)) of
               Inl e \<Rightarrow> Some (Inl e)
             | Inr (bytes_to_evict, bytes_evicted, to_delete, fc) \<Rightarrow>
                 (case node_at fc cur of
                    Inl e \<Rightarrow> Some (Inl e)
                  | Inr n \<Rightarrow> evict_loop bytes_to_evict bytes_evicted (fn_next n) cur to_delete fc))
      else Some (Inr (bytes_to_evict, bytes_evicted, to_delete, fc)))"

definition evict :: "nat \<Rightarrow> file_cache \<Rightarrow> (bool \<times> file_cache) result option" where
  "evict bytes_to_evict fc =
     (if fc_head fc = TAIL then Some (Inr (False, fc))
      else
        case node_at fc TAIL of
          Inl e \<Rightarrow> Some (Inl e)
        | Inr t \<Rightarrow>
            Option.bind (evict_loop bytes_to_evict 0 (fn_next t) TAIL [] fc) (\<lambda>r. Some
              (rbind r (\<lambda>(bytes_to_evict, bytes_evicted, to_delete, fc).
                 Inr (bytes_to_evict = 0,
                      fc\<lparr>fc_bytes_used := fc_bytes_used fc - bytes_evicted,
                         fc_nodes := (\<lambda>a. if a \<in> set to_delete then None else fc_nodes fc a)\<rparr>)))))"

section \<open>Pinning\<close>

text \<open>
  The loop that reads a file into a buffer, from its \<open>k\<close>-th read on: an error number, or the buffer.  When
  \<open>read\<close> keeps returning nothing it does not end.
\<close>

partial_function (option) read_loop :: "raw \<Rightarrow> opened_file \<Rightarrow> nat \<Rightarrow> nat \<Rightarrow> buffer \<Rightarrow> (int + buffer) result option" where
  "read_loop raw f k to_read new_buf =
     (if to_read > 0 then
        let new_buf = snd (reserve raw BlockSize new_buf) in
        case f_read f k (writeSize new_buf) of
          Inl errno \<Rightarrow> Some (Inr (Inl errno))
        | Inr bytes \<Rightarrow>
            (case poke bytes new_buf of
               Inl e \<Rightarrow> Some (Inl e)
             | Inr new_buf \<Rightarrow> read_loop raw f (k + 1) (size_sub to_read (length bytes)) new_buf)
      else Some (Inr (Inr new_buf)))"

text \<open>The last part of \<open>load\<close>: a new node with the buffer, unless another load of the file came first.\<close>

definition insert_loaded :: "string \<Rightarrow> nat \<Rightarrow> buffer \<Rightarrow> file_cache \<Rightarrow> ((addr \<times> buffer option \<times> int) \<times> file_cache) result" where
  "insert_loaded file_name st_size new_buf fc =
     (let node = fc_new fc;
          n = \<lparr>fn_file_name = file_name, fn_buf = Some new_buf, fn_pin_count = 1, fn_size = int st_size, fn_next = NULL\<rparr>;
          fc = (set_node node n fc)\<lparr>fc_new := node + 1\<rparr>
      in case fc_map fc file_name of
           None \<Rightarrow>
             let fc = fc\<lparr>fc_map := (fc_map fc)(file_name \<mapsto> node)\<rparr> in
             rbind (nodeInsert node fc) (\<lambda>fc.
               Inr ((node, Some new_buf, 0),
                    fc\<lparr>fc_pin_total := fc_pin_total fc + 1, fc_bytes_used := fc_bytes_used fc + int st_size\<rparr>))
         | Some _ \<Rightarrow>
             Inr ((NULL, None, 0),
                  fc\<lparr>fc_pin_total := fc_pin_total fc + 1, fc_failed_total := fc_failed_total fc + 1,
                     fc_nodes := (fc_nodes fc)(node := None)\<rparr>))"

definition load :: "raw \<Rightarrow> file_system \<Rightarrow> string \<Rightarrow> file_cache \<Rightarrow> ((addr \<times> buffer option \<times> int) \<times> file_cache) result option" where
  "load raw fs file_name fc =
     (case fs file_name of
        Inl errno \<Rightarrow> Some (Inr ((NULL, None, errno), fc))
      | Inr f \<Rightarrow>
          Option.bind (if fc_max_size fc - fc_bytes_used fc < int (f_st_size f) then evict (f_st_size f) fc
                       else Some (Inr (True, fc))) (\<lambda>r.
            case r of
              Inl e \<Rightarrow> Some (Inl e)
            | Inr (room, fc) \<Rightarrow>
                if \<not> room
                then Some (Inr ((NULL, None, 0), fc\<lparr>fc_pin_total := fc_pin_total fc + 1, fc_failed_total := fc_failed_total fc + 1\<rparr>))
                else
                  Option.bind (read_loop raw f 0 (f_st_size f) (new_buffer raw)) (\<lambda>r.
                    case r of
                      Inl e \<Rightarrow> Some (Inl e)
                    | Inr (Inl errno) \<Rightarrow> Some (Inr ((NULL, None, errno), fc))
                    | Inr (Inr new_buf) \<Rightarrow>
                        Some (rbind (advance (f_st_size f) new_buf) (\<lambda>(_, new_buf).
                                insert_loaded file_name (f_st_size f) new_buf fc)))))"

definition pin :: "raw \<Rightarrow> file_system \<Rightarrow> string \<Rightarrow> file_cache \<Rightarrow> ((addr \<times> buffer option \<times> int) \<times> file_cache) result option" where
  "pin raw fs file_name fc =
     (case fc_map fc file_name of
        Some a \<Rightarrow>
          Some (rbind (node_at fc a) (\<lambda>n.
            let fc = set_node a (n\<lparr>fn_pin_count := fn_pin_count n + 1\<rparr>) fc;
                fc = fc\<lparr>fc_pin_total := fc_pin_total fc + 1, fc_hit_total := fc_hit_total fc + 1\<rparr>
            in Inr ((a, fn_buf n, 0), fc)))
      | None \<Rightarrow> load raw fs file_name fc)"

definition unpin :: "addr \<Rightarrow> file_cache \<Rightarrow> file_cache result" where
  "unpin h fc =
     (if h = NULL then Inr fc
      else
        rbind (node_at fc h) (\<lambda>k.
          case fc_map fc (fn_file_name k) of
            None \<Rightarrow> Inl Fatal
          | Some a \<Rightarrow>
              rbind (node_at fc a) (\<lambda>n.
                let fc = set_node a (n\<lparr>fn_pin_count := fn_pin_count n - 1\<rparr>) fc
                in if fn_pin_count n = 0 then Inl Fatal else Inr fc)))"

text \<open>The destructor: every node from the sentinel on is deleted; a dangling link is read through.\<close>

partial_function (option) destroy_loop :: "addr \<Rightarrow> file_cache \<Rightarrow> file_cache result option" where
  "destroy_loop cur fc =
     (if cur = NULL then Some (Inr fc)
      else case node_at fc cur of
          Inl e \<Rightarrow> Some (Inl e)
        | Inr n \<Rightarrow> destroy_loop (fn_next n) (fc\<lparr>fc_nodes := (fc_nodes fc)(cur := None)\<rparr>))"

definition destroy_file_cache :: "file_cache \<Rightarrow> file_cache result option" where
  "destroy_file_cache fc =
     (case node_at fc TAIL of Inl e \<Rightarrow> Some (Inl e) | Inr n \<Rightarrow> destroy_loop (fn_next n) fc)"

end
