(* ===== verification/File_Cache_Correct.thy ===== *)
theory File_Cache_Correct
  imports File_Cache
begin

text \<open>
  What the file cache does: a file that fits one chunk is cached with its contents, pinned files are never
  evicted; and what it does not do: larger files, eviction of neighbours, eviction of more than was asked.
\<close>

section \<open>Loading\<close>

text \<open>A file that holds \<open>data\<close> and is read in whole blocks.\<close>

definition regular_file :: "char list \<Rightarrow> opened_file \<Rightarrow> bool" where
  "regular_file data f \<longleftrightarrow> f_st_size f = length data \<and> (\<forall>k n. f_read f k n = Inr (take n (drop (k * n) data)))"

text \<open>A buffer nothing has been added to, whatever bytes its chunk holds.\<close>

definition untouched :: "buffer \<Rightarrow> bool" where
  "untouched b \<longleftrightarrow> buf_ok b \<and> b_sizes b = [0] \<and> b_rpos b = \<lparr>pos_idx = 0, pos_off = 0\<rparr>"

lemma untouched_facts:
  assumes "untouched b"
  shows "b_wpos b = \<lparr>pos_idx = 0, pos_off = 0\<rparr>" "writeSize b = BlockSize" "snd (reserve raw BlockSize b) = b"
    "contents b = []" "length (b_chunks b) = 1" "length (b_chunks b ! 0) = BlockSize"
  using assms
  by (auto simp: untouched_def buf_ok_def writeSize_def reserve_def contents_def segs_def unread_def)
    (cases "b_chunks b"; simp)+

lemma untouched_new: "untouched (new_buffer raw)"
  using new_buffer_ok(1) by (simp add: untouched_def new_buffer_fields)

lemma untouched_poke:
  assumes "untouched b" "length bytes \<le> BlockSize"
  shows "poke bytes b = Inr (b\<lparr>b_chunks := [put_bytes 0 bytes (b_chunks b ! 0)]\<rparr>)"
    "untouched (b\<lparr>b_chunks := [put_bytes 0 bytes (b_chunks b ! 0)]\<rparr>)"
proof -
  note u = untouched_facts [OF assms(1)]
  obtain c where c: "b_chunks b = [c]" "length c = BlockSize"
    using u(5,6) by (cases "b_chunks b") auto
  show "poke bytes b = Inr (b\<lparr>b_chunks := [put_bytes 0 bytes (b_chunks b ! 0)]\<rparr>)"
    using u c assms(2) by (simp add: poke_def deque_at_def)
  show "untouched (b\<lparr>b_chunks := [put_bytes 0 bytes (b_chunks b ! 0)]\<rparr>)"
    using assms c put_bytes_facts(1) [of 0 bytes c] by (auto simp: untouched_def buf_ok_def)
qed

lemma size_sub_le: "b \<le> a \<Longrightarrow> a < 2 ^ 64 \<Longrightarrow> size_sub a b = a - b"
  by (simp add: size_sub_def mod_if)

lemma size_sub_gt: "a < b \<Longrightarrow> b < 2 ^ 64 \<Longrightarrow> size_sub a b \<noteq> 0"
  by (simp add: size_sub_def mod_if)

text \<open>Every read goes to the start of the one chunk; what is left there is the last block read.\<close>

lemma read_loop_blocks:
  assumes "regular_file data f" "untouched b" "k * BlockSize < length data" "length data < 2 ^ 64"
  shows "\<exists>b'. read_loop raw f k (length data - k * BlockSize) b = Some (Inr (Inr b')) \<and> untouched b' \<and>
    (\<exists>j c. b_chunks b' = [put_bytes 0 (drop (j * BlockSize) data) c] \<and> length c = BlockSize \<and>
       j * BlockSize < length data \<and> length data \<le> (j + 1) * BlockSize)"
  using assms(2,3)
proof (induction "length data - k * BlockSize" arbitrary: k b rule: less_induct)
  case less
  note u = untouched_facts [OF less.prems(1)]
  let ?bytes = "take BlockSize (drop (k * BlockSize) data)"
  let ?b1 = "b\<lparr>b_chunks := [put_bytes 0 ?bytes (b_chunks b ! 0)]\<rparr>"
  let ?left = "length data - k * BlockSize"
  have f: "f_read f k BlockSize = Inr ?bytes"
    using assms(1) by (simp add: regular_file_def)
  note p = untouched_poke [OF less.prems(1), of ?bytes]
  have sub: "size_sub ?left (length ?bytes) = ?left - length ?bytes"
    using assms(4) by (intro size_sub_le) auto
  have step: "read_loop raw f k ?left b = read_loop raw f (k + 1) (?left - length ?bytes) ?b1"
    using less.prems u f p sub by (subst read_loop.simps) (simp add: Let_def)
  show ?case
  proof (cases "length data \<le> (k + 1) * BlockSize")
    case True
    then have "?left - length ?bytes = 0" "?bytes = drop (k * BlockSize) data"
      by (auto simp: BlockSize_def)
    then have "read_loop raw f k ?left b = Some (Inr (Inr (b\<lparr>b_chunks := [put_bytes 0 (drop (k * BlockSize) data) (b_chunks b ! 0)]\<rparr>)))"
      using step by (simp add: read_loop.simps)
    then show ?thesis
      using p(2) \<open>?bytes = drop (k * BlockSize) data\<close> u(6) less.prems(2) True by auto
  next
    case False
    then have e: "?left - length ?bytes = length data - (k + 1) * BlockSize"
      by (auto simp: algebra_simps)
    have "length data - (k + 1) * BlockSize < ?left"
      using less.prems(2) False by (auto simp: BlockSize_def)
    then show ?thesis
      using less.hyps [of "k + 1" ?b1] p(2) False step e by simp
  qed
qed

lemma loaded_buffer:
  assumes "regular_file data f" "length data < 2 ^ 64"
  shows "\<exists>b b'. read_loop raw f 0 (f_st_size f) (new_buffer raw) = Some (Inr (Inr b)) \<and>
    advance (f_st_size f) b = Inr (length data \<le> BlockSize \<and> data \<noteq> [], b') \<and> buf_ok b' \<and>
    contents b' = (if length data \<le> BlockSize then data else [])"
proof (cases "data = []")
  case True
  then have s: "f_st_size f = 0"
    using assms(1) by (simp add: regular_file_def)
  then have "read_loop raw f 0 (f_st_size f) (new_buffer raw) = Some (Inr (Inr (new_buffer raw)))"
    by (simp add: read_loop.simps)
  moreover have "advance (f_st_size f) (new_buffer raw) = Inr (False, new_buffer raw)"
    using s by (simp add: advance_def)
  ultimately show ?thesis
    using True new_buffer_ok by simp
next
  case False
  have s: "f_st_size f = length data"
    using assms(1) by (simp add: regular_file_def)
  obtain b j c where b: "read_loop raw f 0 (length data) (new_buffer raw) = Some (Inr (Inr b))" "untouched b"
    "b_chunks b = [put_bytes 0 (drop (j * BlockSize) data) c]" "length c = BlockSize"
    "j * BlockSize < length data" "length data \<le> (j + 1) * BlockSize"
    using read_loop_blocks [OF assms(1) untouched_new, of 0 raw raw] assms(2) False by auto
  note u = untouched_facts [OF b(2)]
  show ?thesis
  proof (cases "length data \<le> BlockSize")
    case True
    then have "j = 0"
      using b(5) by (cases j) auto
    let ?b0 = "b\<lparr>b_chunks := [c]\<rparr>"
    have ok0: "buf_ok ?b0" "writeSize ?b0 = BlockSize" "contents ?b0 = []"
      using b(2,4) u by (auto simp: untouched_def buf_ok_def writeSize_def contents_def segs_def unread_def)
    have "b = ?b0\<lparr>b_chunks := b_chunks (stored data ?b0)\<rparr>"
      using b(3) u \<open>j = 0\<close> by (simp add: stored_def)
    then have "advance (length data) b = Inr (True, stored data ?b0)"
      using advance_poked(2) [OF ok0(1), of data] True ok0(2) False by metis
    then show ?thesis
      using b(1) s True False stored_ok(1,2) [OF ok0(1), of data] ok0(2,3) by auto
  next
    case large: False
    then have "advance (length data) b = Inr (False, b)"
      using u(2) False by (simp add: advance_def)
    then show ?thesis
      using b(1,2) s large u(4) by (auto simp: untouched_def)
  qed
qed

text \<open>C29: Pinning a file that is not cached, when there is room for it, caches and returns a pinned buffer
  for it.  The buffer holds the file's bytes when the file has at most 4096 of them; the buffer of a
  larger file is empty.\<close>

theorem pin_loads_file:
  assumes "fc_map fc name = None" "fs name = Inr f" "regular_file data f" "length data < 2 ^ 64"
    and "int (length data) \<le> fc_max_size fc - fc_bytes_used fc"
    and "fc_nodes fc (fc_head fc) = Some h" "fc_head fc \<noteq> fc_new fc"
  shows "\<exists>b fc'. pin raw fs name fc = Some (Inr ((fc_new fc, Some b, 0), fc')) \<and>
    contents b = (if length data \<le> BlockSize then data else []) \<and>
    fc_map fc' name = Some (fc_new fc) \<and> fc_head fc' = fc_new fc \<and>
    (\<exists>n. fc_nodes fc' (fc_new fc) = Some n \<and> fn_buf n = Some b \<and> fn_pin_count n = 1 \<and> fn_size n = int (length data)) \<and>
    fc_bytes_used fc' = fc_bytes_used fc + int (length data)"
proof -
  obtain b0 b where b: "read_loop raw f 0 (f_st_size f) (new_buffer raw) = Some (Inr (Inr b0))"
    "advance (f_st_size f) b0 = Inr (length data \<le> BlockSize \<and> data \<noteq> [], b)"
    "contents b = (if length data \<le> BlockSize then data else [])"
    using loaded_buffer [OF assms(3,4), of raw] by blast
  have s: "f_st_size f = length data"
    using assms(3) by (simp add: regular_file_def)
  show ?thesis
    using assms(1,2,5-7) b s
    by (simp add: pin_def load_def insert_loaded_def nodeInsert_def node_at_def set_node_def Let_def)
qed

section \<open>Eviction keeps pinned files\<close>

text \<open>Every node but the sentinel is the one the map has for its name.\<close>

definition mapped :: "file_cache \<Rightarrow> bool" where
  "mapped fc \<longleftrightarrow> (\<forall>a n. fc_nodes fc a = Some n \<and> a \<noteq> TAIL \<longrightarrow> fc_map fc (fn_file_name n) = Some a)"

text \<open>Two nodes that differ at most in their successor.\<close>

definition same_node :: "fnode option \<Rightarrow> fnode option \<Rightarrow> bool" where
  "same_node x y \<longleftrightarrow> (case (x, y) of (Some m, Some n) \<Rightarrow> m\<lparr>fn_next := 0\<rparr> = n\<lparr>fn_next := 0\<rparr> | (None, None) \<Rightarrow> True | _ \<Rightarrow> False)"

definition pinned_in :: "file_cache \<Rightarrow> string \<Rightarrow> addr \<Rightarrow> bool" where
  "pinned_in fc name a \<longleftrightarrow> fc_map fc name = Some a \<and>
     (\<exists>n. fc_nodes fc a = Some n \<and> fn_file_name n = name \<and> fn_pin_count n \<noteq> 0)"

text \<open>What one round of the loop, and so the loop, keeps.\<close>

definition keeps_pinned :: "file_cache \<Rightarrow> addr list \<Rightarrow> file_cache \<Rightarrow> bool" where
  "keeps_pinned fc0 to_delete fc \<longleftrightarrow>
     (\<forall>a. same_node (fc_nodes fc0 a) (fc_nodes fc a)) \<and>
     (\<forall>a n. fc_nodes fc a = Some n \<longrightarrow> fn_next n \<noteq> TAIL) \<and>
     (\<forall>name a. pinned_in fc0 name a \<longrightarrow> fc_map fc name = Some a) \<and>
     (\<forall>a \<in> set to_delete. \<exists>n. fc_nodes fc0 a = Some n \<and> fn_pin_count n = 0)"

lemma same_node_refl: "same_node x x"
  by (auto simp: same_node_def split: option.split)

lemma same_node_next:
  assumes "same_node x (Some p)"
  shows "same_node x (Some (p\<lparr>fn_next := q\<rparr>))"
  using assms by (auto simp: same_node_def split: option.splits)

lemma same_node_fields:
  assumes "same_node x (Some n)"
  shows "\<exists>m. x = Some m \<and> fn_file_name m = fn_file_name n \<and> fn_pin_count m = fn_pin_count n \<and> fn_buf m = fn_buf n \<and>
    fn_size m = fn_size n"
proof (cases x)
  case (Some m)
  then have "m\<lparr>fn_next := 0\<rparr> = n\<lparr>fn_next := 0\<rparr>"
    using assms by (simp add: same_node_def)
  then show ?thesis
    using Some by (cases m, cases n) simp
qed (use assms in \<open>simp add: same_node_def\<close>)

lemma keeps_pinned_round:
  assumes "mapped fc0" "keeps_pinned fc0 to_delete fc" "node_at fc cur = Inr n" "fn_pin_count n = 0" "cur \<noteq> TAIL"
    and "nodeExtract cur prev (fc\<lparr>fc_map := (fc_map fc)(fn_file_name n := None)\<rparr>) = Inr fc'"
  shows "keeps_pinned fc0 (to_delete @ [cur]) fc'"
proof -
  have n: "fc_nodes fc cur = Some n"
    using assms(3) by (auto simp: node_at_def split: option.splits)
  obtain m where m: "fc_nodes fc0 cur = Some m" "fn_file_name m = fn_file_name n" "fn_pin_count m = 0"
    using same_node_fields [of "fc_nodes fc0 cur" n] assms(2,4) n by (metis keeps_pinned_def)
  have f: "fc_map fc' = (fc_map fc)(fn_file_name n := None)"
    "\<exists>p. fc_nodes fc prev = Some p \<and> fc_nodes fc' = (fc_nodes fc)(prev \<mapsto> p\<lparr>fn_next := fn_next n\<rparr>)"
    using assms(6) n
    by (auto simp: nodeExtract_def node_at_def set_node_def Let_def rbind_Inr_iff split: if_splits option.splits)
  then obtain p where p: "fc_nodes fc prev = Some p" "fc_nodes fc' = (fc_nodes fc)(prev \<mapsto> p\<lparr>fn_next := fn_next n\<rparr>)"
    by blast
  have "same_node (fc_nodes fc0 a) (fc_nodes fc' a)" for a
    using assms(2) same_node_next [of "fc_nodes fc0 a" p "fn_next n"] p unfolding keeps_pinned_def
    by (cases "a = prev") (simp_all, metis)
  moreover have "fn_next q \<noteq> TAIL" if "fc_nodes fc' a = Some q" for a q
    using that assms(2) n p by (auto simp: keeps_pinned_def split: if_splits)
  moreover have "fc_map fc' name = Some a" if "pinned_in fc0 name a" for name a
  proof -
    have "name \<noteq> fn_file_name n"
      using that m assms(1,5) unfolding pinned_in_def mapped_def by (metis option.inject)
    then show ?thesis
      using that assms(2) f(1) by (simp add: keeps_pinned_def)
  qed
  ultimately show ?thesis
    using assms(2) m by (auto simp: keeps_pinned_def)
qed

lemma evict_loop_keeps:
  assumes "evict_loop bytes evicted cur prev to_delete fc = Some (Inr (bytes', evicted', to_delete', fc'))"
    and "mapped fc0" "keeps_pinned fc0 to_delete fc" "cur \<noteq> TAIL"
  shows "keeps_pinned fc0 to_delete' fc'"
proof -
  let ?P = "\<lambda>(bytes :: nat) (evicted :: int) cur (prev :: addr) to_delete fc
    (y :: (nat \<times> int \<times> addr list \<times> file_cache) result). \<forall>bytes' evicted' to_delete' fc'.
    y = Inr (bytes', evicted', to_delete', fc') \<longrightarrow> keeps_pinned fc0 to_delete fc \<longrightarrow> cur \<noteq> TAIL \<longrightarrow>
      keeps_pinned fc0 to_delete' fc'"
  have "?P bytes evicted cur prev to_delete fc (Inr (bytes', evicted', to_delete', fc'))"
    using assms(1)
  proof (rule evict_loop.raw_induct [where P = ?P, rotated], intro allI impI)
    fix loop bytes evicted cur prev to_delete fc y bytes' evicted' to_delete' fc'
    assume IH: "\<And>bytes evicted cur prev to_delete fc y.
        loop bytes evicted cur prev to_delete fc = Some y \<Longrightarrow> ?P bytes evicted cur prev to_delete fc y"
      and k: "keeps_pinned fc0 to_delete fc" "cur \<noteq> TAIL" and y: "y = Inr (bytes', evicted', to_delete', fc')"
      and body: "(if 0 < bytes \<and> cur \<noteq> 0
        then case node_at fc cur of Inl e \<Rightarrow> Some (Inl e)
             | Inr n \<Rightarrow>
                 case if fn_pin_count n = 0
                      then rbind (nodeExtract cur prev (fc\<lparr>fc_map := (fc_map fc)(fn_file_name n := None)\<rparr>))
                            (\<lambda>fc. Inr (size_sub bytes (size_of_int (fn_size n)), evicted + fn_size n, to_delete @ [cur], fc))
                      else Inr (bytes, evicted, to_delete, fc) of
                 Inl e \<Rightarrow> Some (Inl e)
                 | Inr (bytes, evicted, to_delete, fc) \<Rightarrow>
                     case node_at fc cur of Inl e \<Rightarrow> Some (Inl e)
                     | Inr n \<Rightarrow> loop bytes evicted (fn_next n) cur to_delete fc
        else Some (Inr (bytes, evicted, to_delete, fc))) = Some y"
    show "keeps_pinned fc0 to_delete' fc'"
    proof (cases "0 < bytes \<and> cur \<noteq> 0")
      case True
      obtain n where n: "node_at fc cur = Inr n"
        using body True y by (auto split: sum.splits)
      obtain bytes1 evicted1 del1 fc1 where r: "(if fn_pin_count n = 0
          then rbind (nodeExtract cur prev (fc\<lparr>fc_map := (fc_map fc)(fn_file_name n := None)\<rparr>))
            (\<lambda>fc. Inr (size_sub bytes (size_of_int (fn_size n)), evicted + fn_size n, to_delete @ [cur], fc))
          else Inr (bytes, evicted, to_delete, fc)) = Inr (bytes1, evicted1, del1, fc1)"
        using body True n y by (auto split: sum.splits)
      have k1: "keeps_pinned fc0 del1 fc1"
        using r k keeps_pinned_round [OF assms(2) k(1) n _ k(2)]
        by (auto simp: rbind_Inr_iff split: if_splits)
      obtain n1 where n1: "node_at fc1 cur = Inr n1" "loop bytes1 evicted1 (fn_next n1) cur del1 fc1 = Some y"
        using body True n y r by (auto split: sum.splits)
      then have "fn_next n1 \<noteq> TAIL"
        using k1 by (auto simp: keeps_pinned_def node_at_def split: option.splits)
      then show ?thesis
        using IH [OF n1(2)] y k1 by blast
    qed (use body y k in auto)
  qed
  then show ?thesis
    using assms(3,4) by blast
qed

text \<open>C30: \<open>evict\<close> never takes a pinned file out of the cache: whatever it returns, the file's name still
  leads to its node, with the same buffer and pin count.\<close>

theorem evict_keeps_pinned:
  assumes "mapped fc" "\<forall>a n. fc_nodes fc a = Some n \<longrightarrow> fn_next n \<noteq> TAIL"
    and "evict bytes fc = Some (Inr (ok, fc'))" "pinned_in fc name a"
  shows "fc_map fc' name = Some a \<and> same_node (fc_nodes fc a) (fc_nodes fc' a)"
proof (cases "fc_head fc = TAIL")
  case True
  then show ?thesis
    using assms(3,4) same_node_refl by (auto simp: evict_def pinned_in_def)
next
  case False
  then obtain t bytes' evicted to_delete fc1 where t: "node_at fc TAIL = Inr t"
    "evict_loop bytes 0 (fn_next t) TAIL [] fc = Some (Inr (bytes', evicted, to_delete, fc1))"
    "fc' = fc1\<lparr>fc_bytes_used := fc_bytes_used fc1 - evicted,
      fc_nodes := (\<lambda>a. if a \<in> set to_delete then None else fc_nodes fc1 a)\<rparr>"
    using assms(3) by (auto simp: evict_def rbind_Inr_iff split: sum.splits bind_splits)
  have "keeps_pinned fc [] fc"
    using assms(2) same_node_refl by (auto simp: keeps_pinned_def pinned_in_def)
  moreover have "fn_next t \<noteq> TAIL"
    using t(1) assms(2) by (auto simp: node_at_def split: option.splits)
  ultimately have k: "keeps_pinned fc to_delete fc1"
    using evict_loop_keeps [OF t(2) assms(1)] by blast
  then have "a \<notin> set to_delete"
    using assms(4) by (auto simp: keeps_pinned_def pinned_in_def)
  then show ?thesis
    using k assms(4) t(3) by (simp add: keeps_pinned_def)
qed

section \<open>Where eviction fails\<close>

lemma evict_loop_end [simp]: "evict_loop bytes evicted 0 prev to_delete fc = Some (Inr (bytes, evicted, to_delete, fc))"
  by (subst evict_loop.simps) simp

lemma evict_loop_unpinned:
  assumes "0 < bytes" "cur \<noteq> 0" "prev \<noteq> 0" "cur \<noteq> prev" "fc_nodes fc cur = Some n" "fc_nodes fc prev = Some p" "fn_pin_count n = 0"
  shows "evict_loop bytes evicted cur prev to_delete fc =
    evict_loop (size_sub bytes (size_of_int (fn_size n))) (evicted + fn_size n) (fn_next n) cur (to_delete @ [cur])
      ((if fc_head fc = cur then fc\<lparr>fc_map := (fc_map fc)(fn_file_name n := None), fc_head := prev\<rparr>
        else fc\<lparr>fc_map := (fc_map fc)(fn_file_name n := None)\<rparr>)
       \<lparr>fc_nodes := (fc_nodes fc)(prev \<mapsto> p\<lparr>fn_next := fn_next n\<rparr>)\<rparr>)"
  using assms
  by (subst evict_loop.simps) (simp add: node_at_def nodeExtract_def set_node_def Let_def)

text \<open>Eviction that frees more than was asked for reports failure: with one unpinned file larger than the
  space needed, \<open>evict\<close> drops the file and returns false, because the number of bytes still to evict is
  unsigned and wraps.\<close>

theorem evict_overshoot:
  assumes "fc_nodes fc TAIL = Some t" "fn_next t = a" "fc_head fc = a" "a \<noteq> TAIL" "a \<noteq> 0"
    and "fc_nodes fc a = Some n" "fn_next n = 0" "fn_pin_count n = 0" "fn_size n = int s"
    and "0 < bytes" "bytes < s" "s < 2 ^ 64"
  shows "\<exists>fc'. evict bytes fc = Some (Inr (False, fc')) \<and> fc_map fc' (fn_file_name n) = None \<and>
    fc_nodes fc' a = None \<and> fc_bytes_used fc' = fc_bytes_used fc - int s \<and> fc_head fc' = TAIL"
proof -
  have "size_of_int (fn_size n) = s"
    using assms(9,12) by (simp add: size_of_int_def nat_mod_distrib)
  then show ?thesis
    using assms size_sub_gt [of bytes s] evict_loop_unpinned [of bytes a TAIL fc n t 0 "[]"]
    by (simp add: evict_def node_at_def)
qed

text \<open>Evicting two neighbours leaves the list broken: the sentinel's successor and the head of the list are
  nodes that have been deleted.\<close>

theorem evict_leaves_dangling:
  assumes "fc_nodes fc TAIL = Some t" "fn_next t = a" "fc_head fc = b" "distinct [0, TAIL, a, b]"
    and "fc_nodes fc a = Some n" "fn_next n = b" "fn_pin_count n = 0"
    and "fc_nodes fc b = Some n'" "fn_next n' = 0" "fn_pin_count n' = 0"
    and "fn_size n = int s" "s < bytes" "bytes < 2 ^ 64"
  shows "\<exists>ok fc' t'. evict bytes fc = Some (Inr (ok, fc')) \<and> fc_nodes fc' TAIL = Some t' \<and>
    node_at fc' (fn_next t') = Inl BadAddress \<and> node_at fc' (fc_head fc') = Inl BadAddress"
proof -
  have "size_of_int (fn_size n) = s"
    using assms(11-13) by (simp add: size_of_int_def nat_mod_distrib)
  then have sz: "size_sub bytes (size_of_int (fn_size n)) = bytes - s" "0 < bytes - s"
    using assms(12,13) size_sub_le [of s bytes] by simp_all
  let ?fc1 = "fc\<lparr>fc_map := (fc_map fc)(fn_file_name n := None), fc_nodes := (fc_nodes fc)(TAIL \<mapsto> t\<lparr>fn_next := b\<rparr>)\<rparr>"
  have "evict_loop bytes 0 a TAIL [] fc = evict_loop (bytes - s) (fn_size n) b a [a] ?fc1"
    using assms sz evict_loop_unpinned [of bytes a TAIL fc n t 0 "[]"] by simp
  also have "\<dots> = Some (Inr (size_sub (bytes - s) (size_of_int (fn_size n')), fn_size n + fn_size n', [a, b],
      ?fc1\<lparr>fc_map := (fc_map ?fc1)(fn_file_name n' := None), fc_head := a,
        fc_nodes := (fc_nodes ?fc1)(a \<mapsto> n\<lparr>fn_next := 0\<rparr>)\<rparr>))"
    using assms sz(2) evict_loop_unpinned [of "bytes - s" b a ?fc1 n' n "fn_size n" "[a]"] by simp
  finally show ?thesis
    using assms by (simp add: evict_def node_at_def)
qed

section \<open>The properties on concrete caches\<close>

definition demo_node :: "string \<Rightarrow> int \<Rightarrow> int \<Rightarrow> addr \<Rightarrow> fnode" where
  "demo_node name pins sz nxt =
     \<lparr>fn_file_name = name, fn_buf = Some (demo_buffer ''x''), fn_pin_count = pins, fn_size = sz, fn_next = nxt\<rparr>"

text \<open>Two files of one byte, the first pinned as often as given.\<close>

definition demo_cache :: "int \<Rightarrow> file_cache" where
  "demo_cache pins =
     \<lparr>fc_max_size = 10, fc_head = 3,
      fc_nodes = [TAIL \<mapsto> \<lparr>fn_file_name = [], fn_buf = None, fn_pin_count = 0, fn_size = 0, fn_next = 2\<rparr>,
                  2 \<mapsto> demo_node ''a'' pins 1 3, 3 \<mapsto> demo_node ''b'' 0 1 0],
      fc_map = [''a'' \<mapsto> 2, ''b'' \<mapsto> 3], fc_bytes_used = 2, fc_pin_total = 2, fc_hit_total = 0, fc_failed_total = 0,
      fc_new = 4\<rparr>"

definition demo_file :: opened_file where
  "demo_file = \<lparr>f_st_size = 2, f_read = (\<lambda>k n. Inr (take n (drop (k * n) ''hi'')))\<rparr>"

theorem pin_loads_file_witness:
  "\<exists>b fc'. pin (\<lambda>_ _. CHR 0x00) (\<lambda>_. Inr demo_file) ''c'' (demo_cache 1) = Some (Inr ((4, Some b, 0), fc')) \<and>
     contents b = ''hi'' \<and> fc_map fc' ''c'' = Some 4"
  using pin_loads_file [of "demo_cache 1" "''c''" "\<lambda>_. Inr demo_file" demo_file "''hi''" "demo_node ''b'' 0 1 0" "\<lambda>_ _. CHR 0x00"]
  by (auto simp: demo_cache_def demo_file_def regular_file_def BlockSize_def)

theorem evict_keeps_pinned_witness:
  "\<exists>fc'. evict 1 (demo_cache 1) = Some (Inr (True, fc')) \<and> fc_map fc' ''a'' = Some 2"
proof -
  have "evict_loop 1 0 2 TAIL [] (demo_cache 1) = evict_loop 1 0 3 2 [] (demo_cache 1)"
    by (subst evict_loop.simps) (simp add: demo_cache_def demo_node_def node_at_def)
  also have "\<exists>fc1. \<dots> = Some (Inr (0, 1, [3], fc1))"
    using evict_loop_unpinned [of 1 3 2 "demo_cache 1" "demo_node ''b'' 0 1 0" "demo_node ''a'' 1 1 3" 0 "[]"]
    by (simp add: demo_cache_def demo_node_def size_of_int_def size_sub_def)
  finally obtain fc' where e: "evict 1 (demo_cache 1) = Some (Inr (True, fc'))"
    by (auto simp: evict_def demo_cache_def node_at_def)
  have "fc_map fc' ''a'' = Some 2"
    using evict_keeps_pinned [OF _ _ e, of "''a''" 2]
    by (auto simp: demo_cache_def demo_node_def mapped_def pinned_in_def split: if_splits)
  then show ?thesis
    using e by blast
qed

theorem evict_overshoot_witness:
  "\<exists>fc'. evict 1 (new_file_cache 10\<lparr>fc_head := 2, fc_nodes :=
        [TAIL \<mapsto> \<lparr>fn_file_name = [], fn_buf = None, fn_pin_count = 0, fn_size = 0, fn_next = 2\<rparr>, 2 \<mapsto> demo_node ''a'' 0 5 0],
        fc_map := [''a'' \<mapsto> 2], fc_bytes_used := 5\<rparr>) = Some (Inr (False, fc')) \<and> fc_bytes_used fc' = 0"
  using evict_overshoot [of "new_file_cache 10\<lparr>fc_head := 2, fc_nodes :=
        [TAIL \<mapsto> \<lparr>fn_file_name = [], fn_buf = None, fn_pin_count = 0, fn_size = 0, fn_next = 2\<rparr>, 2 \<mapsto> demo_node ''a'' 0 5 0],
        fc_map := [''a'' \<mapsto> 2], fc_bytes_used := 5\<rparr>"
      "\<lparr>fn_file_name = [], fn_buf = None, fn_pin_count = 0, fn_size = 0, fn_next = 2\<rparr>" 2 "demo_node ''a'' 0 5 0" 5 1]
  by (auto simp: demo_node_def)

theorem evict_leaves_dangling_witness:
  "\<exists>ok fc'. evict 2 (demo_cache 0) = Some (Inr (ok, fc')) \<and> node_at fc' (fc_head fc') = Inl BadAddress"
  using evict_leaves_dangling [of "demo_cache 0" "\<lparr>fn_file_name = [], fn_buf = None, fn_pin_count = 0, fn_size = 0, fn_next = 2\<rparr>"
      2 3 "demo_node ''a'' 0 1 3" "demo_node ''b'' 0 1 0" 1 2]
  by (auto simp: demo_cache_def demo_node_def)

end
