(* ===== verification/Callbacks.thy ===== *)
theory Callbacks
  imports Prelude
begin

text \<open>
  The callback classes of \<open>callback_instances.hpp\<close>: for every number of arguments up to three and every number
  of leading arguments that are bound, a class whose objects are called once and delete themselves, and one
  whose objects are called any number of times.  The C++ objects live in a heap; the code a target runs may
  change that heap and everything else.
\<close>

section \<open>The interface\<close>

record 'w cb_world =
  cw_live :: "addr set"   \<comment> \<open>the callback objects that exist\<close>
  cw_new :: addr          \<comment> \<open>the address the next \<open>new\<close> returns\<close>
  cw_rest :: 'w

type_synonym ('w, 'r) effect = "'w cb_world \<Rightarrow> ('r \<times> 'w cb_world) result"

text \<open>\<open>Callback<Res, Args...>\<close>: the address of the object, \<open>once()\<close> and \<open>operator()\<close>.\<close>

record ('args, 'w, 'r) callback =
  cb_this :: addr
  cb_once :: bool
  cb_call :: "'args \<Rightarrow> ('w, 'r) effect"

definition delete_callback :: "addr \<Rightarrow> 'w cb_world \<Rightarrow> 'w cb_world result" where
  "delete_callback a w = (if a \<in> cw_live w then Inr (w\<lparr>cw_live := cw_live w - {a}\<rparr>) else Inl BadAddress)"

text \<open>A virtual call through the pointer to an object; a dead object has no table to read.\<close>

definition invoke :: "('args, 'w, 'r) callback \<Rightarrow> 'args \<Rightarrow> ('w, 'r) effect" where
  "invoke c args w = (if cb_this c \<in> cw_live w then cb_call c args w else Inl BadAddress)"

definition new_callback :: "(addr \<Rightarrow> ('args, 'w, 'r) callback) \<Rightarrow> 'w cb_world \<Rightarrow> ('args, 'w, 'r) callback \<times> 'w cb_world" where
  "new_callback mk w = (mk (cw_new w), w\<lparr>cw_live := insert (cw_new w) (cw_live w), cw_new := cw_new w + 1\<rparr>)"

text \<open>The body of \<open>operator()\<close> of the classes for one call: the target, then \<open>delete this\<close>.\<close>

definition call_once :: "addr \<Rightarrow> ('w, 'r) effect \<Rightarrow> ('w, 'r) effect" where
  "call_once this target w = rbind (target w) (\<lambda>(ret, w). rbind (delete_callback this w) (\<lambda>w. Inr (ret, w)))"

section \<open>The classes\<close>

definition CallableOnce_0_0 :: "('tg \<Rightarrow> ('w, 'r) effect) \<Rightarrow> 'tg \<Rightarrow> addr \<Rightarrow> (unit, 'w, 'r) callback" where
  "CallableOnce_0_0 target_func obj this =
     \<lparr>cb_this = this, cb_once = True, cb_call = (\<lambda>_. call_once this (target_func obj))\<rparr>"

definition makeCallableOnce_0_0 ::
    "('tg \<Rightarrow> ('w, 'r) effect) \<Rightarrow> 'tg \<Rightarrow> 'w cb_world \<Rightarrow> (unit, 'w, 'r) callback \<times> 'w cb_world" where
  "makeCallableOnce_0_0 f obj w = new_callback (CallableOnce_0_0 f obj) w"

definition CallableMany_0_0 :: "('tg \<Rightarrow> ('w, 'r) effect) \<Rightarrow> 'tg \<Rightarrow> addr \<Rightarrow> (unit, 'w, 'r) callback" where
  "CallableMany_0_0 target_func obj this =
     \<lparr>cb_this = this, cb_once = False, cb_call = (\<lambda>_. target_func obj)\<rparr>"

definition makeCallableMany_0_0 ::
    "('tg \<Rightarrow> ('w, 'r) effect) \<Rightarrow> 'tg \<Rightarrow> 'w cb_world \<Rightarrow> (unit, 'w, 'r) callback \<times> 'w cb_world" where
  "makeCallableMany_0_0 f obj w = new_callback (CallableMany_0_0 f obj) w"

definition CallableOnce_1_0 :: "('tg \<Rightarrow> 'a1 \<Rightarrow> ('w, 'r) effect) \<Rightarrow> 'tg \<Rightarrow> addr \<Rightarrow> ('a1, 'w, 'r) callback" where
  "CallableOnce_1_0 target_func obj this =
     \<lparr>cb_this = this, cb_once = True, cb_call = (\<lambda>arg1. call_once this (target_func obj arg1))\<rparr>"

definition makeCallableOnce_1_0 ::
    "('tg \<Rightarrow> 'a1 \<Rightarrow> ('w, 'r) effect) \<Rightarrow> 'tg \<Rightarrow> 'w cb_world \<Rightarrow> ('a1, 'w, 'r) callback \<times> 'w cb_world" where
  "makeCallableOnce_1_0 f obj w = new_callback (CallableOnce_1_0 f obj) w"

definition CallableMany_1_0 :: "('tg \<Rightarrow> 'a1 \<Rightarrow> ('w, 'r) effect) \<Rightarrow> 'tg \<Rightarrow> addr \<Rightarrow> ('a1, 'w, 'r) callback" where
  "CallableMany_1_0 target_func obj this =
     \<lparr>cb_this = this, cb_once = False, cb_call = (\<lambda>arg1. target_func obj arg1)\<rparr>"

definition makeCallableMany_1_0 ::
    "('tg \<Rightarrow> 'a1 \<Rightarrow> ('w, 'r) effect) \<Rightarrow> 'tg \<Rightarrow> 'w cb_world \<Rightarrow> ('a1, 'w, 'r) callback \<times> 'w cb_world" where
  "makeCallableMany_1_0 f obj w = new_callback (CallableMany_1_0 f obj) w"

definition CallableOnce_1_1 :: "('tg \<Rightarrow> 'b1 \<Rightarrow> ('w, 'r) effect) \<Rightarrow> 'tg \<Rightarrow> 'b1 \<Rightarrow> addr \<Rightarrow> (unit, 'w, 'r) callback" where
  "CallableOnce_1_1 target_func obj bind1 this =
     \<lparr>cb_this = this, cb_once = True, cb_call = (\<lambda>_. call_once this (target_func obj bind1))\<rparr>"

definition makeCallableOnce_1_1 ::
    "('tg \<Rightarrow> 'b1 \<Rightarrow> ('w, 'r) effect) \<Rightarrow> 'tg \<Rightarrow> 'b1 \<Rightarrow> 'w cb_world \<Rightarrow> (unit, 'w, 'r) callback \<times> 'w cb_world" where
  "makeCallableOnce_1_1 f obj bind1 w = new_callback (CallableOnce_1_1 f obj bind1) w"

definition CallableMany_1_1 :: "('tg \<Rightarrow> 'b1 \<Rightarrow> ('w, 'r) effect) \<Rightarrow> 'tg \<Rightarrow> 'b1 \<Rightarrow> addr \<Rightarrow> (unit, 'w, 'r) callback" where
  "CallableMany_1_1 target_func obj bind1 this =
     \<lparr>cb_this = this, cb_once = False, cb_call = (\<lambda>_. target_func obj bind1)\<rparr>"

definition makeCallableMany_1_1 ::
    "('tg \<Rightarrow> 'b1 \<Rightarrow> ('w, 'r) effect) \<Rightarrow> 'tg \<Rightarrow> 'b1 \<Rightarrow> 'w cb_world \<Rightarrow> (unit, 'w, 'r) callback \<times> 'w cb_world" where
  "makeCallableMany_1_1 f obj bind1 w = new_callback (CallableMany_1_1 f obj bind1) w"

definition CallableOnce_2_0 :: "('tg \<Rightarrow> 'a1 \<Rightarrow> 'a2 \<Rightarrow> ('w, 'r) effect) \<Rightarrow> 'tg \<Rightarrow> addr \<Rightarrow> (('a1 \<times> 'a2), 'w, 'r) callback" where
  "CallableOnce_2_0 target_func obj this =
     \<lparr>cb_this = this, cb_once = True, cb_call = (\<lambda>(arg1, arg2). call_once this (target_func obj arg1 arg2))\<rparr>"

definition makeCallableOnce_2_0 ::
    "('tg \<Rightarrow> 'a1 \<Rightarrow> 'a2 \<Rightarrow> ('w, 'r) effect) \<Rightarrow> 'tg \<Rightarrow> 'w cb_world \<Rightarrow> (('a1 \<times> 'a2), 'w, 'r) callback \<times> 'w cb_world" where
  "makeCallableOnce_2_0 f obj w = new_callback (CallableOnce_2_0 f obj) w"

definition CallableMany_2_0 :: "('tg \<Rightarrow> 'a1 \<Rightarrow> 'a2 \<Rightarrow> ('w, 'r) effect) \<Rightarrow> 'tg \<Rightarrow> addr \<Rightarrow> (('a1 \<times> 'a2), 'w, 'r) callback" where
  "CallableMany_2_0 target_func obj this =
     \<lparr>cb_this = this, cb_once = False, cb_call = (\<lambda>(arg1, arg2). target_func obj arg1 arg2)\<rparr>"

definition makeCallableMany_2_0 ::
    "('tg \<Rightarrow> 'a1 \<Rightarrow> 'a2 \<Rightarrow> ('w, 'r) effect) \<Rightarrow> 'tg \<Rightarrow> 'w cb_world \<Rightarrow> (('a1 \<times> 'a2), 'w, 'r) callback \<times> 'w cb_world" where
  "makeCallableMany_2_0 f obj w = new_callback (CallableMany_2_0 f obj) w"

definition CallableOnce_2_1 :: "('tg \<Rightarrow> 'b1 \<Rightarrow> 'a1 \<Rightarrow> ('w, 'r) effect) \<Rightarrow> 'tg \<Rightarrow> 'b1 \<Rightarrow> addr \<Rightarrow> ('a1, 'w, 'r) callback" where
  "CallableOnce_2_1 target_func obj bind1 this =
     \<lparr>cb_this = this, cb_once = True, cb_call = (\<lambda>arg1. call_once this (target_func obj bind1 arg1))\<rparr>"

definition makeCallableOnce_2_1 ::
    "('tg \<Rightarrow> 'b1 \<Rightarrow> 'a1 \<Rightarrow> ('w, 'r) effect) \<Rightarrow> 'tg \<Rightarrow> 'b1 \<Rightarrow> 'w cb_world \<Rightarrow> ('a1, 'w, 'r) callback \<times> 'w cb_world" where
  "makeCallableOnce_2_1 f obj bind1 w = new_callback (CallableOnce_2_1 f obj bind1) w"

definition CallableMany_2_1 :: "('tg \<Rightarrow> 'b1 \<Rightarrow> 'a1 \<Rightarrow> ('w, 'r) effect) \<Rightarrow> 'tg \<Rightarrow> 'b1 \<Rightarrow> addr \<Rightarrow> ('a1, 'w, 'r) callback" where
  "CallableMany_2_1 target_func obj bind1 this =
     \<lparr>cb_this = this, cb_once = False, cb_call = (\<lambda>arg1. target_func obj bind1 arg1)\<rparr>"

definition makeCallableMany_2_1 ::
    "('tg \<Rightarrow> 'b1 \<Rightarrow> 'a1 \<Rightarrow> ('w, 'r) effect) \<Rightarrow> 'tg \<Rightarrow> 'b1 \<Rightarrow> 'w cb_world \<Rightarrow> ('a1, 'w, 'r) callback \<times> 'w cb_world" where
  "makeCallableMany_2_1 f obj bind1 w = new_callback (CallableMany_2_1 f obj bind1) w"

definition CallableOnce_2_2 :: "('tg \<Rightarrow> 'b1 \<Rightarrow> 'b2 \<Rightarrow> ('w, 'r) effect) \<Rightarrow> 'tg \<Rightarrow> 'b1 \<Rightarrow> 'b2 \<Rightarrow> addr \<Rightarrow> (unit, 'w, 'r) callback" where
  "CallableOnce_2_2 target_func obj bind1 bind2 this =
     \<lparr>cb_this = this, cb_once = True, cb_call = (\<lambda>_. call_once this (target_func obj bind1 bind2))\<rparr>"

definition makeCallableOnce_2_2 ::
    "('tg \<Rightarrow> 'b1 \<Rightarrow> 'b2 \<Rightarrow> ('w, 'r) effect) \<Rightarrow> 'tg \<Rightarrow> 'b1 \<Rightarrow> 'b2 \<Rightarrow> 'w cb_world \<Rightarrow> (unit, 'w, 'r) callback \<times> 'w cb_world" where
  "makeCallableOnce_2_2 f obj bind1 bind2 w = new_callback (CallableOnce_2_2 f obj bind1 bind2) w"

definition CallableMany_2_2 :: "('tg \<Rightarrow> 'b1 \<Rightarrow> 'b2 \<Rightarrow> ('w, 'r) effect) \<Rightarrow> 'tg \<Rightarrow> 'b1 \<Rightarrow> 'b2 \<Rightarrow> addr \<Rightarrow> (unit, 'w, 'r) callback" where
  "CallableMany_2_2 target_func obj bind1 bind2 this =
     \<lparr>cb_this = this, cb_once = False, cb_call = (\<lambda>_. target_func obj bind1 bind2)\<rparr>"

definition makeCallableMany_2_2 ::
    "('tg \<Rightarrow> 'b1 \<Rightarrow> 'b2 \<Rightarrow> ('w, 'r) effect) \<Rightarrow> 'tg \<Rightarrow> 'b1 \<Rightarrow> 'b2 \<Rightarrow> 'w cb_world \<Rightarrow> (unit, 'w, 'r) callback \<times> 'w cb_world" where
  "makeCallableMany_2_2 f obj bind1 bind2 w = new_callback (CallableMany_2_2 f obj bind1 bind2) w"

definition CallableOnce_3_0 :: "('tg \<Rightarrow> 'a1 \<Rightarrow> 'a2 \<Rightarrow> 'a3 \<Rightarrow> ('w, 'r) effect) \<Rightarrow> 'tg \<Rightarrow> addr \<Rightarrow> (('a1 \<times> 'a2 \<times> 'a3), 'w, 'r) callback" where
  "CallableOnce_3_0 target_func obj this =
     \<lparr>cb_this = this, cb_once = True, cb_call = (\<lambda>(arg1, arg2, arg3). call_once this (target_func obj arg1 arg2 arg3))\<rparr>"

definition makeCallableOnce_3_0 ::
    "('tg \<Rightarrow> 'a1 \<Rightarrow> 'a2 \<Rightarrow> 'a3 \<Rightarrow> ('w, 'r) effect) \<Rightarrow> 'tg \<Rightarrow> 'w cb_world \<Rightarrow> (('a1 \<times> 'a2 \<times> 'a3), 'w, 'r) callback \<times> 'w cb_world" where
  "makeCallableOnce_3_0 f obj w = new_callback (CallableOnce_3_0 f obj) w"

definition CallableMany_3_0 :: "('tg \<Rightarrow> 'a1 \<Rightarrow> 'a2 \<Rightarrow> 'a3 \<Rightarrow> ('w, 'r) effect) \<Rightarrow> 'tg \<Rightarrow> addr \<Rightarrow> (('a1 \<times> 'a2 \<times> 'a3), 'w, 'r) callback" where
  "CallableMany_3_0 target_func obj this =
     \<lparr>cb_this = this, cb_once = False, cb_call = (\<lambda>(arg1, arg2, arg3). target_func obj arg1 arg2 arg3)\<rparr>"

definition makeCallableMany_3_0 ::
    "('tg \<Rightarrow> 'a1 \<Rightarrow> 'a2 \<Rightarrow> 'a3 \<Rightarrow> ('w, 'r) effect) \<Rightarrow> 'tg \<Rightarrow> 'w cb_world \<Rightarrow> (('a1 \<times> 'a2 \<times> 'a3), 'w, 'r) callback \<times> 'w cb_world" where
  "makeCallableMany_3_0 f obj w = new_callback (CallableMany_3_0 f obj) w"

definition CallableOnce_3_1 :: "('tg \<Rightarrow> 'b1 \<Rightarrow> 'a1 \<Rightarrow> 'a2 \<Rightarrow> ('w, 'r) effect) \<Rightarrow> 'tg \<Rightarrow> 'b1 \<Rightarrow> addr \<Rightarrow> (('a1 \<times> 'a2), 'w, 'r) callback" where
  "CallableOnce_3_1 target_func obj bind1 this =
     \<lparr>cb_this = this, cb_once = True, cb_call = (\<lambda>(arg1, arg2). call_once this (target_func obj bind1 arg1 arg2))\<rparr>"

definition makeCallableOnce_3_1 ::
    "('tg \<Rightarrow> 'b1 \<Rightarrow> 'a1 \<Rightarrow> 'a2 \<Rightarrow> ('w, 'r) effect) \<Rightarrow> 'tg \<Rightarrow> 'b1 \<Rightarrow> 'w cb_world \<Rightarrow> (('a1 \<times> 'a2), 'w, 'r) callback \<times> 'w cb_world" where
  "makeCallableOnce_3_1 f obj bind1 w = new_callback (CallableOnce_3_1 f obj bind1) w"

definition CallableMany_3_1 :: "('tg \<Rightarrow> 'b1 \<Rightarrow> 'a1 \<Rightarrow> 'a2 \<Rightarrow> ('w, 'r) effect) \<Rightarrow> 'tg \<Rightarrow> 'b1 \<Rightarrow> addr \<Rightarrow> (('a1 \<times> 'a2), 'w, 'r) callback" where
  "CallableMany_3_1 target_func obj bind1 this =
     \<lparr>cb_this = this, cb_once = False, cb_call = (\<lambda>(arg1, arg2). target_func obj bind1 arg1 arg2)\<rparr>"

definition makeCallableMany_3_1 ::
    "('tg \<Rightarrow> 'b1 \<Rightarrow> 'a1 \<Rightarrow> 'a2 \<Rightarrow> ('w, 'r) effect) \<Rightarrow> 'tg \<Rightarrow> 'b1 \<Rightarrow> 'w cb_world \<Rightarrow> (('a1 \<times> 'a2), 'w, 'r) callback \<times> 'w cb_world" where
  "makeCallableMany_3_1 f obj bind1 w = new_callback (CallableMany_3_1 f obj bind1) w"

definition CallableOnce_3_2 :: "('tg \<Rightarrow> 'b1 \<Rightarrow> 'b2 \<Rightarrow> 'a1 \<Rightarrow> ('w, 'r) effect) \<Rightarrow> 'tg \<Rightarrow> 'b1 \<Rightarrow> 'b2 \<Rightarrow> addr \<Rightarrow> ('a1, 'w, 'r) callback" where
  "CallableOnce_3_2 target_func obj bind1 bind2 this =
     \<lparr>cb_this = this, cb_once = True, cb_call = (\<lambda>arg1. call_once this (target_func obj bind1 bind2 arg1))\<rparr>"

definition makeCallableOnce_3_2 ::
    "('tg \<Rightarrow> 'b1 \<Rightarrow> 'b2 \<Rightarrow> 'a1 \<Rightarrow> ('w, 'r) effect) \<Rightarrow> 'tg \<Rightarrow> 'b1 \<Rightarrow> 'b2 \<Rightarrow> 'w cb_world \<Rightarrow> ('a1, 'w, 'r) callback \<times> 'w cb_world" where
  "makeCallableOnce_3_2 f obj bind1 bind2 w = new_callback (CallableOnce_3_2 f obj bind1 bind2) w"

definition CallableMany_3_2 :: "('tg \<Rightarrow> 'b1 \<Rightarrow> 'b2 \<Rightarrow> 'a1 \<Rightarrow> ('w, 'r) effect) \<Rightarrow> 'tg \<Rightarrow> 'b1 \<Rightarrow> 'b2 \<Rightarrow> addr \<Rightarrow> ('a1, 'w, 'r) callback" where
  "CallableMany_3_2 target_func obj bind1 bind2 this =
     \<lparr>cb_this = this, cb_once = False, cb_call = (\<lambda>arg1. target_func obj bind1 bind2 arg1)\<rparr>"

definition makeCallableMany_3_2 ::
    "('tg \<Rightarrow> 'b1 \<Rightarrow> 'b2 \<Rightarrow> 'a1 \<Rightarrow> ('w, 'r) effect) \<Rightarrow> 'tg \<Rightarrow> 'b1 \<Rightarrow> 'b2 \<Rightarrow> 'w cb_world \<Rightarrow> ('a1, 'w, 'r) callback \<times> 'w cb_world" where
  "makeCallableMany_3_2 f obj bind1 bind2 w = new_callback (CallableMany_3_2 f obj bind1 bind2) w"

definition CallableOnce_3_3 :: "('tg \<Rightarrow> 'b1 \<Rightarrow> 'b2 \<Rightarrow> 'b3 \<Rightarrow> ('w, 'r) effect) \<Rightarrow> 'tg \<Rightarrow> 'b1 \<Rightarrow> 'b2 \<Rightarrow> 'b3 \<Rightarrow> addr \<Rightarrow> (unit, 'w, 'r) callback" where
  "CallableOnce_3_3 target_func obj bind1 bind2 bind3 this =
     \<lparr>cb_this = this, cb_once = True, cb_call = (\<lambda>_. call_once this (target_func obj bind1 bind2 bind3))\<rparr>"

definition makeCallableOnce_3_3 ::
    "('tg \<Rightarrow> 'b1 \<Rightarrow> 'b2 \<Rightarrow> 'b3 \<Rightarrow> ('w, 'r) effect) \<Rightarrow> 'tg \<Rightarrow> 'b1 \<Rightarrow> 'b2 \<Rightarrow> 'b3 \<Rightarrow> 'w cb_world \<Rightarrow> (unit, 'w, 'r) callback \<times> 'w cb_world" where
  "makeCallableOnce_3_3 f obj bind1 bind2 bind3 w = new_callback (CallableOnce_3_3 f obj bind1 bind2 bind3) w"

definition CallableMany_3_3 :: "('tg \<Rightarrow> 'b1 \<Rightarrow> 'b2 \<Rightarrow> 'b3 \<Rightarrow> ('w, 'r) effect) \<Rightarrow> 'tg \<Rightarrow> 'b1 \<Rightarrow> 'b2 \<Rightarrow> 'b3 \<Rightarrow> addr \<Rightarrow> (unit, 'w, 'r) callback" where
  "CallableMany_3_3 target_func obj bind1 bind2 bind3 this =
     \<lparr>cb_this = this, cb_once = False, cb_call = (\<lambda>_. target_func obj bind1 bind2 bind3)\<rparr>"

definition makeCallableMany_3_3 ::
    "('tg \<Rightarrow> 'b1 \<Rightarrow> 'b2 \<Rightarrow> 'b3 \<Rightarrow> ('w, 'r) effect) \<Rightarrow> 'tg \<Rightarrow> 'b1 \<Rightarrow> 'b2 \<Rightarrow> 'b3 \<Rightarrow> 'w cb_world \<Rightarrow> (unit, 'w, 'r) callback \<times> 'w cb_world" where
  "makeCallableMany_3_3 f obj bind1 bind2 bind3 w = new_callback (CallableMany_3_3 f obj bind1 bind2 bind3) w"

section \<open>What the two kinds of classes promise\<close>

text \<open>
  A fresh object for one call: it calls its target with the bound arguments first, deletes itself, and a
  second call reads a dead object; if the target deletes it, the delete after the call is a second one.
\<close>

definition runs_once :: "('args, 'w, 'r) callback \<times> 'w cb_world \<Rightarrow> ('args \<Rightarrow> ('w, 'r) effect) \<Rightarrow> bool" where
  "runs_once cw body \<longleftrightarrow> (case cw of (c, w0) \<Rightarrow>
     cb_once c \<and> cb_this c \<in> cw_live w0 \<and>
     (\<forall>args w ret w'. cb_this c \<in> cw_live w \<and> body args w = Inr (ret, w') \<longrightarrow>
        (if cb_this c \<in> cw_live w'
         then invoke c args w = Inr (ret, w'\<lparr>cw_live := cw_live w' - {cb_this c}\<rparr>) \<and>
           (\<forall>args2. invoke c args2 (w'\<lparr>cw_live := cw_live w' - {cb_this c}\<rparr>) = Inl BadAddress)
         else invoke c args w = Inl BadAddress)))"

text \<open>Calls in sequence.\<close>

fun in_turn :: "('args \<Rightarrow> ('w, 'r) effect) \<Rightarrow> 'args list \<Rightarrow> ('w, 'r list) effect" where
  "in_turn f [] w = Inr ([], w)"
| "in_turn f (a # as) w = rbind (f a w) (\<lambda>(r, w). rbind (in_turn f as w) (\<lambda>(rs, w). Inr (r # rs, w)))"

text \<open>A fresh object for many calls: as long as its target keeps it, any sequence of calls is that sequence of calls of the target.\<close>

definition runs_many :: "('args, 'w, 'r) callback \<times> 'w cb_world \<Rightarrow> ('args \<Rightarrow> ('w, 'r) effect) \<Rightarrow> bool" where
  "runs_many cw body \<longleftrightarrow> (case cw of (c, w0) \<Rightarrow>
     \<not> cb_once c \<and> cb_this c \<in> cw_live w0 \<and>
     ((\<forall>args w ret w'. body args w = Inr (ret, w') \<and> cb_this c \<in> cw_live w \<longrightarrow> cb_this c \<in> cw_live w') \<longrightarrow>
      (\<forall>as w. cb_this c \<in> cw_live w \<longrightarrow> in_turn (invoke c) as w = in_turn body as w)))"

locale once_class =
  fixes mk :: "addr \<Rightarrow> ('args, 'w, 'r) callback" and body :: "'args \<Rightarrow> ('w, 'r) effect"
  assumes this_mk: "cb_this (mk a) = a"
    and once_mk: "cb_once (mk a)"
    and call_mk: "cb_call (mk a) args w = call_once a (body args) w"
begin

lemma new_runs_once: "runs_once (new_callback mk w) body"
  by (simp add: runs_once_def new_callback_def this_mk once_mk invoke_def call_mk call_once_def delete_callback_def)

end

locale many_class =
  fixes mk :: "addr \<Rightarrow> ('args, 'w, 'r) callback" and body :: "'args \<Rightarrow> ('w, 'r) effect"
  assumes this_mk: "cb_this (mk a) = a"
    and many_mk: "\<not> cb_once (mk a)"
    and call_mk: "cb_call (mk a) args w = body args w"
begin

lemma in_turn_mk:
  assumes keep: "\<And>args w ret w'. body args w = Inr (ret, w') \<Longrightarrow> a \<in> cw_live w \<Longrightarrow> a \<in> cw_live w'" and "a \<in> cw_live w"
  shows "in_turn (invoke (mk a)) as w = in_turn body as w"
  using assms(2)
proof (induction as arbitrary: w)
  case (Cons x xs)
  then show ?case
    using keep by (cases "body x w") (auto simp: invoke_def this_mk call_mk)
qed simp

lemma new_runs_many: "runs_many (new_callback mk w) body"
  using in_turn_mk by (fastforce simp: runs_many_def new_callback_def this_mk many_mk)

end

interpretation once00: once_class "CallableOnce_0_0 f obj" "\<lambda>_. f obj" for f obj
  by unfold_locales (auto simp: CallableOnce_0_0_def)

interpretation many00: many_class "CallableMany_0_0 f obj" "\<lambda>_. f obj" for f obj
  by unfold_locales (auto simp: CallableMany_0_0_def)

interpretation once10: once_class "CallableOnce_1_0 f obj" "\<lambda>arg1. f obj arg1" for f obj
  by unfold_locales (auto simp: CallableOnce_1_0_def)

interpretation many10: many_class "CallableMany_1_0 f obj" "\<lambda>arg1. f obj arg1" for f obj
  by unfold_locales (auto simp: CallableMany_1_0_def)

interpretation once11: once_class "CallableOnce_1_1 f obj bind1" "\<lambda>_. f obj bind1" for f obj bind1
  by unfold_locales (auto simp: CallableOnce_1_1_def)

interpretation many11: many_class "CallableMany_1_1 f obj bind1" "\<lambda>_. f obj bind1" for f obj bind1
  by unfold_locales (auto simp: CallableMany_1_1_def)

interpretation once20: once_class "CallableOnce_2_0 f obj" "\<lambda>(arg1, arg2). f obj arg1 arg2" for f obj
  by unfold_locales (auto simp: CallableOnce_2_0_def)

interpretation many20: many_class "CallableMany_2_0 f obj" "\<lambda>(arg1, arg2). f obj arg1 arg2" for f obj
  by unfold_locales (auto simp: CallableMany_2_0_def)

interpretation once21: once_class "CallableOnce_2_1 f obj bind1" "\<lambda>arg1. f obj bind1 arg1" for f obj bind1
  by unfold_locales (auto simp: CallableOnce_2_1_def)

interpretation many21: many_class "CallableMany_2_1 f obj bind1" "\<lambda>arg1. f obj bind1 arg1" for f obj bind1
  by unfold_locales (auto simp: CallableMany_2_1_def)

interpretation once22: once_class "CallableOnce_2_2 f obj bind1 bind2" "\<lambda>_. f obj bind1 bind2" for f obj bind1 bind2
  by unfold_locales (auto simp: CallableOnce_2_2_def)

interpretation many22: many_class "CallableMany_2_2 f obj bind1 bind2" "\<lambda>_. f obj bind1 bind2" for f obj bind1 bind2
  by unfold_locales (auto simp: CallableMany_2_2_def)

interpretation once30: once_class "CallableOnce_3_0 f obj" "\<lambda>(arg1, arg2, arg3). f obj arg1 arg2 arg3" for f obj
  by unfold_locales (auto simp: CallableOnce_3_0_def)

interpretation many30: many_class "CallableMany_3_0 f obj" "\<lambda>(arg1, arg2, arg3). f obj arg1 arg2 arg3" for f obj
  by unfold_locales (auto simp: CallableMany_3_0_def)

interpretation once31: once_class "CallableOnce_3_1 f obj bind1" "\<lambda>(arg1, arg2). f obj bind1 arg1 arg2" for f obj bind1
  by unfold_locales (auto simp: CallableOnce_3_1_def)

interpretation many31: many_class "CallableMany_3_1 f obj bind1" "\<lambda>(arg1, arg2). f obj bind1 arg1 arg2" for f obj bind1
  by unfold_locales (auto simp: CallableMany_3_1_def)

interpretation once32: once_class "CallableOnce_3_2 f obj bind1 bind2" "\<lambda>arg1. f obj bind1 bind2 arg1" for f obj bind1 bind2
  by unfold_locales (auto simp: CallableOnce_3_2_def)

interpretation many32: many_class "CallableMany_3_2 f obj bind1 bind2" "\<lambda>arg1. f obj bind1 bind2 arg1" for f obj bind1 bind2
  by unfold_locales (auto simp: CallableMany_3_2_def)

interpretation once33: once_class "CallableOnce_3_3 f obj bind1 bind2 bind3" "\<lambda>_. f obj bind1 bind2 bind3" for f obj bind1 bind2 bind3
  by unfold_locales (auto simp: CallableOnce_3_3_def)

interpretation many33: many_class "CallableMany_3_3 f obj bind1 bind2 bind3" "\<lambda>_. f obj bind1 bind2 bind3" for f obj bind1 bind2 bind3
  by unfold_locales (auto simp: CallableMany_3_3_def)

lemmas make_once_defs =
  makeCallableOnce_0_0_def
  makeCallableOnce_1_0_def
  makeCallableOnce_1_1_def
  makeCallableOnce_2_0_def
  makeCallableOnce_2_1_def
  makeCallableOnce_2_2_def
  makeCallableOnce_3_0_def
  makeCallableOnce_3_1_def
  makeCallableOnce_3_2_def
  makeCallableOnce_3_3_def

lemmas make_many_defs =
  makeCallableMany_0_0_def
  makeCallableMany_1_0_def
  makeCallableMany_1_1_def
  makeCallableMany_2_0_def
  makeCallableMany_2_1_def
  makeCallableMany_2_2_def
  makeCallableMany_3_0_def
  makeCallableMany_3_1_def
  makeCallableMany_3_2_def
  makeCallableMany_3_3_def

text \<open>
  Every \<open>makeCallableOnce\<close> returns an object whose call runs the target with the bound arguments followed by those of the
  call; when the target returns and has kept the object, the call returns its result and deletes the object, so that a second
  call reads a dead object.
\<close>

lemma callables_once:
  "runs_once (makeCallableOnce_0_0 f00 obj w) (\<lambda>_. f00 obj) \<and>
   runs_once (makeCallableOnce_1_0 f10 obj w) (\<lambda>arg1. f10 obj arg1) \<and>
   runs_once (makeCallableOnce_1_1 f11 obj bind1 w) (\<lambda>_. f11 obj bind1) \<and>
   runs_once (makeCallableOnce_2_0 f20 obj w) (\<lambda>(arg1, arg2). f20 obj arg1 arg2) \<and>
   runs_once (makeCallableOnce_2_1 f21 obj bind1 w) (\<lambda>arg1. f21 obj bind1 arg1) \<and>
   runs_once (makeCallableOnce_2_2 f22 obj bind1 bind2 w) (\<lambda>_. f22 obj bind1 bind2) \<and>
   runs_once (makeCallableOnce_3_0 f30 obj w) (\<lambda>(arg1, arg2, arg3). f30 obj arg1 arg2 arg3) \<and>
   runs_once (makeCallableOnce_3_1 f31 obj bind1 w) (\<lambda>(arg1, arg2). f31 obj bind1 arg1 arg2) \<and>
   runs_once (makeCallableOnce_3_2 f32 obj bind1 bind2 w) (\<lambda>arg1. f32 obj bind1 bind2 arg1) \<and>
   runs_once (makeCallableOnce_3_3 f33 obj bind1 bind2 bind3 w) (\<lambda>_. f33 obj bind1 bind2 bind3)"
  unfolding make_once_defs
  by (intro conjI once00.new_runs_once once10.new_runs_once once11.new_runs_once once20.new_runs_once once21.new_runs_once once22.new_runs_once once30.new_runs_once once31.new_runs_once once32.new_runs_once once33.new_runs_once)

text \<open>Every \<open>makeCallableMany\<close> returns an object that can be called again and again.\<close>

lemma callables_many:
  "runs_many (makeCallableMany_0_0 f00 obj w) (\<lambda>_. f00 obj) \<and>
   runs_many (makeCallableMany_1_0 f10 obj w) (\<lambda>arg1. f10 obj arg1) \<and>
   runs_many (makeCallableMany_1_1 f11 obj bind1 w) (\<lambda>_. f11 obj bind1) \<and>
   runs_many (makeCallableMany_2_0 f20 obj w) (\<lambda>(arg1, arg2). f20 obj arg1 arg2) \<and>
   runs_many (makeCallableMany_2_1 f21 obj bind1 w) (\<lambda>arg1. f21 obj bind1 arg1) \<and>
   runs_many (makeCallableMany_2_2 f22 obj bind1 bind2 w) (\<lambda>_. f22 obj bind1 bind2) \<and>
   runs_many (makeCallableMany_3_0 f30 obj w) (\<lambda>(arg1, arg2, arg3). f30 obj arg1 arg2 arg3) \<and>
   runs_many (makeCallableMany_3_1 f31 obj bind1 w) (\<lambda>(arg1, arg2). f31 obj bind1 arg1 arg2) \<and>
   runs_many (makeCallableMany_3_2 f32 obj bind1 bind2 w) (\<lambda>arg1. f32 obj bind1 bind2 arg1) \<and>
   runs_many (makeCallableMany_3_3 f33 obj bind1 bind2 bind3 w) (\<lambda>_. f33 obj bind1 bind2 bind3)"
  unfolding make_many_defs
  by (intro conjI many00.new_runs_many many10.new_runs_many many11.new_runs_many many20.new_runs_many many21.new_runs_many many22.new_runs_many many30.new_runs_many many31.new_runs_many many32.new_runs_many many33.new_runs_many)

end
