(* ===== verification/Spin_Locks.thy ===== *)
theory Spin_Locks
  imports Prelude
begin

text \<open>
  The two spinning locks (\<open>spinlock.hpp\<close>, \<open>spinlock_mcs.hpp\<close>) as interleavings of atomic steps of
  threads.  Each step is one access to shared memory; a spinning loop is a step that may be taken again.
\<close>

section \<open>Locks and their histories\<close>

type_synonym tid = nat

inductive reachable :: "('s \<Rightarrow> bool) \<Rightarrow> ('s \<Rightarrow> 's \<Rightarrow> bool) \<Rightarrow> 's \<Rightarrow> bool" for init step where
  start: "init s \<Longrightarrow> reachable init step s"
| continue: "reachable init step s \<Longrightarrow> step s s' \<Longrightarrow> reachable init step s'"

text \<open>What a lock's invariant has to provide.\<close>

locale lock_protocol =
  fixes init :: "'s \<Rightarrow> bool"
    and step :: "'s \<Rightarrow> 's \<Rightarrow> bool"
    and inside :: "'s \<Rightarrow> tid \<Rightarrow> bool"
    and inv :: "'s \<Rightarrow> bool"
  assumes init_inv: "init s \<Longrightarrow> inv s"
    and step_inv: "inv s \<Longrightarrow> step s s' \<Longrightarrow> inv s'"
    and inv_exclusive: "inv s \<Longrightarrow> inside s t \<Longrightarrow> inside s u \<Longrightarrow> t = u"
begin

lemma reachable_inv: "reachable init step s \<Longrightarrow> inv s"
  by (induction rule: reachable.induct) (auto intro: init_inv step_inv)

lemma exclusive: "reachable init step s \<Longrightarrow> inside s t \<Longrightarrow> inside s u \<Longrightarrow> t = u"
  using reachable_inv inv_exclusive by blast

end

section \<open>Spinlock\<close>

text \<open>
  Where a thread is in \<open>Spinlock::lock\<close>: before the call, behind the first load that found the lock
  free, spinning with \<open>k\<close> rounds left, in the loop of test-and-set, or holding the lock.
\<close>

datatype spin_pc = SOut | SFast | SSpin nat | SSleep | SHeld

record spin_state =
  sp_locked :: bool
  sp_pc :: "tid \<Rightarrow> spin_pc"

definition spin_init :: "spin_state \<Rightarrow> bool" where
  "spin_init s \<longleftrightarrow> \<not> sp_locked s \<and> sp_pc s = (\<lambda>_. SOut)"

definition sp_goto :: "tid \<Rightarrow> spin_pc \<Rightarrow> spin_state \<Rightarrow> spin_state" where
  "sp_goto t p s = s\<lparr>sp_pc := (sp_pc s)(t := p)\<rparr>"

inductive spin_step :: "spin_state \<Rightarrow> spin_state \<Rightarrow> bool" where
  load_free: "sp_pc s t = SOut \<Longrightarrow> \<not> sp_locked s \<Longrightarrow> spin_step s (sp_goto t SFast s)"
| load_taken: "sp_pc s t = SOut \<Longrightarrow> sp_locked s \<Longrightarrow> spin_step s (sp_goto t (SSpin 1000) s)"
| fast_set: "sp_pc s t = SFast \<Longrightarrow>
    spin_step s (sp_goto t (if sp_locked s then SSpin 1000 else SHeld) (s\<lparr>sp_locked := True\<rparr>))"
| spin_again: "sp_pc s t = SSpin (Suc k) \<Longrightarrow> sp_locked s \<Longrightarrow> spin_step s (sp_goto t (SSpin k) s)"
| spin_free: "sp_pc s t = SSpin (Suc k) \<Longrightarrow> \<not> sp_locked s \<Longrightarrow> spin_step s (sp_goto t SSleep s)"
| spin_over: "sp_pc s t = SSpin 0 \<Longrightarrow> spin_step s (sp_goto t SSleep s)"
| slow_set: "sp_pc s t = SSleep \<Longrightarrow>
    spin_step s (sp_goto t (if sp_locked s then SSleep else SHeld) (s\<lparr>sp_locked := True\<rparr>))"
| release: "sp_pc s t = SHeld \<Longrightarrow> spin_step s (sp_goto t SOut (s\<lparr>sp_locked := False\<rparr>))"

definition spin_inv :: "spin_state \<Rightarrow> bool" where
  "spin_inv s \<longleftrightarrow> (\<forall>t. sp_pc s t = SHeld \<longrightarrow> sp_locked s) \<and> (\<forall>t u. sp_pc s t = SHeld \<and> sp_pc s u = SHeld \<longrightarrow> t = u)"

lemma spin_step_inv:
  assumes "spin_inv s" "spin_step s s'"
  shows "spin_inv s'"
  using assms(2,1)
  by (cases rule: spin_step.cases) (auto simp: spin_inv_def sp_goto_def split: if_splits)

interpretation spin: lock_protocol spin_init spin_step "\<lambda>s t. sp_pc s t = SHeld" spin_inv
proof
  show "spin_inv s" if "spin_init s" for s
    using that by (simp add: spin_inv_def spin_init_def)
  show "spin_inv s'" if "spin_inv s" "spin_step s s'" for s s'
    using spin_step_inv that by blast
  show "t = u" if "spin_inv s" "sp_pc s t = SHeld" "sp_pc s u = SHeld" for s t u
    using that by (simp add: spin_inv_def)
qed

section \<open>The queue lock\<close>

text \<open>
  \<open>SpinlockMCS\<close>: every thread has one node, named after the thread here.  A thread in \<open>lock\<close> resets its
  node's successor, swaps itself to the tail, and, when there was a predecessor, marks its node as locked,
  links itself behind the predecessor and spins.  In \<open>unlock\<close> it looks at its successor, tries to reset the
  tail, waits for a successor to link itself, and hands the lock over.
\<close>

datatype mcs_pc = MOut | MSwap | MMark tid | MLink tid | MSpin | MHeld | MCas | MWait | MHand

record mcs_state =
  mc_tail :: "tid option"
  mc_locked :: "tid \<Rightarrow> bool"
  mc_next :: "tid \<Rightarrow> tid option"
  mc_pc :: "tid \<Rightarrow> mcs_pc"

definition mcs_init :: "mcs_state \<Rightarrow> bool" where
  "mcs_init s \<longleftrightarrow> mc_tail s = None \<and> mc_pc s = (\<lambda>_. MOut)"

definition mc_goto :: "tid \<Rightarrow> mcs_pc \<Rightarrow> mcs_state \<Rightarrow> mcs_state" where
  "mc_goto t p s = s\<lparr>mc_pc := (mc_pc s)(t := p)\<rparr>"

inductive mcs_step :: "mcs_state \<Rightarrow> mcs_state \<Rightarrow> bool" where
  reset_next: "mc_pc s t = MOut \<Longrightarrow> mcs_step s (mc_goto t MSwap (s\<lparr>mc_next := (mc_next s)(t := None)\<rparr>))"
| swap: "mc_pc s t = MSwap \<Longrightarrow>
    mcs_step s (mc_goto t (case mc_tail s of None \<Rightarrow> MHeld | Some p \<Rightarrow> MMark p) (s\<lparr>mc_tail := Some t\<rparr>))"
| mark: "mc_pc s t = MMark p \<Longrightarrow> mcs_step s (mc_goto t (MLink p) (s\<lparr>mc_locked := (mc_locked s)(t := True)\<rparr>))"
| link: "mc_pc s t = MLink p \<Longrightarrow> mcs_step s (mc_goto t MSpin (s\<lparr>mc_next := (mc_next s)(p := Some t)\<rparr>))"
| spin: "mc_pc s t = MSpin \<Longrightarrow> mcs_step s (mc_goto t (if mc_locked s t then MSpin else MHeld) s)"
| test_next: "mc_pc s t = MHeld \<Longrightarrow> mcs_step s (mc_goto t (if mc_next s t = None then MCas else MHand) s)"
| cas: "mc_pc s t = MCas \<Longrightarrow>
    mcs_step s (if mc_tail s = Some t then mc_goto t MOut (s\<lparr>mc_tail := None\<rparr>) else mc_goto t MWait s)"
| wait_next: "mc_pc s t = MWait \<Longrightarrow> mcs_step s (mc_goto t (if mc_next s t = None then MWait else MHand) s)"
| hand_over: "mc_pc s t = MHand \<Longrightarrow> mc_next s t = Some u \<Longrightarrow>
    mcs_step s (mc_goto t MOut (s\<lparr>mc_locked := (mc_locked s)(u := False)\<rparr>))"

text \<open>The threads that own the lock: from the end of \<open>lock\<close> to the end of \<open>unlock\<close>.\<close>

definition mcs_owns :: "mcs_state \<Rightarrow> tid \<Rightarrow> bool" where
  "mcs_owns s t \<longleftrightarrow> mc_pc s t \<in> {MHeld, MCas, MWait, MHand}"

definition mcs_queued :: "mcs_state \<Rightarrow> tid \<Rightarrow> bool" where
  "mcs_queued s t \<longleftrightarrow> mc_pc s t \<noteq> MOut \<and> mc_pc s t \<noteq> MSwap"

text \<open>\<open>b\<close> is behind \<open>a\<close> in the queue: how far \<open>b\<close> has got and what the nodes hold then.\<close>

definition mcs_behind :: "mcs_state \<Rightarrow> tid \<Rightarrow> tid \<Rightarrow> bool" where
  "mcs_behind s a b \<longleftrightarrow> (mc_pc s b = MMark a \<and> mc_next s a = None) \<or>
     (mc_pc s b = MLink a \<and> mc_next s a = None \<and> mc_locked s b) \<or>
     (mc_pc s b = MSpin \<and> mc_next s a = Some b \<and> mc_locked s b)"

text \<open>What the thread at the front of the queue does.\<close>

definition mcs_front :: "mcs_state \<Rightarrow> tid \<Rightarrow> bool" where
  "mcs_front s h \<longleftrightarrow> mcs_owns s h \<or> (mc_pc s h = MSpin \<and> \<not> mc_locked s h)"

definition mcs_queue :: "mcs_state \<Rightarrow> tid list \<Rightarrow> bool" where
  "mcs_queue s q \<longleftrightarrow> distinct q \<and> set q = {t. mcs_queued s t} \<and>
     mc_tail s = (if q = [] then None else Some (last q)) \<and>
     (q \<noteq> [] \<longrightarrow> mcs_front s (hd q) \<and> mc_next s (last q) = None) \<and>
     (\<forall>i. Suc i < length q \<longrightarrow> mcs_behind s (q ! i) (q ! Suc i)) \<and>
     (\<forall>t. mc_pc s t = MSwap \<longrightarrow> mc_next s t = None) \<and>
     (\<forall>t. mc_pc s t = MHand \<longrightarrow> mc_next s t \<noteq> None)"

definition mcs_inv :: "mcs_state \<Rightarrow> bool" where
  "mcs_inv s \<longleftrightarrow> (\<exists>q. mcs_queue s q)"

lemma behind_not_owner: "mcs_behind s a b \<Longrightarrow> \<not> mcs_owns s b \<and> \<not> mcs_front s b"
  by (auto simp: mcs_behind_def mcs_owns_def mcs_front_def)

lemma mcs_queue_nth: "mcs_queue s q \<Longrightarrow> Suc i < length q \<Longrightarrow> mcs_behind s (q ! i) (q ! Suc i)"
  by (simp add: mcs_queue_def)

lemma mcs_owner_first:
  assumes "mcs_queue s q" "mcs_owns s t"
  shows "q \<noteq> [] \<and> t = hd q"
proof -
  have "t \<in> set q"
    using assms by (auto simp: mcs_queue_def mcs_queued_def mcs_owns_def)
  then obtain i where i: "i < length q" "q ! i = t"
    by (auto simp: in_set_conv_nth)
  have "i = 0"
  proof (rule ccontr)
    assume "i \<noteq> 0"
    then obtain j where "i = Suc j" by (cases i) auto
    then show False
      using mcs_queue_nth [OF assms(1), of j] behind_not_owner assms(2) i by blast
  qed
  then show ?thesis
    using i by (cases q) auto
qed

lemma mcs_waiting_behind:
  assumes "mcs_queue s q" "mc_pc s t = MMark p \<or> mc_pc s t = MLink p"
  obtains i where "Suc i < length q" "q ! i = p" "q ! Suc i = t"
proof -
  have "t \<in> set q"
    using assms by (auto simp: mcs_queue_def mcs_queued_def)
  then obtain j where j: "j < length q" "q ! j = t"
    by (auto simp: in_set_conv_nth)
  have "j \<noteq> 0"
  proof
    assume "j = 0"
    then have "mcs_front s t"
      using assms(1) j by (cases q) (auto simp: mcs_queue_def)
    then show False
      using assms(2) by (auto simp: mcs_front_def mcs_owns_def)
  qed
  then obtain i where i: "j = Suc i" by (cases j) auto
  then have "mcs_behind s (q ! i) t"
    using mcs_queue_nth [OF assms(1), of i] j by simp
  then show thesis
    using that [of i] i j assms(2) by (auto simp: mcs_behind_def)
qed

lemma mcs_queue_mem: "mcs_queue s q \<Longrightarrow> t \<in> set q \<longleftrightarrow> mcs_queued s t"
  by (simp add: mcs_queue_def)

lemma mcs_behind_frame:
  "mc_pc s' b = mc_pc s b \<Longrightarrow> mc_next s' a = mc_next s a \<Longrightarrow> mc_locked s' b = mc_locked s b \<Longrightarrow>
     mcs_behind s a b \<Longrightarrow> mcs_behind s' a b"
  by (simp add: mcs_behind_def)

text \<open>A step of the thread at the front that keeps it there.\<close>

lemma mcs_front_step:
  assumes q: "mcs_queue s q" and h: "q \<noteq> []" "t = hd q" and p: "p \<in> {MHeld, MCas, MWait, MHand}" "p = MHand \<longrightarrow> mc_next s t \<noteq> None"
  shows "mcs_queue (mc_goto t p s) q"
proof -
  have ne: "q ! Suc i \<noteq> t" if "Suc i < length q" for i
    using q h that nth_eq_iff_index_eq [of q "Suc i" 0] by (auto simp: mcs_queue_def hd_conv_nth)
  have "mcs_behind (mc_goto t p s) (q ! i) (q ! Suc i)" if "Suc i < length q" for i
    by (rule mcs_behind_frame [OF _ _ _ mcs_queue_nth [OF q that]]) (use ne [OF that] in \<open>simp_all add: mc_goto_def\<close>)
  moreover have "{u. mcs_queued (mc_goto t p s) u} = {u. mcs_queued s u}"
    using p(1) mcs_queue_mem [OF q, of t] h by (auto simp: mcs_queued_def mc_goto_def)
  ultimately show ?thesis
    using q h p by (auto simp: mcs_queue_def mcs_front_def mcs_owns_def mc_goto_def)
qed

lemma mcs_reset:
  assumes q: "mcs_queue s q" and t: "mc_pc s t = MOut"
  shows "mcs_queue (mc_goto t MSwap (s\<lparr>mc_next := (mc_next s)(t := None)\<rparr>)) q"
proof -
  let ?s' = "mc_goto t MSwap (s\<lparr>mc_next := (mc_next s)(t := None)\<rparr>)"
  have nt: "t \<notin> set q"
    using mcs_queue_mem [OF q] t by (simp add: mcs_queued_def)
  then have ne: "q ! i \<noteq> t" if "i < length q" for i
    using that nth_mem by metis
  have "mcs_behind ?s' (q ! i) (q ! Suc i)" if "Suc i < length q" for i
    by (rule mcs_behind_frame [OF _ _ _ mcs_queue_nth [OF q that]])
      (use ne [of i] ne [of "Suc i"] that in \<open>simp_all add: mc_goto_def\<close>)
  moreover have "{u. mcs_queued ?s' u} = {u. mcs_queued s u}"
    using t by (auto simp: mcs_queued_def mc_goto_def)
  moreover have "mcs_front ?s' (hd q) \<and> last q \<noteq> t" if "q \<noteq> []"
    using q nt that by (cases q) (auto simp: mcs_queue_def mcs_front_def mcs_owns_def mc_goto_def)
  ultimately show ?thesis
    using q t by (auto simp: mcs_queue_def mc_goto_def)
qed

lemma mcs_swap_first:
  assumes q: "mcs_queue s q" and t: "mc_pc s t = MSwap" and none: "mc_tail s = None"
  shows "mcs_queue (mc_goto t MHeld (s\<lparr>mc_tail := Some t\<rparr>)) [t]"
proof -
  have "q = []"
    using q none by (auto simp: mcs_queue_def split: if_splits)
  then have "\<not> mcs_queued s u" for u
    using mcs_queue_mem [OF q] by simp
  then show ?thesis
    using q t by (auto simp: mcs_queue_def mcs_queued_def mcs_front_def mcs_owns_def mc_goto_def)
qed

lemma mcs_swap_behind:
  assumes q: "mcs_queue s q" and t: "mc_pc s t = MSwap" and some: "mc_tail s = Some p"
  shows "mcs_queue (mc_goto t (MMark p) (s\<lparr>mc_tail := Some t\<rparr>)) (q @ [t])"
proof -
  let ?s' = "mc_goto t (MMark p) (s\<lparr>mc_tail := Some t\<rparr>)"
  have nt: "t \<notin> set q"
    using mcs_queue_mem [OF q] t by (simp add: mcs_queued_def)
  then have ne: "q ! i \<noteq> t" if "i < length q" for i
    using that nth_mem by metis
  have qne: "q \<noteq> []" and p: "p = last q" "mc_next s p = None"
    using q some by (auto simp: mcs_queue_def split: if_splits)
  have "mcs_behind ?s' ((q @ [t]) ! i) ((q @ [t]) ! Suc i)" if "Suc i < length (q @ [t])" for i
  proof (cases "Suc i = length q")
    case True
    then have "q ! i = p"
      using p(1) qne by (metis diff_Suc_1 last_conv_nth)
    then show ?thesis
      using True p(2) by (auto simp: nth_append mcs_behind_def mc_goto_def)
  next
    case False
    then have i: "Suc i < length q" using that by simp
    then show ?thesis
      using mcs_queue_nth [OF q i] ne [OF i] by (auto simp: nth_append mcs_behind_def mc_goto_def)
  qed
  moreover have "{u. mcs_queued ?s' u} = insert t {u. mcs_queued s u}"
    by (auto simp: mcs_queued_def mc_goto_def)
  moreover have "mcs_front ?s' (hd q)"
    using q nt qne by (cases q) (auto simp: mcs_queue_def mcs_front_def mcs_owns_def mc_goto_def)
  ultimately show ?thesis
    using q t nt qne by (auto simp: mcs_queue_def mc_goto_def)
qed

text \<open>The steps of a thread that is behind another: its place in the queue and those of the others.\<close>

lemma mcs_other_places:
  assumes "mcs_queue s q" "Suc i < length q" "Suc j < length q" "j \<noteq> i"
  shows "q ! j \<noteq> q ! i" "q ! Suc j \<noteq> q ! Suc i" "hd q \<noteq> q ! Suc i" "last q \<noteq> q ! i"
proof -
  have d: "distinct q" and ne: "q \<noteq> []" using assms by (auto simp: mcs_queue_def)
  show "q ! j \<noteq> q ! i" "q ! Suc j \<noteq> q ! Suc i"
    using nth_eq_iff_index_eq [OF d] assms by simp_all
  show "hd q \<noteq> q ! Suc i" "last q \<noteq> q ! i"
    using nth_eq_iff_index_eq [OF d] assms(2) ne by (auto simp: hd_conv_nth last_conv_nth)
qed

lemma mcs_ends:
  assumes "mcs_queue s q" "Suc i < length q"
  shows "hd q \<noteq> q ! Suc i" "last q \<noteq> q ! i" "q \<noteq> []"
proof -
  have d: "distinct q" and ne: "q \<noteq> []" using assms by (auto simp: mcs_queue_def)
  then show "hd q \<noteq> q ! Suc i" "last q \<noteq> q ! i" "q \<noteq> []"
    using nth_eq_iff_index_eq [OF d] assms(2) by (auto simp: hd_conv_nth last_conv_nth)
qed

lemma mcs_mark:
  assumes q: "mcs_queue s q" and t: "mc_pc s t = MMark p"
  shows "mcs_queue (mc_goto t (MLink p) (s\<lparr>mc_locked := (mc_locked s)(t := True)\<rparr>)) q"
proof -
  let ?s' = "mc_goto t (MLink p) (s\<lparr>mc_locked := (mc_locked s)(t := True)\<rparr>)"
  obtain i where i: "Suc i < length q" "q ! i = p" "q ! Suc i = t"
    using mcs_waiting_behind [OF q] t by metis
  have "mcs_behind ?s' (q ! j) (q ! Suc j)" if "Suc j < length q" for j
  proof (cases "j = i")
    case True
    then show ?thesis
      using mcs_queue_nth [OF q i(1)] i t by (auto simp: mcs_behind_def mc_goto_def)
  next
    case False
    show ?thesis
      by (rule mcs_behind_frame [OF _ _ _ mcs_queue_nth [OF q that]])
        (use mcs_other_places(2) [OF q i(1) that False] i in \<open>simp_all add: mc_goto_def\<close>)
  qed
  moreover have "{u. mcs_queued ?s' u} = {u. mcs_queued s u}"
    using t by (auto simp: mcs_queued_def mc_goto_def)
  moreover have "mcs_front ?s' (hd q)"
    using q mcs_ends [OF q i(1)] i by (auto simp: mcs_queue_def mcs_front_def mcs_owns_def mc_goto_def)
  ultimately show ?thesis
    using q mcs_ends(3) [OF q i(1)] by (auto simp: mcs_queue_def mc_goto_def)
qed

lemma mcs_link:
  assumes q: "mcs_queue s q" and t: "mc_pc s t = MLink p"
  shows "mcs_queue (mc_goto t MSpin (s\<lparr>mc_next := (mc_next s)(p := Some t)\<rparr>)) q"
proof -
  let ?s' = "mc_goto t MSpin (s\<lparr>mc_next := (mc_next s)(p := Some t)\<rparr>)"
  obtain i where i: "Suc i < length q" "q ! i = p" "q ! Suc i = t"
    using mcs_waiting_behind [OF q] t by metis
  have "mcs_behind ?s' (q ! j) (q ! Suc j)" if "Suc j < length q" for j
  proof (cases "j = i")
    case True
    then show ?thesis
      using mcs_queue_nth [OF q i(1)] i t by (auto simp: mcs_behind_def mc_goto_def)
  next
    case False
    show ?thesis
      by (rule mcs_behind_frame [OF _ _ _ mcs_queue_nth [OF q that]])
        (use mcs_other_places(1,2) [OF q i(1) that False] i in \<open>simp_all add: mc_goto_def\<close>)
  qed
  moreover have "{u. mcs_queued ?s' u} = {u. mcs_queued s u}"
    using t by (auto simp: mcs_queued_def mc_goto_def)
  moreover have "mcs_front ?s' (hd q)" "mc_next ?s' (last q) = None"
    using q mcs_ends [OF q i(1)] i by (auto simp: mcs_queue_def mcs_front_def mcs_owns_def mc_goto_def)
  moreover have "mcs_queued s p"
    using mcs_queue_mem [OF q, of p] i nth_mem [of i q] by simp
  ultimately show ?thesis
    using q mcs_ends(3) [OF q i(1)] by (auto simp: mcs_queue_def mc_goto_def mcs_queued_def)
qed

lemma mcs_hand_over:
  assumes q: "mcs_queue s q" and t: "mc_pc s t = MHand" "mc_next s t = Some u"
  shows "mcs_queue (mc_goto t MOut (s\<lparr>mc_locked := (mc_locked s)(u := False)\<rparr>)) (tl q)"
proof -
  let ?s' = "mc_goto t MOut (s\<lparr>mc_locked := (mc_locked s)(u := False)\<rparr>)"
  have h: "q \<noteq> []" "t = hd q"
    using mcs_owner_first [OF q] t by (auto simp: mcs_owns_def)
  moreover have "tl q \<noteq> []"
    using q h t(2) by (cases q) (auto simp: mcs_queue_def)
  ultimately obtain b r where qq: "q = t # b # r"
    by (cases q; cases "tl q") auto
  then have u: "u = b" "mc_pc s b = MSpin"
    using mcs_queue_nth [OF q, of 0] t by (auto simp: mcs_behind_def)
  have d: "t \<notin> set (b # r)" "distinct (b # r)"
    using q qq by (auto simp: mcs_queue_def)
  have "mcs_behind ?s' ((b # r) ! i) ((b # r) ! Suc i)" if "Suc i < length (b # r)" for i
  proof (rule mcs_behind_frame)
    show "mcs_behind s ((b # r) ! i) ((b # r) ! Suc i)"
      using mcs_queue_nth [OF q, of "Suc i"] that qq by simp
    have "r ! i \<in> set r" using that by simp
    then have "(b # r) ! Suc i \<noteq> t" "(b # r) ! Suc i \<noteq> b"
      using d by auto
    then show "mc_pc ?s' ((b # r) ! Suc i) = mc_pc s ((b # r) ! Suc i)"
      "mc_locked ?s' ((b # r) ! Suc i) = mc_locked s ((b # r) ! Suc i)"
      using u by (simp_all add: mc_goto_def)
  qed (simp add: mc_goto_def)
  moreover have "{v. mcs_queued ?s' v} = {v. mcs_queued s v} - {t}"
    by (auto simp: mcs_queued_def mc_goto_def)
  moreover have "mcs_front ?s' b"
    using u d by (auto simp: mcs_front_def mc_goto_def)
  ultimately show ?thesis
    using q qq d by (auto simp: mcs_queue_def mc_goto_def)
qed

lemma mcs_step_inv:
  assumes "mcs_inv s" "mcs_step s s'"
  shows "mcs_inv s'"
proof -
  obtain q where q: "mcs_queue s q"
    using assms(1) by (auto simp: mcs_inv_def)
  from assms(2) have "\<exists>q'. mcs_queue s' q'"
  proof cases
    case (reset_next t)
    then show ?thesis using mcs_reset [OF q] by blast
  next
    case (swap t)
    then show ?thesis
      using mcs_swap_first [OF q] mcs_swap_behind [OF q] by (cases "mc_tail s") auto
  next
    case (mark t p)
    then show ?thesis using mcs_mark [OF q] by blast
  next
    case (link t p)
    then show ?thesis using mcs_link [OF q] by blast
  next
    case (spin t)
    show ?thesis
    proof (cases "mc_locked s t")
      case True
      then have "s' = s" using spin by (simp add: mc_goto_def fun_upd_idem)
      then show ?thesis using q by blast
    next
      case False
      have "t = hd q \<and> q \<noteq> []"
      proof -
        have "t \<in> set q" using mcs_queue_mem [OF q] spin by (simp add: mcs_queued_def)
        then obtain i where i: "i < length q" "q ! i = t" by (auto simp: in_set_conv_nth)
        have "i = 0"
          using mcs_queue_nth [OF q, of "i - 1"] i False spin(2) by (cases i) (auto simp: mcs_behind_def)
        then show ?thesis using i by (cases q) auto
      qed
      then show ?thesis
        using mcs_front_step [OF q, of t MHeld] False spin by auto
    qed
  next
    case (test_next t)
    then show ?thesis
      using mcs_owner_first [OF q, of t] mcs_front_step [OF q, of t MCas] mcs_front_step [OF q, of t MHand]
      by (auto simp: mcs_owns_def)
  next
    case (cas t)
    have h: "q \<noteq> []" "t = hd q"
      using mcs_owner_first [OF q, of t] cas by (auto simp: mcs_owns_def)
    show ?thesis
    proof (cases "mc_tail s = Some t")
      case True
      then have "q = [t]"
        using q h by (cases q) (auto simp: mcs_queue_def split: if_splits)
      then have "mcs_queue s' []"
        using q True cas by (auto simp: mcs_queue_def mcs_queued_def mc_goto_def)
      then show ?thesis by blast
    next
      case False
      then show ?thesis
        using cas mcs_front_step [OF q h, of MWait] by auto
    qed
  next
    case (wait_next t)
    then show ?thesis
      using mcs_owner_first [OF q, of t] mcs_front_step [OF q, of t MWait] mcs_front_step [OF q, of t MHand]
      by (auto simp: mcs_owns_def)
  next
    case (hand_over t u)
    then show ?thesis using mcs_hand_over [OF q] by blast
  qed
  then show ?thesis by (simp add: mcs_inv_def)
qed

interpretation mcs: lock_protocol mcs_init mcs_step mcs_owns mcs_inv
proof
  show "mcs_inv s" if "mcs_init s" for s
  proof -
    have "mcs_queue s []"
      using that by (simp add: mcs_queue_def mcs_init_def mcs_queued_def)
    then show ?thesis by (auto simp: mcs_inv_def)
  qed
  show "mcs_inv s'" if "mcs_inv s" "mcs_step s s'" for s s'
    using mcs_step_inv that by blast
  show "t = u" if "mcs_inv s" "mcs_owns s t" "mcs_owns s u" for s t u
    using that mcs_owner_first unfolding mcs_inv_def by metis
qed

section \<open>Mutual exclusion\<close>

text \<open>C33: In every interleaving at most one thread holds the queue lock, from its return from \<open>lock\<close> to the
  end of its \<open>unlock\<close>.\<close>

theorem mcs_exclusive:
  assumes "reachable mcs_init mcs_step s" "mcs_owns s t" "mcs_owns s u"
  shows "t = u"
  using mcs.exclusive [OF assms] .

definition demo_mcs :: mcs_state where
  "demo_mcs = \<lparr>mc_tail = None, mc_locked = (\<lambda>_. True), mc_next = (\<lambda>_. None), mc_pc = (\<lambda>_. MOut)\<rparr>"

theorem mcs_exclusive_witness:
  "\<exists>s. reachable mcs_init mcs_step s \<and> mcs_owns s 0 \<and> \<not> mcs_owns s 1"
proof -
  let ?s1 = "mc_goto 0 MSwap (demo_mcs\<lparr>mc_next := (mc_next demo_mcs)(0 := None)\<rparr>)"
  let ?s2 = "mc_goto 0 (case mc_tail ?s1 of None \<Rightarrow> MHeld | Some p \<Rightarrow> MMark p) (?s1\<lparr>mc_tail := Some 0\<rparr>)"
  have "reachable mcs_init mcs_step demo_mcs"
    by (rule reachable.start) (simp add: mcs_init_def demo_mcs_def)
  then have "reachable mcs_init mcs_step ?s1"
    by (rule reachable.continue) (rule mcs_step.reset_next, simp add: demo_mcs_def)
  then have r: "reachable mcs_init mcs_step ?s2"
    by (rule reachable.continue) (rule mcs_step.swap, simp add: mc_goto_def)
  have o: "mcs_owns ?s2 0"
    by (simp add: mcs_owns_def mc_goto_def demo_mcs_def)
  show ?thesis
    using r o mcs_exclusive [OF r o, of 1] by auto
qed

text \<open>C34: In every interleaving at most one thread holds the spinning lock with backoff.\<close>

theorem spinlock_exclusive:
  assumes "reachable spin_init spin_step s" "sp_pc s t = SHeld" "sp_pc s u = SHeld"
  shows "t = u"
  using spin.exclusive [OF assms] .

theorem spinlock_exclusive_witness:
  "\<exists>s. reachable spin_init spin_step s \<and> sp_pc s 0 = SHeld \<and> sp_pc s 1 \<noteq> SHeld"
proof -
  let ?s0 = "\<lparr>sp_locked = False, sp_pc = (\<lambda>_. SOut)\<rparr>"
  let ?s1 = "sp_goto 0 SFast ?s0"
  let ?s2 = "sp_goto 0 (if sp_locked ?s1 then SSpin 1000 else SHeld) (?s1\<lparr>sp_locked := True\<rparr>)"
  have "reachable spin_init spin_step ?s0"
    by (rule reachable.start) (simp add: spin_init_def)
  then have "reachable spin_init spin_step ?s1"
    by (rule reachable.continue) (rule spin_step.load_free, simp_all)
  then have r: "reachable spin_init spin_step ?s2"
    by (rule reachable.continue) (rule spin_step.fast_set, simp add: sp_goto_def)
  have h: "sp_pc ?s2 0 = SHeld"
    by (simp add: sp_goto_def)
  show ?thesis
    using r h spinlock_exclusive [OF r h, of 1] by auto
qed

end
