(* ===== verification/Thread_Local.thy ===== *)
theory Thread_Local
  imports Spin_Locks
begin

text \<open>
  Thread-local variables (\<open>thread_local.hpp\<close>): an array of sixteen cells, of which each thread gets the next
  free one at its first access and keeps it, under a pthread key, until it exits.  Then the cell is
  zeroed; it is never given to another thread.
\<close>

section \<open>The variable\<close>

abbreviation MAXNUMOFTHREADS :: nat where
  "MAXNUMOFTHREADS \<equiv> 16"

record thread_local =
  tl_key :: "tid \<rightharpoonup> nat"    \<comment> \<open>what \<open>pthread_getspecific\<close> returns, as an index of \<open>storageArr\<close>\<close>
  tl_storageArr :: "int list"
  tl_curavail_slot :: nat

definition new_thread_local :: thread_local where
  "new_thread_local = \<lparr>tl_key = Map.empty, tl_storageArr = replicate MAXNUMOFTHREADS 0, tl_curavail_slot = 0\<rparr>"

definition getLocalState :: "tid \<Rightarrow> thread_local \<Rightarrow> nat \<times> thread_local" where
  "getLocalState t s =
     (case tl_key s t of
        Some local_state \<Rightarrow> (local_state, s)
      | None \<Rightarrow>
          let local_state = tl_curavail_slot s;
              s = s\<lparr>tl_curavail_slot := tl_curavail_slot s + 1\<rparr>
          in (local_state, s\<lparr>tl_key := (tl_key s)(t \<mapsto> local_state)\<rparr>))"

definition getVal :: "tid \<Rightarrow> thread_local \<Rightarrow> (int \<times> thread_local) result" where
  "getVal t s =
     (let (p, s) = getLocalState t s
      in if p < length (tl_storageArr s) then Inr (tl_storageArr s ! p, s) else Inl BadAddress)"

definition setVal :: "tid \<Rightarrow> int \<Rightarrow> thread_local \<Rightarrow> thread_local result" where
  "setVal t val s =
     (let (p, s) = getLocalState t s
      in if p < length (tl_storageArr s) then Inr (s\<lparr>tl_storageArr := (tl_storageArr s)[p := val]\<rparr>) else Inl BadAddress)"

definition getAddr :: "tid \<Rightarrow> thread_local \<Rightarrow> nat \<times> thread_local" where
  "getAddr t s = getLocalState t s"

definition destroyLocalKey :: "nat option \<Rightarrow> thread_local \<Rightarrow> thread_local result" where
  "destroyLocalKey thread_state s =
     (case thread_state of
        None \<Rightarrow> Inr s
      | Some p \<Rightarrow>
          if p < length (tl_storageArr s) then Inr (s\<lparr>tl_storageArr := (tl_storageArr s)[p := 0]\<rparr>) else Inl BadAddress)"

text \<open>A thread exits: pthread clears its key and runs the destructor on the old value.\<close>

definition thread_exit :: "tid \<Rightarrow> thread_local \<Rightarrow> thread_local result" where
  "thread_exit t s = destroyLocalKey (tl_key s t) (s\<lparr>tl_key := (tl_key s)(t := None)\<rparr>)"

section \<open>Threads do not see each other\<close>

datatype tl_op = TSet tid int | TGet tid | TExit tid

primrec tl_apply :: "tl_op \<Rightarrow> thread_local \<Rightarrow> thread_local result" where
  "tl_apply (TSet t v) s = setVal t v s"
| "tl_apply (TGet t) s = rbind (getVal t s) (\<lambda>(_, s). Inr s)"
| "tl_apply (TExit t) s = thread_exit t s"

fun tl_run :: "tl_op list \<Rightarrow> thread_local \<Rightarrow> thread_local result" where
  "tl_run [] s = Inr s"
| "tl_run (x # xs) s = rbind (tl_apply x s) (tl_run xs)"

text \<open>What a thread should see: the value it stored last since it started, or zero.\<close>

primrec tl_spec :: "tl_op \<Rightarrow> (tid \<Rightarrow> int) \<Rightarrow> tid \<Rightarrow> int" where
  "tl_spec (TSet t v) f = f(t := v)"
| "tl_spec (TGet t) f = f"
| "tl_spec (TExit t) f = f(t := 0)"

text \<open>How many cells are used up: one for every thread that accesses the variable, counted again after an exit.\<close>

primrec tl_uses :: "tl_op \<Rightarrow> tid set \<times> nat \<Rightarrow> tid set \<times> nat" where
  "tl_uses (TSet t v) u = (insert t (fst u), if t \<in> fst u then snd u else snd u + 1)"
| "tl_uses (TGet t) u = (insert t (fst u), if t \<in> fst u then snd u else snd u + 1)"
| "tl_uses (TExit t) u = (fst u - {t}, snd u)"

definition tl_inv :: "(tid \<Rightarrow> int) \<Rightarrow> tid set \<times> nat \<Rightarrow> thread_local \<Rightarrow> bool" where
  "tl_inv f u s \<longleftrightarrow> dom (tl_key s) = fst u \<and> tl_curavail_slot s = snd u \<and> length (tl_storageArr s) = 16 \<and>
     inj_on (tl_key s) (fst u) \<and> (\<forall>t p. tl_key s t = Some p \<longrightarrow> p < snd u \<and> (p < 16 \<longrightarrow> tl_storageArr s ! p = f t)) \<and>
     (\<forall>t. t \<notin> fst u \<longrightarrow> f t = 0) \<and> (\<forall>p. snd u \<le> p \<and> p < 16 \<longrightarrow> tl_storageArr s ! p = 0)"

lemma getLocalState_inv:
  assumes "tl_inv f u s"
  shows "case getLocalState t s of (p, s') \<Rightarrow>
    tl_inv f (insert t (fst u), if t \<in> fst u then snd u else snd u + 1) s' \<and> tl_key s' t = Some p \<and>
    tl_storageArr s' = tl_storageArr s"
proof (cases "tl_key s t")
  case None
  then have t: "t \<notin> fst u"
    using assms by (auto simp: tl_inv_def)
  moreover have "tl_key s a \<noteq> Some (snd u)" "Some (snd u) \<noteq> tl_key s a" for a
    using assms by (auto simp: tl_inv_def dest!: sym [of "Some _"])
  ultimately show ?thesis
    using assms None by (auto simp: getLocalState_def Let_def tl_inv_def inj_on_def less_Suc_eq)
next
  case (Some p)
  then have t: "t \<in> fst u"
    using assms by (auto simp: tl_inv_def)
  then show ?thesis
    using assms Some by (auto simp: getLocalState_def insert_absorb)
qed

lemma tl_store:
  assumes "tl_inv f u s" "tl_key s t = Some p" "snd u \<le> 16"
  shows "p < length (tl_storageArr s)" "tl_inv (f(t := v)) u (s\<lparr>tl_storageArr := (tl_storageArr s)[p := v]\<rparr>)"
proof -
  have i: "dom (tl_key s) = fst u" "length (tl_storageArr s) = 16" "inj_on (tl_key s) (fst u)"
    using assms(1) by (simp_all add: tl_inv_def)
  have "p < snd u"
    using assms(1,2) unfolding tl_inv_def by blast
  then show p: "p < length (tl_storageArr s)"
    using assms(3) i(2) by simp
  have t: "t \<in> fst u"
    using assms(2) i(1) by blast
  have own: "a = t" if "tl_key s a = Some p" for a
    using inj_onD [OF i(3), of a t] assms(2) i(1) that by auto
  have val: "tl_storageArr s ! q = f a" if "tl_key s a = Some q" "q < 16" for a q
    using assms(1) that unfolding tl_inv_def by blast
  have 1: "(tl_storageArr s)[p := v] ! q = (f(t := v)) a" if "tl_key s a = Some q" "q < 16" for a q
  proof (cases "a = t")
    case True
    then show ?thesis
      using that assms(2) p by simp
  next
    case False
    then show ?thesis
      using own [of a] that val [OF that] by (cases "q = p") simp_all
  qed
  have 2: "q < snd u" if "tl_key s a = Some q" for a q
    using assms(1) that unfolding tl_inv_def by blast
  have 3: "(tl_storageArr s)[p := v] ! q = 0" if "snd u \<le> q" "q < 16" for q
    using assms(1) that \<open>p < snd u\<close> by (simp add: tl_inv_def)
  have 4: "(f(t := v)) a = 0" if "a \<notin> fst u" for a
    using assms(1) that t by (auto simp: tl_inv_def)
  show "tl_inv (f(t := v)) u (s\<lparr>tl_storageArr := (tl_storageArr s)[p := v]\<rparr>)"
    using assms(1) 1 2 3 4 unfolding tl_inv_def by simp
qed

lemma tl_exit_inv:
  assumes inv: "tl_inv f u s" and "snd u \<le> 16"
  shows "\<exists>s'. thread_exit t s = Inr s' \<and> tl_inv (f(t := 0)) (fst u - {t}, snd u) s'"
proof (cases "tl_key s t")
  case None
  then show ?thesis
    using inv by (auto simp: thread_exit_def destroyLocalKey_def tl_inv_def fun_upd_idem intro: inj_on_subset)
next
  case (Some p)
  note st = tl_store(1) [OF inv Some assms(2)] tl_store(2) [OF inv Some assms(2), of 0]
  have "tl_inv (f(t := 0)) (fst u - {t}, snd u) (s\<lparr>tl_key := (tl_key s)(t := None), tl_storageArr := (tl_storageArr s)[p := 0]\<rparr>)"
    using st(2) by (auto simp: tl_inv_def inj_on_def split: if_splits)
  then show ?thesis
    using Some st(1) by (auto simp: thread_exit_def destroyLocalKey_def)
qed

lemma tl_apply_inv:
  assumes inv: "tl_inv f u s" and "snd (tl_uses x u) \<le> 16"
  shows "\<exists>s'. tl_apply x s = Inr s' \<and> tl_inv (tl_spec x f) (tl_uses x u) s'"
proof (cases x)
  case (TSet t v)
  obtain p s' where s': "getLocalState t s = (p, s')"
    by fastforce
  then have g: "tl_inv f (tl_uses x u) s'" "tl_key s' t = Some p"
    using getLocalState_inv [OF inv, of t] TSet by simp_all
  show ?thesis
    using tl_store(1) [OF g assms(2)] tl_store(2) [OF g assms(2), of v] TSet s' by (simp add: setVal_def)
next
  case (TGet t)
  obtain p s' where s': "getLocalState t s = (p, s')"
    by fastforce
  then have g: "tl_inv f (tl_uses x u) s'" "tl_key s' t = Some p"
    using getLocalState_inv [OF inv, of t] TGet by simp_all
  show ?thesis
    using tl_store(1) [OF g assms(2)] g(1) TGet s' by (simp add: getVal_def)
next
  case (TExit t)
  then show ?thesis
    using tl_exit_inv [OF inv, of t] assms(2) by simp
qed

lemma tl_uses_mono: "snd u \<le> snd (fold tl_uses xs u)"
proof (induction xs arbitrary: u)
  case (Cons x xs)
  have "snd u \<le> snd (tl_uses x u)"
    by (cases x) auto
  then show ?case
    using Cons.IH [of "tl_uses x u"] by simp
qed simp

lemma tl_run_inv:
  assumes "tl_inv f u s" "snd (fold tl_uses xs u) \<le> 16"
  shows "\<exists>s'. tl_run xs s = Inr s' \<and> tl_inv (fold tl_spec xs f) (fold tl_uses xs u) s'"
  using assms
proof (induction xs arbitrary: f u s)
  case (Cons x xs)
  then have "snd (tl_uses x u) \<le> 16"
    using tl_uses_mono [of "tl_uses x u" xs] by simp
  then obtain s1 where "tl_apply x s = Inr s1" "tl_inv (tl_spec x f) (tl_uses x u) s1"
    using tl_apply_inv [OF Cons.prems(1)] by blast
  then show ?case
    using Cons.IH [of "tl_spec x f" "tl_uses x u" s1] Cons.prems(2) by simp
qed simp

lemma tl_inv_new: "tl_inv (\<lambda>_. 0) ({}, 0) new_thread_local"
  by (simp add: tl_inv_def new_thread_local_def)

text \<open>
  C38: After any interleaving of stores, reads and exits of threads that uses up at most sixteen cells, a thread
  reads what it stored last, or zero if it has stored nothing since it started, whatever the others did.
\<close>

theorem thread_locals_isolated:
  assumes "snd (fold tl_uses (xs @ [TGet t]) ({}, 0)) \<le> 16"
  shows "\<exists>s s'. tl_run xs new_thread_local = Inr s \<and> getVal t s = Inr (fold tl_spec xs (\<lambda>_. 0) t, s')"
proof -
  define u where "u = fold tl_uses xs ({}, 0)"
  define f where "f = fold tl_spec xs (\<lambda>_. 0)"
  have u: "snd (tl_uses (TGet t) u) \<le> 16" "snd u \<le> 16"
    using assms tl_uses_mono [of u "[TGet t]"] by (simp_all add: u_def)
  obtain s where s: "tl_run xs new_thread_local = Inr s" "tl_inv f u s"
    using tl_run_inv [OF tl_inv_new] u(2) unfolding u_def f_def by blast
  obtain p s' where g: "getLocalState t s = (p, s')"
    by fastforce
  then have g': "tl_inv f (tl_uses (TGet t) u) s'" "tl_key s' t = Some p"
    using getLocalState_inv [OF s(2), of t] by simp_all
  then have "p < length (tl_storageArr s')" "tl_storageArr s' ! p = f t"
    using tl_store(1) [OF g' u(1)] by (auto simp: tl_inv_def)
  then show ?thesis
    using s(1) g by (simp add: getVal_def f_def)
qed

theorem thread_locals_isolated_witness:
  "\<exists>s s'. tl_run [TSet 1 5, TSet 2 7, TExit 2, TSet 3 8] new_thread_local = Inr s \<and> getVal 1 s = Inr (5, s')"
  using thread_locals_isolated [of "[TSet 1 5, TSet 2 7, TExit 2, TSet 3 8]" 1] by simp

text \<open>The seventeenth cell does not exist: the access is outside the array.\<close>

lemma seventeenth_thread_out_of_bounds:
  assumes "tl_inv f u s" "16 \<le> snd u" "t \<notin> fst u"
  shows "setVal t v s = Inl BadAddress" "getVal t s = Inl BadAddress"
proof -
  have "tl_key s t = None" "length (tl_storageArr s) = 16" "tl_curavail_slot s = snd u"
    using assms by (auto simp: tl_inv_def)
  then show "setVal t v s = Inl BadAddress" "getVal t s = Inl BadAddress"
    using assms(2) by (simp_all add: setVal_def getVal_def getLocalState_def Let_def)
qed

end
