(* ===== verification/Buffer_Streams.thy ===== *)
theory Buffer_Streams
  imports Buffer_Transfer
begin

text \<open>
  The properties of the streaming buffer: a queue of bytes under writes and consumes, iterators that
  yield its contents, transfers between buffers, and the states in which it stops being a stream.
\<close>

section \<open>A queue of bytes\<close>

text \<open>C17: A history of writes and consumes on a fresh buffer never faults, leaves exactly the bytes a
  queue would hold, and \<open>byteCount\<close> is their number.\<close>

theorem buffer_is_queue:
  "\<exists>b. run_ops (buffer_write raw) consume ps (new_buffer raw) = Inr b \<and> stream_ok b \<and>
     contents b = foldl queue_op [] ps \<and> byteCount b = Inr (length (foldl queue_op [] ps))"
  using bs.run_stream [OF stream_ok_new, where ps = ps] new_buffer_ok(4) byteCount_contents stream_okD by metis

section \<open>Iterators\<close>

primrec nexts :: "buffer \<Rightarrow> nat \<Rightarrow> iterator \<Rightarrow> iterator result" where
  "nexts b 0 it = Inr it"
| "nexts b (Suc n) it = rbind (nexts b n it) (it_next b)"

lemma nexts_ok:
  assumes "it_ok b it" "n \<le> length (it_rest b it)"
  shows "\<exists>it'. nexts b n it = Inr it' \<and> it_ok b it' \<and> it_rest b it' = drop n (it_rest b it) \<and>
    it_bytes_read it' = it_bytes_read it + n \<and> it_bytes_total it' = it_bytes_total it"
  using assms(2)
proof (induction n)
  case (Suc n)
  then obtain it' where it': "nexts b n it = Inr it'" "it_ok b it'" "it_rest b it' = drop n (it_rest b it)"
    "it_bytes_read it' = it_bytes_read it + n" "it_bytes_total it' = it_bytes_total it"
    by auto
  moreover have "it_rest b it' \<noteq> []"
    using it'(3) Suc.prems by simp
  ultimately show ?case
    using next_ok [of b it'] by (auto simp: drop_Suc tl_drop)
qed (use assms(1) in simp)

text \<open>C18: From \<open>begin()\<close> on, the \<open>n\<close>-th call of \<open>next()\<close> leads to the \<open>n\<close>-th byte of the contents
  across all chunks; \<open>eob()\<close> holds exactly after the last byte, and \<open>bytesRead()\<close> counts the calls.\<close>

theorem iterator_yields:
  assumes "stream_ok b" "n \<le> length (contents b)"
  shows "\<exists>it it'. buffer_begin b = Inr it \<and> nexts b n it = Inr it' \<and> it_bytes_read it' = n \<and>
    it_bytes_total it' = length (contents b) \<and> (eob b it' \<longleftrightarrow> n = length (contents b)) \<and>
    (n < length (contents b) \<longrightarrow> getChar b it' = Inr (contents b ! n))"
proof -
  obtain it where it: "buffer_begin b = Inr it" "it_ok b it" "it_rest b it = contents b" "it_bytes_read it = 0"
    "it_bytes_total it = length (contents b)"
    using begin_ok [OF stream_okD [OF assms(1)]] by blast
  obtain it' where it': "nexts b n it = Inr it'" "it_ok b it'" "it_rest b it' = drop n (contents b)"
    "it_bytes_read it' = n" "it_bytes_total it' = length (contents b)"
    using nexts_ok [OF it(2), of n] it assms(2) by auto
  then show ?thesis
    using it assms(2) eob_iff [OF it'(2)] getChar_ok [OF it'(2)] by (auto simp: hd_drop_conv_nth)
qed

theorem iterator_yields_witness:
  "\<exists>it it'. buffer_begin (demo_buffer ''abc'') = Inr it \<and> nexts (demo_buffer ''abc'') 1 it = Inr it' \<and>
     getChar (demo_buffer ''abc'') it' = Inr (CHR ''b'')"
  using iterator_yields [of "demo_buffer ''abc''" 1] demo_buffer_facts [of "''abc''"] by (auto simp: BlockSize_def)

section \<open>Transfers\<close>

text \<open>C19: \<open>appendFrom\<close> moves the contents of an unconsumed buffer behind those of \<open>this\<close>; a source
  whose last chunk is not empty is left empty and usable.\<close>

theorem append_moves:
  assumes "buf_ok this" "buf_ok other" "flowing other" "\<not> isConsumed other" "last (b_sizes other) \<noteq> 0"
  shows "\<exists>this' other'. appendFrom raw this other = Inr (this', other') \<and> buf_ok this' \<and> buf_ok other' \<and>
    contents this' = contents this @ contents other \<and> contents other' = []"
  using append_result [OF assms(1-4), of raw] assms(5) by blast

theorem append_moves_witness:
  "\<exists>this' other'. appendFrom (\<lambda>_ _. CHR 0x00) (demo_buffer ''ab'') (demo_buffer ''cd'') = Inr (this', other') \<and>
     contents this' = ''abcd'' \<and> contents other' = []"
  using append_moves [of "demo_buffer ''ab''" "demo_buffer ''cd''" "\<lambda>_ _. CHR 0x00"]
    demo_buffer_facts [of "''ab''"] demo_buffer_facts [of "''cd''"] by (auto simp: BlockSize_def stream_ok_def)

text \<open>When the last chunk of the source is empty, which is how a source that holds a whole number of
  chunks ends, \<open>appendFrom\<close> leaves its positions behind the only chunk it keeps: reading its size or
  advancing it goes through an index that does not exist.\<close>

theorem append_corrupts_source:
  assumes "buf_ok this" "buf_ok other" "flowing other" "\<not> isConsumed other" "last (b_sizes other) = 0"
    and "contents other \<noteq> []"
  shows "\<exists>this' other'. appendFrom raw this other = Inr (this', other') \<and> readSize other' = Inl BadAddress \<and>
    consume 1 other' = Inl BadAddress \<and> advance 1 other' = Inl BadAddress"
proof -
  obtain this' other' where a: "appendFrom raw this other = Inr (this', other')" "length (b_sizes other') = 1"
    "b_wpos other' = b_wpos other" "b_rpos other' = b_wpos other"
    using append_result [OF assms(1-4), of raw] assms(5,6) by blast
  have "pos_idx (b_wpos other) \<noteq> 0"
  proof
    assume "pos_idx (b_wpos other) = 0"
    then have "length (contents other) = b_sizes other ! 0"
      using contents_in_last [OF assms(2)] buf_ok_wpos(5) [OF assms(2)] assms(4) by (simp add: isConsumed_def)
    moreover have "b_sizes other ! 0 = 0"
      using \<open>pos_idx (b_wpos other) = 0\<close> buf_ok_wpos(4) [OF assms(2)] assms(2,5) by (simp add: buf_ok_def)
    ultimately show False using assms(6) by simp
  qed
  moreover have "pos_off (b_wpos other) = 0"
    using assms(2,5) by (simp add: buf_ok_def)
  ultimately show ?thesis
    using a by (auto simp: readSize_def deque_at_def consume_def consume_loop.simps advance_def writeSize_def BlockSize_def)
qed

text \<open>A buffer to which exactly one chunk of bytes has been written.\<close>

definition demo_full :: buffer where
  "demo_full = with_chunk (\<lambda>_ _. CHR 0x00) (stored (replicate BlockSize CHR ''x'') (new_buffer (\<lambda>_ _. CHR 0x00)))"

lemma demo_full_facts:
  "stream_ok demo_full" "contents demo_full = replicate BlockSize CHR ''x''" "\<not> isConsumed demo_full"
  "last (b_sizes demo_full) = 0"
proof -
  let ?new = "new_buffer (\<lambda>_ _. CHR 0x00)" and ?data = "replicate BlockSize CHR ''x''"
  have "length ?data \<le> writeSize ?new"
    by (simp add: writeSize_def new_buffer_fields)
  note s = stored_ok [OF new_buffer_ok(1) this]
  note w = with_chunk_ok [OF s(1), of "\<lambda>_ _. CHR 0x00"]
  have off: "0 < pos_off (b_wpos (stored ?data ?new))" "b_rpos (stored ?data ?new) \<noteq> b_wpos (stored ?data ?new)"
    by (auto simp: stored_def new_buffer_fields Let_def BlockSize_def)
  show "stream_ok demo_full" "contents demo_full = ?data" "\<not> isConsumed demo_full"
    using w s off new_buffer_ok(2,4)
    by (auto simp: demo_full_def stream_ok_def compact_def new_buffer_fields writeSize_def BlockSize_def isConsumed_def)
  show "last (b_sizes demo_full) = 0"
    by (simp add: demo_full_def with_chunk_def addChunk_def)
qed

theorem append_corrupts_source_witness:
  "\<exists>this' other'. appendFrom (\<lambda>_ _. CHR 0x00) (demo_buffer ''ab'') demo_full = Inr (this', other') \<and>
     readSize other' = Inl BadAddress"
  using append_corrupts_source [of "demo_buffer ''ab''" demo_full "\<lambda>_ _. CHR 0x00"]
    demo_buffer_facts [of "''ab''"] demo_full_facts by (auto simp: BlockSize_def stream_ok_def)

text \<open>\<open>copyFrom\<close> appends a copy of the contents of an unconsumed buffer, which is not changed.\<close>

theorem copy_appends:
  assumes "buf_ok this" "buf_ok other" "flowing other" "\<not> isConsumed other"
  shows "\<exists>this'. copyFrom raw this other = Inr this' \<and> buf_ok this' \<and> contents this' = contents this @ contents other"
  using copy_result [OF assms, of raw] by blast

theorem copy_appends_witness:
  "\<exists>this'. copyFrom (\<lambda>_ _. CHR 0x00) (demo_buffer ''ab'') (demo_buffer ''cd'') = Inr this' \<and> contents this' = ''abcd''"
  using copy_appends [of "demo_buffer ''ab''" "demo_buffer ''cd''" "\<lambda>_ _. CHR 0x00"]
    demo_buffer_facts [of "''ab''"] demo_buffer_facts [of "''cd''"] by (auto simp: BlockSize_def stream_ok_def)

section \<open>Where a buffer stops flowing\<close>

lemma write_round_earlier:
  assumes "buf_ok b" "write_round raw data b = Inr b'" "j < pos_idx (b_wpos b)"
  shows "b_sizes b' ! j = b_sizes b ! j \<and> pos_idx (b_wpos b) \<le> pos_idx (b_wpos b')"
proof -
  let ?s = "stored (take (min (writeSize b) (length data)) data) b"
  have "b' = ?s \<or> b' = with_chunk raw ?s"
    using assms(2) write_round_eq [OF assms(1), of raw data] by (auto simp: Let_def split: if_splits)
  moreover have "b_sizes ?s ! j = b_sizes b ! j" "length (b_sizes ?s) = length (b_sizes b)"
    "pos_idx (b_wpos ?s) = pos_idx (b_wpos b)" "length (b_chunks ?s) = length (b_chunks b)"
    using assms(3) by (auto simp: stored_def Let_def)
  ultimately show ?thesis
    using buf_ok_wpos(2,3) [OF assms(1)] assms(3) by (auto simp: with_chunk_def addChunk_def nth_append)
qed

lemma buffer_write_earlier:
  assumes "buf_ok b" "buffer_write raw data b = Inr b'" "j < pos_idx (b_wpos b)"
  shows "b_sizes b' ! j = b_sizes b ! j \<and> pos_idx (b_wpos b) \<le> pos_idx (b_wpos b')"
  using assms
proof (induction raw data b rule: buffer_write.induct)
  case (1 raw data b)
  show ?case
  proof (cases "data = []")
    case False
    obtain b1 where b1: "write_round raw data b = Inr b1" "buf_ok b1"
      using write_round_ok [OF 1(2) False] by metis
    moreover have "buffer_write raw (drop (min (writeSize b) (length data)) data) b1 = Inr b'"
      using 1(3) b1(1) False by (subst (asm) buffer_write.simps) simp
    ultimately show ?thesis
      using 1(1) [OF False b1(1)] write_round_earlier [OF 1(2) b1(1) 1(4)] 1(4) by auto
  qed (use 1 in \<open>simp add: buffer_write.simps\<close>)
qed

text \<open>C22: If the last chunk was filled to its end by \<open>advance\<close> and everything has been read, a following
  \<open>write\<close> is stored but cannot be seen: \<open>readSize()\<close> stays 0, and the iterator of \<open>begin()\<close> is not at
  the end of the buffer although \<open>next()\<close> does not move it.\<close>

theorem drained_write_stalls:
  assumes "buf_ok b" "compact b" "drained b" "data \<noteq> []"
  shows "\<exists>b' it. buffer_write raw data b = Inr b' \<and> contents b' = contents b @ data \<and> readSize b' = Inr 0 \<and>
    buffer_begin b' = Inr it \<and> \<not> eob b' it \<and> it_next b' it = Inr it"
proof -
  obtain b1 where b1: "write_round raw data b = Inr b1" "buf_ok b1" "b_rpos b1 = b_rpos b"
    "contents b1 = contents b"
    using write_round_ok [OF assms(1,4), of raw] assms(3) unfolding drained_def by (metis append.right_neutral min_0L take0)
  have eq: "b1 = with_chunk raw (stored [] b)"
    using b1(1) write_round_eq [OF assms(1), of raw data] assms(3,4) by (simp add: drained_def Let_def)
  have w: "buffer_write raw data b = buffer_write raw data b1"
    using b1(1) assms(3,4) by (subst buffer_write.simps) (simp add: drained_def)
  obtain b' where b': "buffer_write raw data b1 = Inr b'" "buf_ok b'" "contents b' = contents b @ data" "b_rpos b' = b_rpos b"
    using buffer_write_appends [OF b1(2), of raw data] b1(3,4) by auto
  have r: "b_rpos b = \<lparr>pos_idx = 0, pos_off = BlockSize\<rparr>" "b_wpos b = b_rpos b"
    using assms(2,3) buf_ok_wpos(1) [OF assms(1)] by (cases "b_rpos b"; simp add: drained_def compact_def writeSize_def)+
  have len: "length (b_chunks b) = 1" "b_sizes b ! 0 = BlockSize"
    using assms(1) buf_ok_wpos(4) [OF assms(1)] r by (cases "b_chunks b"; simp add: buf_ok_def)+
  have "pos_idx (b_wpos b1) = 1" "b_sizes b1 ! 0 = BlockSize"
    using r len assms(1) by (simp_all add: eq with_chunk_def addChunk_def stored_def Let_def nth_append buf_ok_def)
  then have "b_sizes b' ! 0 = BlockSize" "0 < pos_idx (b_wpos b')" "0 < length (b_sizes b')"
    using buffer_write_earlier [OF b1(2) b'(1), of 0] buf_ok_wpos(3) [OF b'(2)] by auto
  then have "readSize b' = Inr 0" "\<exists>it. buffer_begin b' = Inr it \<and> \<not> eob b' it \<and> it_next b' it = Inr it"
    using b'(4) r
    by (simp_all add: readSize_def deque_at_def buffer_begin_def new_iterator_def byteCount_def getBudget_def
        eob_def it_next_def slowNext_def)
  then show ?thesis
    using b' w by auto
qed

definition demo_drained :: buffer where
  "demo_drained = (stored (replicate BlockSize CHR ''x'') (new_buffer (\<lambda>_ _. CHR 0x00)))
     \<lparr>b_rpos := \<lparr>pos_idx = 0, pos_off = BlockSize\<rparr>\<rparr>"

lemma demo_drained_facts: "buf_ok demo_drained" "compact demo_drained" "drained demo_drained" "contents demo_drained = []"
proof -
  let ?s = "stored (replicate BlockSize CHR ''x'') (new_buffer (\<lambda>_ _. CHR 0x00))"
  have "length (replicate BlockSize CHR ''x'') \<le> writeSize (new_buffer (\<lambda>_ _. CHR 0x00))"
    by (simp add: writeSize_def new_buffer_fields)
  note s = stored_ok [OF new_buffer_ok(1) this]
  have r: "b_rpos ?s = \<lparr>pos_idx = 0, pos_off = 0\<rparr>" "b_wpos ?s = \<lparr>pos_idx = 0, pos_off = BlockSize\<rparr>"
    "b_sizes ?s = [BlockSize]"
    by (simp_all add: stored_def new_buffer_fields Let_def)
  show "buf_ok demo_drained" "contents demo_drained = []"
    using read_forward [OF s(1), of BlockSize] s(2) r new_buffer_ok(4) by (simp_all add: demo_drained_def)
  show "compact demo_drained" "drained demo_drained"
    using r by (simp_all add: demo_drained_def compact_def drained_def writeSize_def)
qed

theorem drained_write_stalls_witness:
  "\<exists>b'. buffer_write (\<lambda>_ _. CHR 0x00) ''hi'' demo_drained = Inr b' \<and> contents b' = ''hi'' \<and> readSize b' = Inr 0"
  using drained_write_stalls [of demo_drained "''hi''" "\<lambda>_ _. CHR 0x00"] demo_drained_facts by auto

section \<open>Every use of a buffer\<close>

text \<open>
  The calls of a producer and a consumer.  A producer that stores bytes itself, such as a \<open>read\<close> from a socket, gives
  \<open>writeSize()\<close> as the limit and calls \<open>advance\<close> with the number of bytes it stored.  \<open>copyFrom\<close> and \<open>appendFrom\<close> have
  another buffer as their source.
\<close>

datatype buffer_call = CallWrite "char list" | CallReserve nat | CallFill "char list" | CallConsume nat | CallCopy buffer | CallAppend buffer

fun run_call :: "raw \<Rightarrow> buffer_call \<Rightarrow> buffer \<Rightarrow> buffer result" where
  "run_call raw (CallWrite data) b = buffer_write raw data b"
| "run_call raw (CallReserve n) b = Inr (snd (reserve raw n b))"
| "run_call raw (CallFill data) b =
     (let data = take (writeSize b) data
      in rbind (poke data b) (\<lambda>b. rbind (advance (length data) b) (\<lambda>(_, b). Inr b)))"
| "run_call raw (CallConsume n) b = consume n b"
| "run_call raw (CallCopy other) b = copyFrom raw b other"
| "run_call raw (CallAppend other) b = rbind (appendFrom raw b other) (\<lambda>(this, _). Inr this)"

text \<open>A source from which nothing has been consumed; the code ends the process for any other.\<close>

fun call_ok :: "buffer_call \<Rightarrow> bool" where
  "call_ok (CallCopy other) \<longleftrightarrow> buf_ok other \<and> flowing other \<and> \<not> isConsumed other"
| "call_ok (CallAppend other) \<longleftrightarrow> buf_ok other \<and> flowing other \<and> \<not> isConsumed other"
| "call_ok c \<longleftrightarrow> True"

primrec run_calls :: "raw \<Rightarrow> buffer_call list \<Rightarrow> buffer \<Rightarrow> buffer result" where
  "run_calls raw [] b = Inr b"
| "run_calls raw (c # cs) b = rbind (run_call raw c b) (run_calls raw cs)"

lemma run_call_ok:
  assumes "buf_ok b" "call_ok c"
  shows "\<exists>b'. run_call raw c b = Inr b' \<and> buf_ok b' \<and> (compact b \<and> (\<forall>other. c \<noteq> CallAppend other) \<longrightarrow> compact b')"
proof (cases c)
  case (CallWrite data)
  then show ?thesis
    using buffer_write_appends [OF assms(1), of raw data] by (auto simp: compact_def)
next
  case (CallReserve n)
  show ?thesis
  proof (cases "n \<le> BlockSize")
    case True
    then show ?thesis
      using reserve_room [OF assms(1), of n raw] CallReserve by auto
  qed (use assms CallReserve in \<open>simp add: reserve_def\<close>)
next
  case (CallFill data)
  have l: "length (take (writeSize b) data) \<le> writeSize b"
    by simp
  show ?thesis
    using fill_stored [OF assms(1) l] stored_ok(1,4) [OF assms(1) l] CallFill by (auto simp: compact_def Let_def)
next
  case (CallConsume n)
  then show ?thesis
    using consume_drops [OF assms(1), of n] by (auto simp: compact_def)
next
  case (CallCopy other)
  then show ?thesis
    using copy_result [OF assms(1), of other raw] assms(2) by (auto simp: compact_def)
next
  case (CallAppend other)
  then show ?thesis
    using append_result [OF assms(1), of other raw] assms(2) by auto
qed

text \<open>
  C25: Under every sequence of \<open>write\<close>, \<open>reserve\<close>, \<open>advance\<close> over stored bytes, \<open>consume\<close>, \<open>copyFrom\<close> and
  \<open>appendFrom\<close>, the last two from unconsumed buffers that flow, no call on a new buffer faults, and it stays well formed, with
  chunks of the block size, as many sizes as chunks and both positions inside of them.  \<open>byteCount()\<close> is the number of its bytes
  as long as the read position is in the first chunk, which only \<open>appendFrom\<close> can change.
\<close>

theorem buffer_well_formed:
  assumes "\<forall>c \<in> set cs. call_ok c"
  shows "\<exists>b. run_calls raw cs (new_buffer raw) = Inr b \<and> buf_ok b \<and> (compact b \<longrightarrow> byteCount b = Inr (length (contents b))) \<and>
    ((\<forall>other. CallAppend other \<notin> set cs) \<longrightarrow> compact b)"
proof -
  have "\<exists>b'. run_calls raw cs b = Inr b' \<and> buf_ok b' \<and> (compact b \<and> (\<forall>other. CallAppend other \<notin> set cs) \<longrightarrow> compact b')"
    if "buf_ok b" for b
    using that assms
  proof (induction cs arbitrary: b)
    case (Cons c cs)
    then obtain b1 where b1: "run_call raw c b = Inr b1" "buf_ok b1" "compact b \<and> (\<forall>other. c \<noteq> CallAppend other) \<longrightarrow> compact b1"
      using run_call_ok [of b c raw] by auto
    then show ?case
      using Cons.IH [OF b1(2)] Cons.prems(2) by auto
  qed simp
  then show ?thesis
    using new_buffer_ok(1,3) [of raw] byteCount_contents by blast
qed

text \<open>A buffer whose only bytes have been read, to which another is appended: the chunk that was read stays in front.\<close>

definition demo_read_out :: buffer where
  "demo_read_out = (demo_buffer ''a'')\<lparr>b_rpos := \<lparr>pos_idx = 0, pos_off = 1\<rparr>\<rparr>"

lemma demo_sizes: "b_sizes (demo_buffer data) = [length data]" "b_wpos (demo_buffer data) = \<lparr>pos_idx = 0, pos_off = length data\<rparr>"
  "b_rpos (demo_buffer data) = \<lparr>pos_idx = 0, pos_off = 0\<rparr>" "length (b_chunks (demo_buffer data)) = 1"
  by (simp_all add: demo_buffer_def stored_def new_buffer_fields Let_def)

text \<open>\<open>byteCount()\<close> then counts the bytes of the chunk it reads twice.\<close>

lemma append_miscounts:
  "\<exists>this' other'. appendFrom raw demo_read_out (demo_buffer ''cd'') = Inr (this', other') \<and> contents this' = ''cd'' \<and> byteCount this' = Inr 4"
proof -
  have "length ''cd'' < BlockSize" "length ''a'' < BlockSize"
    by (simp_all add: BlockSize_def)
  note d = demo_buffer_facts [OF this(1)] and a = demo_buffer_facts [OF this(2)]
  have "buf_ok demo_read_out" "contents demo_read_out = []"
    using read_forward [of "demo_buffer ''a''" 1] a by (simp_all add: demo_read_out_def demo_sizes stream_ok_def)
  then obtain this' other' where 1: "appendFrom raw demo_read_out (demo_buffer ''cd'') = Inr (this', other')" "contents this' = ''cd''"
    using append_result [of demo_read_out "demo_buffer ''cd''" raw] d by (auto simp: stream_ok_def)
  have "byteCount this' = Inr 4"
    using 1(1) d(3)
    by (auto simp: appendFrom_def maybeRemoveLastChunk_def readSize_def deque_at_def demo_sizes demo_read_out_def byteCount_def BlockSize_def Let_def)
  then show ?thesis
    using 1 by blast
qed

theorem buffer_well_formed_witness:
  "\<exists>b. run_calls (\<lambda>_ _. CHR 0x00) [CallWrite ''ab'', CallCopy (demo_buffer ''cd''), CallConsume 1, CallFill ''e'', CallReserve 9]
     (new_buffer (\<lambda>_ _. CHR 0x00)) = Inr b \<and> buf_ok b \<and> byteCount b = Inr (length (contents b))"
proof -
  have "length ''cd'' < BlockSize"
    by (simp add: BlockSize_def)
  then have "call_ok (CallCopy (demo_buffer ''cd''))"
    using demo_buffer_facts [of "''cd''"] by (simp add: stream_ok_def)
  then show ?thesis
    using buffer_well_formed [of "[CallWrite ''ab'', CallCopy (demo_buffer ''cd''), CallConsume 1, CallFill ''e'', CallReserve 9]" "\<lambda>_ _. CHR 0x00"]
    by auto
qed

end
