(* ===== verification/Thread_Pool.thy ===== *)
theory Thread_Pool
  imports Spin_Locks "HOL-Library.Multiset"
begin

text \<open>
  The two thread pools (\<open>thread_pool_fast.cpp\<close>, \<open>thread_pool_normal.cpp\<close>) as interleavings of the steps of
  their workers and of any threads that add tasks.  A step is a critical section or the run of a task.  A task
  is a number and \<open>None\<close> is the NULL task that stops a worker.  The states record, beside the fields of the code,
  which tasks were ever added, handed to a worker and started.
\<close>

section \<open>What a pool promises\<close>

text \<open>
  Tasks are handed out in the order they were added, and each one handed out has been started once or is held by
  a worker that is about to start it.
\<close>

locale task_pool =
  fixes init :: "'s \<Rightarrow> bool"
    and step :: "'s \<Rightarrow> 's \<Rightarrow> bool"
    and inv :: "'s \<Rightarrow> bool"
    and added :: "'s \<Rightarrow> 't list"
    and handed :: "'s \<Rightarrow> 't list"
    and queue :: "'s \<Rightarrow> 't list"
    and started :: "'s \<Rightarrow> 't list"
    and held :: "'s \<Rightarrow> 't multiset"
  assumes init_inv: "init s \<Longrightarrow> inv s"
    and step_inv: "inv s \<Longrightarrow> step s s' \<Longrightarrow> inv s'"
    and inv_order: "inv s \<Longrightarrow> added s = handed s @ queue s"
    and inv_held: "inv s \<Longrightarrow> mset (handed s) = mset (started s) + held s"
begin

lemma pool_inv: "reachable init step s \<Longrightarrow> inv s"
  by (induction rule: reachable.induct) (auto intro: init_inv step_inv)

lemma pool_order: "reachable init step s \<Longrightarrow> added s = handed s @ queue s"
  using pool_inv inv_order by blast

lemma pool_conserves: "reachable init step s \<Longrightarrow> mset (added s) = mset (started s) + held s + mset (queue s)"
  using pool_inv inv_order inv_held by fastforce

lemma pool_drained:
  assumes "reachable init step s" "queue s = []" "held s = {#}"
  shows "mset (started s) = mset (added s)"
  using pool_conserves [OF assms(1)] assms(2,3) by simp

end

section \<open>ThreadPoolFast\<close>

type_synonym task = "nat option"

datatype worker_pc = WWait | WTook | WRunning | WRan | WExit

record worker =
  wk_has_task :: bool
  wk_task :: task
  wk_pc :: worker_pc
  wk_last :: bool        \<comment> \<open>the thread's \<open>last_worker_\<close>\<close>

record pool =
  tp_queue :: "task list"
  tp_workers :: "nat list"
  tp_w :: "nat \<Rightarrow> worker"
  tp_num :: nat          \<comment> \<open>\<open>workers_tids_.size()\<close>\<close>
  tp_added :: "task list"
  tp_handed :: "task list"
  tp_started :: "task list"

definition new_worker :: worker where
  "new_worker = \<lparr>wk_has_task = False, wk_task = None, wk_pc = WWait, wk_last = False\<rparr>"

definition assignTask :: "nat \<Rightarrow> task \<Rightarrow> pool \<Rightarrow> pool" where
  "assignTask i task s =
     s\<lparr>tp_w := (tp_w s)(i := (tp_w s i)\<lparr>wk_task := task, wk_has_task := True\<rparr>), tp_handed := tp_handed s @ [task]\<rparr>"

definition queueWorker :: "nat \<Rightarrow> pool \<Rightarrow> pool" where
  "queueWorker i s =
     (if tp_queue s \<noteq> []
      then let s = assignTask i (hd (tp_queue s)) s in s\<lparr>tp_queue := tl (tp_queue s)\<rparr>
      else s\<lparr>tp_workers := i # tp_workers s\<rparr>)"

definition addTask :: "task \<Rightarrow> pool \<Rightarrow> pool" where
  "addTask task s =
     (let s = s\<lparr>tp_added := tp_added s @ [task]\<rparr>
      in case tp_workers s of
           i # ws \<Rightarrow> assignTask i task (s\<lparr>tp_workers := ws\<rparr>)
         | [] \<Rightarrow> s\<lparr>tp_queue := tp_queue s @ [task]\<rparr>)"

definition tp_count :: "pool \<Rightarrow> nat" where
  "tp_count s = length (tp_queue s)"

text \<open>The constructor starts and queues one worker after the other.\<close>

primrec start_workers :: "nat \<Rightarrow> pool \<Rightarrow> pool" where
  "start_workers 0 s = s"
| "start_workers (Suc i) s =
     (let s = start_workers i s
      in queueWorker i (s\<lparr>tp_w := (tp_w s)(i := new_worker), tp_num := tp_num s + 1\<rparr>))"

definition new_pool :: "nat \<Rightarrow> pool" where
  "new_pool num_workers = start_workers num_workers
     \<lparr>tp_queue = [], tp_workers = [], tp_w = (\<lambda>_. new_worker), tp_num = 0, tp_added = [], tp_handed = [], tp_started = []\<rparr>"

definition upd_worker :: "nat \<Rightarrow> (worker \<Rightarrow> worker) \<Rightarrow> pool \<Rightarrow> pool" where
  "upd_worker i f s = s\<lparr>tp_w := (tp_w s)(i := f (tp_w s i))\<rparr>"

text \<open>
  The loop of a worker; \<open>stop\<close>, run by a task of worker \<open>i\<close>, makes it the last one once all others have exited.
\<close>

inductive pool_step :: "pool \<Rightarrow> pool \<Rightarrow> bool" where
  add: "pool_step s (addTask task s)"
| take: "i < tp_num s \<Longrightarrow> wk_pc (tp_w s i) = WWait \<Longrightarrow> wk_has_task (tp_w s i) \<Longrightarrow>
    pool_step s (upd_worker i (\<lambda>w. w\<lparr>wk_has_task := False, wk_pc := WTook\<rparr>) s)"
| quit: "i < tp_num s \<Longrightarrow> wk_pc (tp_w s i) = WTook \<Longrightarrow> wk_task (tp_w s i) = None \<Longrightarrow>
    pool_step s (upd_worker i (\<lambda>w. w\<lparr>wk_pc := WExit\<rparr>) (s\<lparr>tp_started := tp_started s @ [None]\<rparr>))"
| run: "i < tp_num s \<Longrightarrow> wk_pc (tp_w s i) = WTook \<Longrightarrow> wk_task (tp_w s i) = Some c \<Longrightarrow>
    pool_step s (upd_worker i (\<lambda>w. w\<lparr>wk_pc := WRunning\<rparr>) (s\<lparr>tp_started := tp_started s @ [Some c]\<rparr>))"
| last: "i < tp_num s \<Longrightarrow> wk_pc (tp_w s i) = WRunning \<Longrightarrow> \<forall>j<tp_num s. j \<noteq> i \<longrightarrow> wk_pc (tp_w s j) = WExit \<Longrightarrow>
    pool_step s (upd_worker i (\<lambda>w. w\<lparr>wk_last := True\<rparr>) s)"
| ran: "i < tp_num s \<Longrightarrow> wk_pc (tp_w s i) = WRunning \<Longrightarrow>
    pool_step s (upd_worker i (\<lambda>w. w\<lparr>wk_pc := WRan\<rparr>) s)"
| quit_last: "i < tp_num s \<Longrightarrow> wk_pc (tp_w s i) = WRan \<Longrightarrow> wk_last (tp_w s i) \<Longrightarrow>
    pool_step s (upd_worker i (\<lambda>w. w\<lparr>wk_pc := WExit\<rparr>) s)"
| again: "i < tp_num s \<Longrightarrow> wk_pc (tp_w s i) = WRan \<Longrightarrow> \<not> wk_last (tp_w s i) \<Longrightarrow>
    pool_step s (queueWorker i (upd_worker i (\<lambda>w. w\<lparr>wk_pc := WWait\<rparr>) s))"

text \<open>The first part of \<open>stop\<close>: a NULL task for every worker.\<close>

definition stop_requests :: "pool \<Rightarrow> pool" where
  "stop_requests s = (addTask None ^^ tp_num s) s"

text \<open>The destructor deletes the tasks for one call that nobody took.\<close>

definition destroy_pool :: "(nat \<Rightarrow> bool) \<Rightarrow> pool \<Rightarrow> nat list \<times> pool" where
  "destroy_pool once s =
     (filter once (map the (filter (\<lambda>task. task \<noteq> None) (tp_queue s))), s\<lparr>tp_queue := []\<rparr>)"

subsection \<open>Its invariant\<close>

definition wk_held :: "worker \<Rightarrow> task multiset" where
  "wk_held w = (if wk_has_task w \<or> wk_pc w = WTook then {#wk_task w#} else {#})"

definition tp_held :: "pool \<Rightarrow> task multiset" where
  "tp_held s = (\<Sum>i<tp_num s. wk_held (tp_w s i))"

text \<open>A worker is free exactly when it waits without a task, and nobody is free while tasks are queued.\<close>

definition wk_free :: "worker \<Rightarrow> bool" where
  "wk_free w \<longleftrightarrow> wk_pc w = WWait \<and> \<not> wk_has_task w"

definition pool_inv :: "pool \<Rightarrow> bool" where
  "pool_inv s \<longleftrightarrow> distinct (tp_workers s) \<and> set (tp_workers s) = {i. i < tp_num s \<and> wk_free (tp_w s i)} \<and>
     (\<forall>i<tp_num s. wk_has_task (tp_w s i) \<longrightarrow> wk_pc (tp_w s i) = WWait) \<and>
     (tp_queue s \<noteq> [] \<longrightarrow> tp_workers s = []) \<and>
     tp_added s = tp_handed s @ tp_queue s \<and> mset (tp_handed s) = mset (tp_started s) + tp_held s"

lemma held_upd:
  assumes "i < tp_num s" "tp_num s' = tp_num s" "tp_w s' = (tp_w s)(i := w)"
  shows "tp_held s' + wk_held (tp_w s i) = tp_held s + wk_held w"
proof -
  have "i \<in> {..<tp_num s}"
    using assms(1) by simp
  then have "tp_held s' = wk_held w + (\<Sum>j\<in>{..<tp_num s} - {i}. wk_held (tp_w s j))"
    using assms(2,3) by (simp add: tp_held_def sum.remove [of _ i])
  moreover have "tp_held s = wk_held (tp_w s i) + (\<Sum>j\<in>{..<tp_num s} - {i}. wk_held (tp_w s j))"
    using assms(1) by (simp add: tp_held_def sum.remove [of _ i])
  ultimately show ?thesis
    by simp
qed

text \<open>Steps that only change worker \<open>i\<close>, who stays outside the list of free workers.\<close>

lemma pool_inv_start:
  assumes inv: "pool_inv s" and i: "i < tp_num s" "\<not> wk_free (tp_w s i)"
    and f: "\<not> wk_free (f (tp_w s i))" "\<not> wk_has_task (f (tp_w s i))"
    and held: "wk_held (tp_w s i) = wk_held (f (tp_w s i)) + mset ts"
  shows "pool_inv (upd_worker i f (s\<lparr>tp_started := tp_started s @ ts\<rparr>))"
proof -
  let ?s' = "upd_worker i f (s\<lparr>tp_started := tp_started s @ ts\<rparr>)"
  have "tp_held ?s' + wk_held (tp_w s i) = tp_held s + wk_held (f (tp_w s i))"
    using held_upd [OF i(1)] by (simp add: upd_worker_def)
  then have "mset ts + tp_held ?s' = tp_held s"
    by (simp add: held ac_simps)
  moreover have "set (tp_workers s) = {j. j < tp_num ?s' \<and> wk_free (tp_w ?s' j)}"
    using inv i(2) f(1) by (auto simp: pool_inv_def upd_worker_def)
  ultimately show ?thesis
    using inv f(2) by (auto simp: pool_inv_def upd_worker_def ac_simps)
qed

lemmas pool_inv_busy = pool_inv_start [where ts = "[]", simplified]

lemma assign_inv:
  assumes free: "wk_pc (tp_w s i) = WWait" "\<not> wk_has_task (tp_w s i)" and i: "i < tp_num s"
    and ws: "distinct (tp_workers s)" "set (tp_workers s) = {j. j < tp_num s \<and> wk_free (tp_w s j)} - {i}"
    and rest: "\<forall>j<tp_num s. wk_has_task (tp_w s j) \<longrightarrow> wk_pc (tp_w s j) = WWait"
      "tp_queue s \<noteq> [] \<longrightarrow> tp_workers s = []"
      "tp_added s = tp_handed s @ task # tp_queue s" "mset (tp_handed s) = mset (tp_started s) + tp_held s"
  shows "pool_inv (assignTask i task s)"
proof -
  have "tp_held (assignTask i task s) + wk_held (tp_w s i) =
      tp_held s + wk_held ((tp_w s i)\<lparr>wk_task := task, wk_has_task := True\<rparr>)"
    using held_upd [OF i] by (simp add: assignTask_def)
  then have "tp_held (assignTask i task s) = tp_held s + {#task#}"
    using free by (simp add: wk_held_def)
  moreover have "set (tp_workers s) = {j. j < tp_num s \<and> wk_free (tp_w (assignTask i task s) j)}"
    using ws(2) by (auto simp: assignTask_def wk_free_def)
  ultimately show ?thesis
    using ws(1) rest free(1) by (auto simp: pool_inv_def assignTask_def ac_simps)
qed

lemma addTask_inv:
  assumes "pool_inv s"
  shows "pool_inv (addTask task s)"
proof (cases "tp_workers s")
  case Nil
  then show ?thesis
    using assms by (auto simp: addTask_def pool_inv_def tp_held_def)
next
  case (Cons i ws)
  then have i: "i < tp_num s" "wk_free (tp_w s i)" "tp_queue s = []"
    using assms by (auto simp: pool_inv_def)
  have "set ws = {j. j < tp_num s \<and> wk_free (tp_w s j)} - {i}"
    using assms Cons by (auto simp: pool_inv_def)
  then have "pool_inv (assignTask i task (s\<lparr>tp_added := tp_added s @ [task], tp_workers := ws\<rparr>))"
    using assms Cons i by (intro assign_inv) (auto simp: pool_inv_def wk_free_def tp_held_def)
  then show ?thesis
    using Cons by (simp add: addTask_def)
qed

lemma queueWorker_inv:
  assumes inv: "pool_inv s" and i: "i < tp_num s" "wk_pc (tp_w s i) = WRan"
  shows "pool_inv (queueWorker i (upd_worker i (\<lambda>w. w\<lparr>wk_pc := WWait\<rparr>) s))"
proof -
  define s1 where "s1 = upd_worker i (\<lambda>w. w\<lparr>wk_pc := WWait\<rparr>) s"
  have ws: "set (tp_workers s) = {j. j < tp_num s \<and> wk_free (tp_w s j)}"
      "\<forall>j<tp_num s. wk_has_task (tp_w s j) \<longrightarrow> wk_pc (tp_w s j) = WWait"
    using inv by (simp_all add: pool_inv_def)
  then have no: "\<not> wk_has_task (tp_w s i)" "i \<notin> set (tp_workers s)"
    using i by (auto simp: wk_free_def)
  have s1: "tp_workers s1 = tp_workers s" "tp_queue s1 = tp_queue s" "tp_num s1 = tp_num s" "tp_added s1 = tp_added s"
      "tp_handed s1 = tp_handed s" "tp_started s1 = tp_started s" "wk_pc (tp_w s1 i) = WWait" "\<not> wk_has_task (tp_w s1 i)"
    using no(1) by (simp_all add: s1_def upd_worker_def)
  have h: "tp_held s1 = tp_held s"
    using held_upd [OF i(1), of s1] no(1) i(2) by (simp add: s1_def upd_worker_def wk_held_def)
  have free: "{j. j < tp_num s \<and> wk_free (tp_w s1 j)} = insert i (set (tp_workers s))"
    using ws(1) i no(1) by (auto simp: s1_def upd_worker_def wk_free_def)
  have has: "\<forall>j<tp_num s. wk_has_task (tp_w s1 j) \<longrightarrow> wk_pc (tp_w s1 j) = WWait"
    using ws(2) by (simp add: s1_def upd_worker_def)
  show ?thesis
    unfolding s1_def [symmetric]
  proof (cases "tp_queue s")
    case Nil
    then have "queueWorker i s1 = s1\<lparr>tp_workers := i # tp_workers s\<rparr>"
      using s1 by (simp add: queueWorker_def)
    moreover have "tp_held (s1\<lparr>tp_workers := i # tp_workers s\<rparr>) = tp_held s"
      using h by (simp add: tp_held_def)
    ultimately show "pool_inv (queueWorker i s1)"
      using inv free no(2) has Nil s1 by (simp add: pool_inv_def)
  next
    case (Cons task q)
    have eq: "queueWorker i s1 = assignTask i task (s1\<lparr>tp_queue := q\<rparr>)"
      using Cons s1(2) by (simp add: queueWorker_def assignTask_def Let_def)
    have "tp_workers s = []" "tp_held (s1\<lparr>tp_queue := q\<rparr>) = tp_held s"
      using inv Cons h by (simp_all add: pool_inv_def tp_held_def)
    then show "pool_inv (queueWorker i s1)"
      unfolding eq using inv free has s1 Cons i(1) by (intro assign_inv) (simp_all add: pool_inv_def insert_absorb)
  qed
qed

lemma pool_inv_pc: "pool_inv s \<Longrightarrow> i < tp_num s \<Longrightarrow> wk_pc (tp_w s i) \<noteq> WWait \<Longrightarrow> \<not> wk_has_task (tp_w s i)"
  by (auto simp: pool_inv_def)

lemma pool_step_inv:
  assumes inv: "pool_inv s" and "pool_step s s'"
  shows "pool_inv s'"
  using assms(2)
proof cases
  case (add task)
  then show ?thesis
    using addTask_inv [OF inv] by simp
next
  case (again i)
  then show ?thesis
    using queueWorker_inv [OF inv] by blast
next
  case (take i)
  then show ?thesis
    using pool_inv_busy [OF inv, of i "\<lambda>w. w\<lparr>wk_has_task := False, wk_pc := WTook\<rparr>"]
    by (simp add: wk_free_def wk_held_def)
next
  case (quit i)
  then show ?thesis
    using pool_inv_start [OF inv, of i "\<lambda>w. w\<lparr>wk_pc := WExit\<rparr>" "[None]"] pool_inv_pc [OF inv, of i]
    by (simp add: wk_free_def wk_held_def)
next
  case (run i c)
  then show ?thesis
    using pool_inv_start [OF inv, of i "\<lambda>w. w\<lparr>wk_pc := WRunning\<rparr>" "[Some c]"] pool_inv_pc [OF inv, of i]
    by (simp add: wk_free_def wk_held_def)
next
  case (last i)
  then show ?thesis
    using pool_inv_busy [OF inv, of i "\<lambda>w. w\<lparr>wk_last := True\<rparr>"] pool_inv_pc [OF inv, of i]
    by (simp add: wk_free_def wk_held_def)
next
  case (ran i)
  then show ?thesis
    using pool_inv_busy [OF inv, of i "\<lambda>w. w\<lparr>wk_pc := WRan\<rparr>"] pool_inv_pc [OF inv, of i]
    by (simp add: wk_free_def wk_held_def)
next
  case (quit_last i)
  then show ?thesis
    using pool_inv_busy [OF inv, of i "\<lambda>w. w\<lparr>wk_pc := WExit\<rparr>"] pool_inv_pc [OF inv, of i]
    by (simp add: wk_free_def wk_held_def)
qed

lemma start_workers_eq:
  assumes "s = \<lparr>tp_queue = [], tp_workers = [], tp_w = (\<lambda>_. new_worker), tp_num = 0, tp_added = [], tp_handed = [], tp_started = []\<rparr>"
  shows "start_workers n s = s\<lparr>tp_workers := rev [0..<n], tp_num := n\<rparr>"
  using assms by (induction n) (auto simp: queueWorker_def Let_def fun_upd_idem)

lemma new_pool_inv: "pool_inv (new_pool n)"
  by (auto simp: new_pool_def start_workers_eq pool_inv_def tp_held_def new_worker_def wk_free_def wk_held_def)

lemma pool_inv_facts:
  assumes "pool_inv s"
  shows "tp_added s = tp_handed s @ tp_queue s" "tp_queue s \<noteq> [] \<longrightarrow> tp_workers s = []"
    "mset (tp_handed s) = mset (tp_started s) + tp_held s"
  using assms by (simp_all add: pool_inv_def)

interpretation fastp: task_pool "\<lambda>s. s = new_pool n" pool_step pool_inv tp_added tp_handed tp_queue tp_started tp_held for n
  by unfold_locales (blast intro: new_pool_inv pool_step_inv pool_inv_facts)+

text \<open>
  C39: In every interleaving, the pool hands out the tasks in the order they were added and never has a free worker
  while a task is queued; each task it handed out has been started exactly once or is about to be.
\<close>

theorem pool_runs_tasks:
  assumes "reachable (\<lambda>s. s = new_pool n) pool_step s"
  shows "tp_added s = tp_handed s @ tp_queue s \<and> (tp_queue s = [] \<or> tp_workers s = []) \<and>
    mset (tp_added s) = mset (tp_started s) + tp_held s + mset (tp_queue s)"
  using fastp.pool_order [OF assms] pool_inv_facts(2) [OF fastp.pool_inv [OF assms]] fastp.pool_conserves [OF assms] by blast

text \<open>A pool of one worker, after a task was added, taken and started.\<close>

definition demo_pool :: pool where
  "demo_pool = \<lparr>tp_queue = [Some 8], tp_workers = [],
     tp_w = (\<lambda>_. new_worker)(0 := \<lparr>wk_has_task = False, wk_task = Some 7, wk_pc = WRunning, wk_last = False\<rparr>),
     tp_num = 1, tp_added = [Some 7, Some 8], tp_handed = [Some 7], tp_started = [Some 7]\<rparr>"

lemma demo_pool_reachable: "reachable (\<lambda>s. s = new_pool 1) pool_step demo_pool"
proof -
  define s0 where "s0 = new_pool 1"
  define s1 where "s1 = addTask (Some 7) s0"
  define s2 where "s2 = upd_worker 0 (\<lambda>w. w\<lparr>wk_has_task := False, wk_pc := WTook\<rparr>) s1"
  define s3 where "s3 = upd_worker 0 (\<lambda>w. w\<lparr>wk_pc := WRunning\<rparr>) (s2\<lparr>tp_started := tp_started s2 @ [Some 7]\<rparr>)"
  note defs = s0_def s1_def s2_def s3_def new_pool_def start_workers_eq addTask_def assignTask_def upd_worker_def new_worker_def
    queueWorker_def Let_def
  have "reachable (\<lambda>s. s = new_pool 1) pool_step s0"
    by (simp add: reachable.start s0_def)
  then have "reachable (\<lambda>s. s = new_pool 1) pool_step s1"
    unfolding s1_def by (rule reachable.continue) (rule pool_step.add)
  then have "reachable (\<lambda>s. s = new_pool 1) pool_step s2"
    unfolding s2_def by (rule reachable.continue) (rule pool_step.take, simp_all add: defs)
  then have "reachable (\<lambda>s. s = new_pool 1) pool_step s3"
    unfolding s3_def by (rule reachable.continue) (rule pool_step.run, simp_all add: defs)
  then have "reachable (\<lambda>s. s = new_pool 1) pool_step (addTask (Some 8) s3)"
    by (rule reachable.continue) (rule pool_step.add)
  moreover have "addTask (Some 8) s3 = demo_pool"
    by (simp add: defs demo_pool_def)
  ultimately show ?thesis
    by simp
qed

theorem pool_runs_tasks_witness:
  "tp_added demo_pool = [Some 7] @ tp_queue demo_pool \<and> mset (tp_started demo_pool) + tp_held demo_pool = {#Some 7#}"
  using pool_runs_tasks [OF demo_pool_reachable] by (simp add: demo_pool_def)

section \<open>ThreadPoolNormal\<close>

datatype normal_pc = NWait | NGot task | NRunning | NRan | NExit

record normal_pool =
  np_queue :: "task list"
  np_pc :: "nat \<Rightarrow> normal_pc"
  np_last :: "nat \<Rightarrow> bool"
  np_num :: nat
  np_added :: "task list"
  np_handed :: "task list"
  np_started :: "task list"

definition new_normal_pool :: "nat \<Rightarrow> normal_pool" where
  "new_normal_pool num_workers =
     \<lparr>np_queue = [], np_pc = (\<lambda>_. NWait), np_last = (\<lambda>_. False), np_num = num_workers,
      np_added = [], np_handed = [], np_started = []\<rparr>"

definition np_addTask :: "task \<Rightarrow> normal_pool \<Rightarrow> normal_pool" where
  "np_addTask task s = s\<lparr>np_queue := np_queue s @ [task], np_added := np_added s @ [task]\<rparr>"

text \<open>The first part of \<open>stop\<close>: a NULL task for every worker, in one critical section.\<close>

definition np_stop_requests :: "normal_pool \<Rightarrow> normal_pool" where
  "np_stop_requests s = (np_addTask None ^^ np_num s) s"

definition np_count :: "normal_pool \<Rightarrow> nat" where
  "np_count s = length (np_queue s)"

definition np_destroy :: "(nat \<Rightarrow> bool) \<Rightarrow> normal_pool \<Rightarrow> nat list \<times> normal_pool" where
  "np_destroy once s =
     (filter once (map the (filter (\<lambda>task. task \<noteq> None) (np_queue s))), s\<lparr>np_queue := []\<rparr>)"

definition np_goto :: "nat \<Rightarrow> normal_pc \<Rightarrow> normal_pool \<Rightarrow> normal_pool" where
  "np_goto i p s = s\<lparr>np_pc := (np_pc s)(i := p)\<rparr>"

inductive normal_step :: "normal_pool \<Rightarrow> normal_pool \<Rightarrow> bool" where
  add: "normal_step s (np_addTask task s)"
| stop: "normal_step s (np_stop_requests s)"
| pop: "i < np_num s \<Longrightarrow> np_pc s i = NWait \<Longrightarrow> np_queue s = task # q \<Longrightarrow>
    normal_step s (np_goto i (NGot task) (s\<lparr>np_queue := q, np_handed := np_handed s @ [task]\<rparr>))"
| quit: "i < np_num s \<Longrightarrow> np_pc s i = NGot None \<Longrightarrow>
    normal_step s (np_goto i NExit (s\<lparr>np_started := np_started s @ [None]\<rparr>))"
| run: "i < np_num s \<Longrightarrow> np_pc s i = NGot (Some c) \<Longrightarrow>
    normal_step s (np_goto i NRunning (s\<lparr>np_started := np_started s @ [Some c]\<rparr>))"
| last: "i < np_num s \<Longrightarrow> np_pc s i = NRunning \<Longrightarrow> \<forall>j<np_num s. j \<noteq> i \<longrightarrow> np_pc s j = NExit \<Longrightarrow>
    normal_step s (s\<lparr>np_last := (np_last s)(i := True)\<rparr>)"
| ran: "i < np_num s \<Longrightarrow> np_pc s i = NRunning \<Longrightarrow> normal_step s (np_goto i NRan s)"
| quit_last: "i < np_num s \<Longrightarrow> np_pc s i = NRan \<Longrightarrow> np_last s i \<Longrightarrow> normal_step s (np_goto i NExit s)"
| again: "i < np_num s \<Longrightarrow> np_pc s i = NRan \<Longrightarrow> \<not> np_last s i \<Longrightarrow> normal_step s (np_goto i NWait s)"

definition pc_held :: "normal_pc \<Rightarrow> task multiset" where
  "pc_held p = (case p of NGot task \<Rightarrow> {#task#} | _ \<Rightarrow> {#})"

definition np_held :: "normal_pool \<Rightarrow> task multiset" where
  "np_held s = (\<Sum>i<np_num s. pc_held (np_pc s i))"

definition normal_inv :: "normal_pool \<Rightarrow> bool" where
  "normal_inv s \<longleftrightarrow> np_added s = np_handed s @ np_queue s \<and> mset (np_handed s) = mset (np_started s) + np_held s"

lemma np_held_goto:
  assumes "i < np_num s"
  shows "np_held (np_goto i p s) + pc_held (np_pc s i) = np_held s + pc_held p"
  using assms by (simp add: np_held_def np_goto_def sum.remove [of "{..<np_num s}" i])

lemma np_held_other [simp]:
  "np_held (s\<lparr>np_queue := q, np_handed := h\<rparr>) = np_held s" "np_held (s\<lparr>np_started := x\<rparr>) = np_held s"
  "np_held (s\<lparr>np_last := l\<rparr>) = np_held s" "np_held (s\<lparr>np_queue := q, np_added := h\<rparr>) = np_held s"
  by (simp_all add: np_held_def)

lemma np_goto_fields [simp]:
  "np_queue (np_goto i p s) = np_queue s" "np_added (np_goto i p s) = np_added s"
  "np_handed (np_goto i p s) = np_handed s" "np_started (np_goto i p s) = np_started s"
  by (simp_all add: np_goto_def)

lemma np_addTask_inv: "normal_inv s \<Longrightarrow> normal_inv (np_addTask task s)"
  by (simp add: normal_inv_def np_addTask_def)

lemma np_addTasks_inv: "normal_inv s \<Longrightarrow> normal_inv ((np_addTask task ^^ n) s)"
  by (induction n) (simp_all add: np_addTask_inv)

lemma normal_step_inv:
  assumes inv: "normal_inv s" and "normal_step s s'"
  shows "normal_inv s'"
  using assms(2)
proof cases
  case (pop i task q)
  have "np_held s' = np_held s + {#task#}"
    using np_held_goto [of i "s\<lparr>np_queue := q, np_handed := np_handed s @ [task]\<rparr>" "NGot task"] pop
    by (simp add: pc_held_def)
  then show ?thesis
    using inv pop by (simp add: normal_inv_def)
next
  case (quit i)
  have "np_held s = np_held s' + {#None#}"
    using np_held_goto [of i "s\<lparr>np_started := np_started s @ [None]\<rparr>" NExit] quit by (simp add: pc_held_def)
  then show ?thesis
    using inv quit by (simp add: normal_inv_def)
next
  case (run i c)
  have "np_held s = np_held s' + {#Some c#}"
    using np_held_goto [of i "s\<lparr>np_started := np_started s @ [Some c]\<rparr>" NRunning] run by (simp add: pc_held_def)
  then show ?thesis
    using inv run by (simp add: normal_inv_def)
next
  case (ran i)
  then show ?thesis
    using inv np_held_goto [of i s NRan] by (simp add: normal_inv_def pc_held_def)
next
  case (quit_last i)
  then show ?thesis
    using inv np_held_goto [of i s NExit] by (simp add: normal_inv_def pc_held_def)
next
  case (again i)
  then show ?thesis
    using inv np_held_goto [of i s NWait] by (simp add: normal_inv_def pc_held_def)
qed (use inv np_addTask_inv np_addTasks_inv in \<open>auto simp: np_stop_requests_def normal_inv_def\<close>)

lemma normal_inv_facts:
  assumes "normal_inv s"
  shows "np_added s = np_handed s @ np_queue s" "mset (np_handed s) = mset (np_started s) + np_held s"
  using assms by (simp_all add: normal_inv_def)

lemma new_normal_pool_inv: "normal_inv (new_normal_pool n)"
  by (simp add: normal_inv_def new_normal_pool_def np_held_def pc_held_def)

interpretation normalp: task_pool "\<lambda>s. s = new_normal_pool n" normal_step normal_inv np_added np_handed np_queue np_started np_held for n
  by unfold_locales (blast intro: new_normal_pool_inv normal_step_inv normal_inv_facts)+

lemma np_held_none: "(\<forall>i<np_num s. \<forall>task. np_pc s i \<noteq> NGot task) \<Longrightarrow> np_held s = {#}"
  by (auto simp: np_held_def pc_held_def split: normal_pc.splits intro!: sum.neutral)

text \<open>
  C36: In every interleaving of additions, stop requests and the workers of the pool with one queue, the tasks are taken in the order
  they were added; each task is still queued, held by one worker or started, exactly once.  When the queue is empty and no worker
  holds a task it has not started, every task that was added has been started exactly once.
\<close>

theorem normal_pool_runs_tasks:
  assumes "reachable (\<lambda>s. s = new_normal_pool n) normal_step s"
  shows "np_added s = np_handed s @ np_queue s \<and> mset (np_added s) = mset (np_started s) + np_held s + mset (np_queue s) \<and>
    (np_queue s = [] \<and> (\<forall>i<np_num s. \<forall>task. np_pc s i \<noteq> NGot task) \<longrightarrow> mset (np_started s) = mset (np_added s))"
  using normalp.pool_order [OF assms] normalp.pool_conserves [OF assms] np_held_none [of s] by simp

text \<open>A pool of two workers with three tasks: one was started, one is held, and one is queued.\<close>

definition demo_normal :: normal_pool where
  "demo_normal = \<lparr>np_queue = [Some 9], np_pc = (\<lambda>_. NWait)(0 := NRunning, 1 := NGot (Some 8)), np_last = (\<lambda>_. False), np_num = 2,
     np_added = [Some 7, Some 8, Some 9], np_handed = [Some 7, Some 8], np_started = [Some 7]\<rparr>"

lemma demo_normal_reachable: "reachable (\<lambda>s. s = new_normal_pool 2) normal_step demo_normal"
proof -
  let ?R = "reachable (\<lambda>s. s = new_normal_pool 2) normal_step"
  define s1 where "s1 = np_addTask (Some 9) (np_addTask (Some 8) (np_addTask (Some 7) (new_normal_pool 2)))"
  define s2 where "s2 = np_goto 0 (NGot (Some 7)) (s1\<lparr>np_queue := [Some 8, Some 9], np_handed := np_handed s1 @ [Some 7]\<rparr>)"
  define s3 where "s3 = np_goto 0 NRunning (s2\<lparr>np_started := np_started s2 @ [Some 7]\<rparr>)"
  define s4 where "s4 = np_goto 1 (NGot (Some 8)) (s3\<lparr>np_queue := [Some 9], np_handed := np_handed s3 @ [Some 8]\<rparr>)"
  note defs = s1_def s2_def s3_def s4_def np_addTask_def np_goto_def new_normal_pool_def
  have "?R (new_normal_pool 2)"
    by (simp add: reachable.start)
  then have "?R s1"
    unfolding s1_def by (meson reachable.continue normal_step.add)
  then have "?R s2"
    unfolding s2_def by (rule reachable.continue) (rule normal_step.pop, simp_all add: defs)
  then have "?R s3"
    unfolding s3_def by (rule reachable.continue) (rule normal_step.run, simp_all add: defs)
  then have "?R s4"
    unfolding s4_def by (rule reachable.continue) (rule normal_step.pop, simp_all add: defs)
  moreover have "s4 = demo_normal"
    by (simp add: defs demo_normal_def)
  ultimately show ?thesis
    by simp
qed

theorem normal_pool_runs_tasks_witness: "mset (np_started demo_normal) + np_held demo_normal = {#Some 7, Some 8#}"
  using normal_pool_runs_tasks [OF demo_normal_reachable] by (simp add: demo_normal_def)

end
