(* ===== verification/Io_Manager.thy ===== *)
theory Io_Manager
  imports Thread_Pool
begin

text \<open>
  The event loop (\<open>io_manager.cpp\<close>) and what it knows of the poller (\<open>descriptor_poller_epoll.cpp\<close>).  Descriptors are objects
  of a heap, linked through \<open>next_\<close> when they wait to be disposed of; an upcall is the number of a task of the worker
  pool.  Each operation runs under the mutex of the data it touches and is one step here; the system's clock and the
  events epoll returns are arguments.
\<close>

section \<open>State\<close>

record descriptor =
  ds_fd :: int
  ds_closed :: bool
  ds_read_cb :: task
  ds_write_cb :: task
  ds_can_read :: bool
  ds_can_write :: bool
  ds_waiting_read :: bool
  ds_waiting_write :: bool
  ds_next :: addr

record io_manager =
  im_pool :: pool
  im_descs :: "addr \<rightharpoonup> descriptor"
  im_new :: addr                       \<comment> \<open>the address the next \<open>new Descriptor\<close> returns\<close>
  im_events :: "(int \<times> addr) list"     \<comment> \<open>what was added to the epoll set\<close>
  im_deleted_desc :: addr
  im_stopped :: bool
  im_polling :: bool
  im_timer_queue :: "(nat \<times> task) list"

definition new_io_manager :: "nat \<Rightarrow> io_manager" where
  "new_io_manager num_workers =
     \<lparr>im_pool = new_pool num_workers, im_descs = Map.empty, im_new = 1, im_events = [], im_deleted_desc = NULL,
      im_stopped = False, im_polling = False, im_timer_queue = []\<rparr>"

definition desc_at :: "io_manager \<Rightarrow> addr \<Rightarrow> descriptor result" where
  "desc_at im d = (case im_descs im d of None \<Rightarrow> Inl BadAddress | Some ds \<Rightarrow> Inr ds)"

definition put_desc :: "addr \<Rightarrow> descriptor \<Rightarrow> io_manager \<Rightarrow> io_manager" where
  "put_desc d ds im = im\<lparr>im_descs := (im_descs im)(d \<mapsto> ds)\<rparr>"

text \<open>\<open>workerPool()->addTask(cb)\<close>\<close>

definition im_addTask :: "task \<Rightarrow> io_manager \<Rightarrow> io_manager" where
  "im_addTask task im = im\<lparr>im_pool := addTask task (im_pool im)\<rparr>"

section \<open>Descriptors\<close>

definition new_descriptor :: "int \<Rightarrow> task \<Rightarrow> task \<Rightarrow> descriptor" where
  "new_descriptor fd read_cb write_cb =
     \<lparr>ds_fd = fd, ds_closed = False, ds_read_cb = read_cb, ds_write_cb = write_cb, ds_can_read = False,
      ds_can_write = False, ds_waiting_read = False, ds_waiting_write = False, ds_next = NULL\<rparr>"

definition setUpCalls :: "task \<Rightarrow> task \<Rightarrow> addr \<Rightarrow> io_manager \<Rightarrow> io_manager result" where
  "setUpCalls read_cb write_cb d im =
     rbind (desc_at im d) (\<lambda>ds. Inr (put_desc d (ds\<lparr>ds_read_cb := read_cb, ds_write_cb := write_cb\<rparr>) im))"

definition readWhenReady :: "addr \<Rightarrow> io_manager \<Rightarrow> io_manager result" where
  "readWhenReady d im =
     rbind (desc_at im d) (\<lambda>ds.
       let ready_now = ds_can_read ds;
           ds = (if ready_now then ds\<lparr>ds_can_read := False\<rparr> else ds\<lparr>ds_waiting_read := True\<rparr>);
           im = put_desc d ds im
       in Inr (if ds_read_cb ds \<noteq> None \<and> ready_now then im_addTask (ds_read_cb ds) im else im))"

definition writeWhenReady :: "addr \<Rightarrow> io_manager \<Rightarrow> io_manager result" where
  "writeWhenReady d im =
     rbind (desc_at im d) (\<lambda>ds.
       let ready_now = ds_can_write ds;
           ds = (if ready_now then ds\<lparr>ds_can_write := False\<rparr> else ds\<lparr>ds_waiting_write := True\<rparr>);
           im = put_desc d ds im
       in Inr (if ds_write_cb ds \<noteq> None \<and> ready_now then im_addTask (ds_write_cb ds) im else im))"

definition readIfWaiting :: "addr \<Rightarrow> io_manager \<Rightarrow> io_manager result" where
  "readIfWaiting d im =
     rbind (desc_at im d) (\<lambda>ds.
       let schedule_now = ds_waiting_read ds;
           ds = (if schedule_now then ds\<lparr>ds_waiting_read := False\<rparr> else ds\<lparr>ds_can_read := True\<rparr>);
           im = put_desc d ds im
       in Inr (if ds_read_cb ds \<noteq> None \<and> schedule_now then im_addTask (ds_read_cb ds) im else im))"

definition writeIfWaiting :: "addr \<Rightarrow> io_manager \<Rightarrow> io_manager result" where
  "writeIfWaiting d im =
     rbind (desc_at im d) (\<lambda>ds.
       let schedule_now = ds_waiting_write ds;
           ds = (if schedule_now then ds\<lparr>ds_waiting_write := False\<rparr> else ds\<lparr>ds_can_write := True\<rparr>);
           im = put_desc d ds im
       in Inr (if ds_write_cb ds \<noteq> None \<and> schedule_now then im_addTask (ds_write_cb ds) im else im))"

section \<open>The manager\<close>

definition newDescriptor :: "int \<Rightarrow> task \<Rightarrow> task \<Rightarrow> io_manager \<Rightarrow> addr \<times> io_manager" where
  "newDescriptor fd read_cb write_cb im =
     (let descr = im_new im;
          im = put_desc descr (new_descriptor fd read_cb write_cb) (im\<lparr>im_new := im_new im + 1\<rparr>)
      in (descr, im\<lparr>im_events := im_events im @ [(fd, descr)]\<rparr>))"

definition delDescriptor :: "addr \<Rightarrow> io_manager \<Rightarrow> io_manager result" where
  "delDescriptor desc im =
     (if desc = NULL then Inr im
      else rbind (desc_at im desc) (\<lambda>ds.
             Inr ((put_desc desc (ds\<lparr>ds_next := im_deleted_desc im\<rparr>) im)\<lparr>im_deleted_desc := desc\<rparr>)))"

text \<open>\<open>multimap::insert\<close> puts a new element behind those with an equal key; \<open>ts\<close> is \<open>getTicks() + delay * ticksPerSecond()\<close>.\<close>

definition addTimer :: "nat \<Rightarrow> task \<Rightarrow> io_manager \<Rightarrow> io_manager" where
  "addTimer ts task im =
     im\<lparr>im_timer_queue := takeWhile (\<lambda>x. fst x \<le> ts) (im_timer_queue im) @
          (ts, task) # dropWhile (\<lambda>x. fst x \<le> ts) (im_timer_queue im)\<rparr>"

function run_timers :: "nat \<Rightarrow> io_manager \<Rightarrow> io_manager" where
  "run_timers now im =
     (case im_timer_queue im of
        [] \<Rightarrow> im
      | (ts, task) # q \<Rightarrow>
          if ts > now then im else run_timers now ((im_addTask task im)\<lparr>im_timer_queue := q\<rparr>))"
  by pat_completeness auto
termination
  by (relation "measure (\<lambda>(now, im). length (im_timer_queue im))") auto

declare run_timers.simps [simp del]

text \<open>What epoll reports for a descriptor and what \<open>getEvents\<close> makes of it: error, ready to read, ready to write.\<close>

record epoll_event =
  ev_EPOLLERR :: bool
  ev_EPOLLHUP :: bool
  ev_EPOLLIN :: bool
  ev_EPOLLOUT :: bool
  ev_descr :: addr

definition getEvents :: "epoll_event \<Rightarrow> bool \<times> bool \<times> bool" where
  "getEvents ev =
     (if ev_EPOLLERR ev then (True, False, False)
      else (False, ev_EPOLLHUP ev \<or> ev_EPOLLIN ev, ev_EPOLLHUP ev \<or> ev_EPOLLOUT ev))"

definition dispatch :: "epoll_event \<Rightarrow> io_manager \<Rightarrow> io_manager result" where
  "dispatch ev im =
     (let (err, rd, wr) = getEvents ev in
      rbind (if err \<or> rd then readIfWaiting (ev_descr ev) im else Inr im) (\<lambda>im.
        if err \<or> wr then writeIfWaiting (ev_descr ev) im else Inr im))"

fun dispatch_all :: "epoll_event list \<Rightarrow> io_manager \<Rightarrow> io_manager result" where
  "dispatch_all [] im = Inr im"
| "dispatch_all (ev # evs) im = rbind (dispatch ev im) (dispatch_all evs)"

text \<open>The descriptors on the list are deleted one after the other.\<close>

partial_function (option) delete_list :: "addr \<Rightarrow> io_manager \<Rightarrow> io_manager result option" where
  "delete_list to_delete im =
     (if to_delete = NULL then Some (Inr im)
      else case desc_at im to_delete of
          Inl e \<Rightarrow> Some (Inl e)
        | Inr ds \<Rightarrow> delete_list (ds_next ds) (im\<lparr>im_descs := (im_descs im)(to_delete := None)\<rparr>))"

abbreviation EINTR :: int where
  "EINTR \<equiv> 4"

text \<open>One iteration of \<open>pollBody\<close>, given the \<open>errno\<close> or the events of this poll and the clock's ticks.\<close>

definition poll_round :: "int + epoll_event list \<Rightarrow> nat \<Rightarrow> io_manager \<Rightarrow> io_manager result" where
  "poll_round res now im =
     (if case res of Inl e \<Rightarrow> e \<noteq> EINTR | Inr evs \<Rightarrow> False then Inl Fatal
      else
        let im = run_timers now im
        in rbind (dispatch_all (case res of Inl e \<Rightarrow> [] | Inr evs \<Rightarrow> evs) im) (\<lambda>im.
             let to_delete = im_deleted_desc im;
                 im = im\<lparr>im_deleted_desc := NULL\<rparr>
             in rbind (of_opt (delete_list to_delete im)) id))"

text \<open>
  The loop: each round comes with the events and the clock of its poll and with what other threads do to the manager before
  the next check of \<open>stopped()\<close>.  A list of rounds that ends before the loop does means that it is still polling.
\<close>

fun pollBody :: "((int + epoll_event list) \<times> nat \<times> (io_manager \<Rightarrow> io_manager)) list \<Rightarrow> io_manager \<Rightarrow> io_manager result" where
  "pollBody [] im = (if im_stopped im then Inr (im\<lparr>im_polling := False\<rparr>) else Inl Diverge)"
| "pollBody ((res, now, others) # rounds) im =
     (if im_stopped im then Inr (im\<lparr>im_polling := False\<rparr>)
      else rbind (poll_round res now im) (\<lambda>im. pollBody rounds (others im)))"

definition im_poll :: "((int + epoll_event list) \<times> nat \<times> (io_manager \<Rightarrow> io_manager)) list \<Rightarrow> io_manager \<Rightarrow> io_manager result" where
  "im_poll rounds im = pollBody rounds (im\<lparr>im_polling := True\<rparr>)"

text \<open>
  \<open>stop\<close> up to the point where it waits for the polling loop, and from there: the stop requests to the pool and,
  when its workers have exited, the disposal of the descriptors.  \<open>me\<close> is the worker that runs \<open>stop\<close>, if one does:
  it does not wait for itself, and leaves after its task.
\<close>

definition stop_begin :: "io_manager \<Rightarrow> bool \<times> io_manager" where
  "stop_begin im = (if im_stopped im then (False, im) else (True, im\<lparr>im_stopped := True\<rparr>))"

definition stop_workers :: "io_manager \<Rightarrow> io_manager option" where
  "stop_workers im = (if im_polling im then None else Some (im\<lparr>im_pool := stop_requests (im_pool im)\<rparr>))"

definition stop_finish :: "nat option \<Rightarrow> io_manager \<Rightarrow> io_manager result option" where
  "stop_finish me im =
     (if \<forall>i<tp_num (im_pool im). me \<noteq> Some i \<longrightarrow> wk_pc (tp_w (im_pool im) i) = WExit
      then
        let pool = (case me of None \<Rightarrow> im_pool im | Some i \<Rightarrow> upd_worker i (\<lambda>w. w\<lparr>wk_last := True\<rparr>) (im_pool im))
        in delete_list (im_deleted_desc im) (im\<lparr>im_deleted_desc := NULL, im_pool := pool\<rparr>)
      else None)"

text \<open>The whole call: \<open>polls\<close> and \<open>works\<close> are what the other threads do while it waits for the polling loop and for the workers.\<close>

definition im_stop ::
    "(io_manager \<Rightarrow> io_manager) \<Rightarrow> (io_manager \<Rightarrow> io_manager) \<Rightarrow> nat option \<Rightarrow> io_manager \<Rightarrow> io_manager result" where
  "im_stop polls works me im =
     (let (first, im) = stop_begin im in
      if \<not> first then Inr im
      else
        rbind (of_opt (stop_workers (polls im))) (\<lambda>im.
          rbind (of_opt (stop_finish me (works im))) id))"

section \<open>Upcalls are not lost\<close>

text \<open>A descriptor is never both ready and waited for.\<close>

definition desc_ok :: "descriptor \<Rightarrow> bool" where
  "desc_ok ds \<longleftrightarrow> \<not> (ds_can_read ds \<and> ds_waiting_read ds) \<and> \<not> (ds_can_write ds \<and> ds_waiting_write ds)"

definition descs_ok :: "io_manager \<Rightarrow> bool" where
  "descs_ok im \<longleftrightarrow> (\<forall>d ds. im_descs im d = Some ds \<longrightarrow> desc_ok ds)"

lemmas descriptor_defs = desc_at_def put_desc_def im_addTask_def readWhenReady_def writeWhenReady_def
  readIfWaiting_def writeIfWaiting_def Let_def

lemma descs_ok_put: "descs_ok im \<Longrightarrow> desc_ok ds \<Longrightarrow> descs_ok (put_desc d ds im)"
  by (simp add: descs_ok_def put_desc_def)

lemma descs_ok_addTask [simp]: "descs_ok (im_addTask t im) = descs_ok im"
  by (simp add: descs_ok_def im_addTask_def)

lemma desc_at_ok: "descs_ok im \<Longrightarrow> desc_at im d = Inr ds \<Longrightarrow> desc_ok ds"
  by (auto simp: descs_ok_def desc_at_def split: option.splits)

text \<open>The four operations on a descriptor keep it so.\<close>

lemma ready_ops_ok:
  assumes "descs_ok im"
  shows "readWhenReady d im = Inr im1 \<Longrightarrow> descs_ok im1" "writeWhenReady d im = Inr im1 \<Longrightarrow> descs_ok im1"
    "readIfWaiting d im = Inr im1 \<Longrightarrow> descs_ok im1" "writeIfWaiting d im = Inr im1 \<Longrightarrow> descs_ok im1"
  using desc_at_ok [OF assms, of d] descs_ok_put [OF assms, of _ d]
  by (auto simp: readWhenReady_def writeWhenReady_def readIfWaiting_def writeIfWaiting_def Let_def desc_ok_def
      rbind_Inr_iff split: if_splits)

lemma dispatch_ok:
  assumes "descs_ok im" "dispatch ev im = Inr im1"
  shows "descs_ok im1"
proof -
  obtain err rd wr where e: "getEvents ev = (err, rd, wr)"
    using prod_cases3 by blast
  then obtain im2 where 2: "(if err \<or> rd then readIfWaiting (ev_descr ev) im else Inr im) = Inr im2"
      "(if err \<or> wr then writeIfWaiting (ev_descr ev) im2 else Inr im2) = Inr im1"
    using assms(2) by (auto simp: dispatch_def rbind_Inr_iff)
  then have "descs_ok im2"
    using ready_ops_ok(3) [OF assms(1), of "ev_descr ev" im2] assms(1) by (cases "err \<or> rd") simp_all
  then show ?thesis
    using ready_ops_ok(4) [of im2 "ev_descr ev" im1] 2(2) by (cases "err \<or> wr") simp_all
qed

text \<open>A descriptor that is neither ready to be read nor waited for, with \<open>cb\<close> as its read upcall.\<close>

definition idle_reader :: "io_manager \<Rightarrow> addr \<Rightarrow> nat \<Rightarrow> bool" where
  "idle_reader im d cb \<longleftrightarrow> (\<exists>ds. im_descs im d = Some ds \<and> \<not> ds_can_read ds \<and> \<not> ds_waiting_read ds \<and> ds_read_cb ds = Some cb)"

lemma idle_wakeup:
  assumes "idle_reader im d cb"
  shows "rbind (readWhenReady d im) (readIfWaiting d) = Inr (im_addTask (Some cb) im)
    \<and> rbind (readIfWaiting d im) (readWhenReady d) = Inr (im_addTask (Some cb) im)"
proof -
  obtain ds where ds: "im_descs im d = Some ds" "\<not> ds_can_read ds" "\<not> ds_waiting_read ds" "ds_read_cb ds = Some cb"
    using assms by (auto simp: idle_reader_def)
  have same: "ds\<lparr>ds_waiting_read := False\<rparr> = ds" "ds\<lparr>ds_can_read := False\<rparr> = ds"
      "im\<lparr>im_descs := (im_descs im)(d \<mapsto> ds), im_pool := p\<rparr> = im\<lparr>im_pool := p\<rparr>" for p
    using ds(1-3) by (simp_all add: fun_upd_idem)
  show ?thesis
    using ds by (simp add: descriptor_defs same)
qed

text \<open>
  C14: On a descriptor with a read upcall that is not both ready and waited for (no operation makes it so), a request to read and
  the socket's readiness may come in either order: the upcall is given to the worker pool exactly once, and the descriptor is
  still not both.  When it was idle, neither ready nor waited for, both orders leave the same state, and it is idle again; when it
  was already ready or waited for, one of the two is left over as the flag of the next upcall, and which flag depends on the order.
\<close>

theorem read_wakeup_commutes:
  assumes "im_descs im d = Some ds" "ds_read_cb ds = Some cb" "desc_ok ds"
  shows "\<exists>im1 im2 ds1 ds2. rbind (readWhenReady d im) (readIfWaiting d) = Inr im1 \<and> rbind (readIfWaiting d im) (readWhenReady d) = Inr im2 \<and>
    im_pool im1 = im_pool (im_addTask (Some cb) im) \<and> im_pool im2 = im_pool (im_addTask (Some cb) im) \<and>
    im_descs im1 d = Some ds1 \<and> desc_ok ds1 \<and> im_descs im2 d = Some ds2 \<and> desc_ok ds2 \<and>
    (idle_reader im d cb \<longrightarrow> im1 = im_addTask (Some cb) im \<and> im2 = im1)"
proof (cases "idle_reader im d cb")
  case True
  have "im_descs (im_addTask (Some cb) im) d = Some ds"
    using assms(1) by (simp add: im_addTask_def)
  then show ?thesis
    using idle_wakeup [OF True] assms(3) by blast
next
  case False
  then have "ds_can_read ds \<and> \<not> ds_waiting_read ds \<or> \<not> ds_can_read ds \<and> ds_waiting_read ds"
    using assms by (auto simp: idle_reader_def desc_ok_def)
  then show ?thesis
    using assms False by (auto simp: descriptor_defs desc_ok_def)
qed

definition demo_manager :: io_manager where
  "demo_manager = snd (newDescriptor 5 (Some 7) (Some 8) (new_io_manager 1))"

definition demo_ready :: io_manager where
  "demo_ready = put_desc 1 ((new_descriptor 5 (Some 7) (Some 8))\<lparr>ds_can_read := True\<rparr>) demo_manager"

theorem read_wakeup_commutes_witness:
  "\<exists>im1 im2. rbind (readWhenReady 1 demo_ready) (readIfWaiting 1) = Inr im1 \<and> rbind (readIfWaiting 1 demo_ready) (readWhenReady 1) = Inr im2 \<and>
     im_pool im1 = im_pool im2 \<and>
     rbind (readWhenReady 1 demo_manager) (readIfWaiting 1) = rbind (readIfWaiting 1 demo_manager) (readWhenReady 1)"
proof -
  have "idle_reader demo_manager 1 7"
    by (simp add: idle_reader_def demo_manager_def newDescriptor_def new_io_manager_def put_desc_def new_descriptor_def Let_def)
  moreover have ds: "im_descs demo_manager 1 = Some (new_descriptor 5 (Some 7) (Some 8))"
    "im_descs demo_ready 1 = Some ((new_descriptor 5 (Some 7) (Some 8))\<lparr>ds_can_read := True\<rparr>)"
    by (simp_all add: demo_ready_def demo_manager_def newDescriptor_def new_io_manager_def put_desc_def Let_def)
  have ok: "desc_ok (new_descriptor 5 (Some 7) (Some 8))" "desc_ok ((new_descriptor 5 (Some 7) (Some 8))\<lparr>ds_can_read := True\<rparr>)"
    "ds_read_cb (new_descriptor 5 (Some 7) (Some 8)) = Some 7"
    by (simp_all add: desc_ok_def new_descriptor_def)
  ultimately show ?thesis
    using read_wakeup_commutes [OF ds(1) ok(3,1)] read_wakeup_commutes [OF ds(2) _ ok(2), of 7] by auto
qed

section \<open>Timers\<close>

definition add_timers :: "(nat \<times> task) list \<Rightarrow> io_manager \<Rightarrow> io_manager" where
  "add_timers ts im = fold (\<lambda>(t, task). addTimer t task) ts im"

lemma takeWhile_sorted: "sorted (map fst q) \<Longrightarrow> takeWhile (\<lambda>x. fst x \<le> t) q = filter (\<lambda>x. fst x \<le> t) q"
  by (induction q) (auto intro!: filter_False [symmetric])

lemma dropWhile_sorted: "sorted (map fst q) \<Longrightarrow> dropWhile (\<lambda>x. fst x \<le> t) q = filter (\<lambda>x. t < fst x) q"
  by (induction q) (auto intro!: filter_True [symmetric])

text \<open>The queue of timers is the stable sort of the timers that were added.\<close>

lemma timer_queue_insert:
  "takeWhile (\<lambda>y. fst y \<le> fst x) (sort_key fst xs) @ x # dropWhile (\<lambda>y. fst y \<le> fst x) (sort_key fst xs) =
    sort_key fst (xs @ [x])" for x :: "nat \<times> task"
proof (rule sym, rule properties_for_sort_key)
  let ?q = "sort_key fst xs"
  let ?ys = "takeWhile (\<lambda>y. fst y \<le> fst x) ?q @ x # dropWhile (\<lambda>y. fst y \<le> fst x) ?q"
  have q: "sorted (map fst ?q)"
    by simp
  have "mset (takeWhile (\<lambda>y. fst y \<le> fst x) ?q) + mset (dropWhile (\<lambda>y. fst y \<le> fst x) ?q) = mset ?q"
    by (simp flip: mset_append)
  then show "mset ?ys = mset (xs @ [x])"
    by simp
  show "sorted (map fst ?ys)"
    unfolding takeWhile_sorted [OF q] dropWhile_sorted [OF q]
    using q by (fastforce simp: sorted_append sorted_filter)
  fix k
  have "filter (\<lambda>y. fst k = fst y) ?q = filter (\<lambda>y. fst k = fst y) xs"
    using sort_key_stable [of fst "fst k" xs] by (simp add: eq_commute [of "fst k"])
  then show "filter (\<lambda>y. fst k = fst y) ?ys = filter (\<lambda>y. fst k = fst y) (xs @ [x])"
    unfolding takeWhile_sorted [OF q] dropWhile_sorted [OF q]
    by (cases "fst k \<le> fst x") (auto simp: filter_empty_conv conj_commute cong: conj_cong)
qed

lemma add_timers_queue:
  assumes "im_timer_queue im = []"
  shows "add_timers ts im = im\<lparr>im_timer_queue := sort_key fst ts\<rparr>"
proof (induction ts rule: rev_induct)
  case Nil
  then show ?case
    using assms by (simp add: add_timers_def)
next
  case (snoc x ts)
  have "add_timers (ts @ [x]) im = addTimer (fst x) (snd x) (im\<lparr>im_timer_queue := sort_key fst ts\<rparr>)"
    using snoc by (simp add: add_timers_def split_def)
  also have "\<dots> = im\<lparr>im_timer_queue := sort_key fst (ts @ [x])\<rparr>"
    using timer_queue_insert [of x ts] by (simp add: addTimer_def)
  finally show ?case .
qed

lemma run_timers_eq:
  assumes "sorted (map fst (im_timer_queue im))"
  shows "run_timers now im = im\<lparr>im_pool := fold addTask (map snd (filter (\<lambda>x. fst x \<le> now) (im_timer_queue im))) (im_pool im),
    im_timer_queue := filter (\<lambda>x. now < fst x) (im_timer_queue im)\<rparr>"
  using assms
proof (induction now im rule: run_timers.induct)
  case (1 now im)
  show ?case
  proof (cases "im_timer_queue im")
    case Nil
    then show ?thesis
      by (subst run_timers.simps) simp
  next
    case (Cons x q)
    obtain ts task where x: "x = (ts, task)"
      by fastforce
    show ?thesis
    proof (cases "ts > now")
      case True
      then have "filter (\<lambda>x. fst x \<le> now) (im_timer_queue im) = []" "filter (\<lambda>x. now < fst x) (im_timer_queue im) = im_timer_queue im"
        using "1.prems" Cons x by (auto simp: filter_empty_conv filter_id_conv)
      then show ?thesis
        using True Cons x by (subst run_timers.simps) simp
    next
      case False
      then show ?thesis
        using 1 Cons x by (subst run_timers.simps) (simp add: im_addTask_def)
    qed
  qed
qed

text \<open>
  C40: However timers were added, a polling round gives the worker pool exactly the tasks that are due, in the order of
  their times and, for equal times, of their addition; the others stay.
\<close>

theorem timers_run_when_due:
  assumes "im_timer_queue im = []"
  shows "run_timers now (add_timers ts im) =
    im\<lparr>im_pool := fold addTask (map snd (filter (\<lambda>x. fst x \<le> now) (sort_key fst ts))) (im_pool im),
       im_timer_queue := filter (\<lambda>x. now < fst x) (sort_key fst ts)\<rparr>"
  by (simp add: add_timers_queue [OF assms] run_timers_eq)

theorem timers_run_when_due_witness:
  "im_timer_queue (run_timers 6 (add_timers [(9, Some 1), (5, Some 2), (7, Some 3)] demo_manager)) = [(7, Some 3), (9, Some 1)]"
proof -
  have "im_timer_queue demo_manager = []"
    by (simp add: demo_manager_def newDescriptor_def new_io_manager_def put_desc_def Let_def)
  from timers_run_when_due [OF this, of 6 "[(9, Some 1), (5, Some 2), (7, Some 3)]"] show ?thesis
    by simp
qed

section \<open>Disposal of descriptors\<close>

text \<open>\<open>ds\<close> is the list of deleted descriptors that starts at \<open>a\<close>.\<close>

fun deleted_chain :: "(addr \<rightharpoonup> descriptor) \<Rightarrow> addr \<Rightarrow> addr list \<Rightarrow> bool" where
  "deleted_chain m a [] \<longleftrightarrow> a = NULL"
| "deleted_chain m a (d # ds) \<longleftrightarrow> a = d \<and> d \<noteq> NULL \<and> (\<exists>x. m d = Some x \<and> deleted_chain m (ds_next x) ds)"

lemma deleted_chain_upd: "d \<notin> set ds \<Longrightarrow> deleted_chain (m(d := x)) a ds = deleted_chain m a ds"
  by (induction ds arbitrary: a) auto

lemma delDescriptor_chain:
  assumes "deleted_chain (im_descs im) (im_deleted_desc im) ds" "d \<noteq> NULL" "d \<notin> set ds" "im_descs im d \<noteq> None"
  shows "\<exists>im'. delDescriptor d im = Inr im' \<and> deleted_chain (im_descs im') (im_deleted_desc im') (d # ds)"
  using assms by (auto simp: delDescriptor_def desc_at_def put_desc_def deleted_chain_upd)

text \<open>The loop ends and deletes the descriptors of the list and no others.\<close>

lemma delete_list_ok:
  assumes "deleted_chain (im_descs im) a ds" "distinct ds"
  shows "delete_list a im = Some (Inr (im\<lparr>im_descs := im_descs im |` (- set ds)\<rparr>))"
  using assms
proof (induction ds arbitrary: a im)
  case Nil
  then show ?case
    by (subst delete_list.simps) (simp add: restrict_map_def)
next
  case (Cons d ds)
  then obtain x where x: "a = d" "d \<noteq> NULL" "im_descs im d = Some x" "deleted_chain (im_descs im) (ds_next x) ds"
    by auto
  define im' where "im' = im\<lparr>im_descs := (im_descs im)(d := None)\<rparr>"
  have "deleted_chain (im_descs im') (ds_next x) ds"
    using x(4) Cons.prems(2) by (simp add: im'_def deleted_chain_upd)
  then have "delete_list (ds_next x) im' = Some (Inr (im'\<lparr>im_descs := im_descs im' |` (- set ds)\<rparr>))"
    using Cons.IH Cons.prems(2) by simp
  moreover have "im_descs im' |` (- set ds) = im_descs im |` (- set (d # ds))"
    by (auto simp: im'_def restrict_map_def fun_eq_iff)
  moreover have "delete_list a im = delete_list (ds_next x) im'"
    using x(1-3) by (subst delete_list.simps) (simp add: desc_at_def im'_def)
  ultimately show ?case
    by (simp add: im'_def)
qed

end
