(* ===== verification/Request_Stats.thy ===== *)
theory Request_Stats
  imports Prelude
begin

text \<open>
  The request counters (\<open>request_stats.cpp\<close>): each thread counts its requests in a ring of ten slots of a
  tenth of a second, and a reader adds up the slots of the last second of all threads.  Ticks are natural
  numbers and \<open>ticksPerSecond()\<close> is the parameter \<open>tps\<close>; the code compares ticks as doubles, which is exact
  below \<open>2 ^ 53\<close>.
\<close>

section \<open>The counters\<close>

abbreviation kNumSlots :: nat where
  "kNumSlots \<equiv> 10"

definition kTicksPerSlot :: "nat \<Rightarrow> nat" where
  "kTicksPerSlot tps = tps div kNumSlots"

record counts =
  rc_base_pos :: nat
  rc_base_tick :: nat
  rc_val :: "32 word list"

record request_stats =
  rs_num_threads :: int
  rs_counts :: "counts list"

definition new_request_stats :: "int \<Rightarrow> request_stats" where
  "new_request_stats num_threads =
     \<lparr>rs_num_threads = num_threads,
      rs_counts = replicate (nat num_threads) \<lparr>rc_base_pos = 0, rc_base_tick = 0, rc_val = replicate kNumSlots 0\<rparr>\<rparr>"

definition ticksPerSlot :: "request_stats \<Rightarrow> nat" where
  "ticksPerSlot rs = 0"

definition incPos :: "nat \<Rightarrow> nat" where
  "incPos p = (p + 1) mod kNumSlots"

definition posForTick :: "nat \<Rightarrow> nat \<Rightarrow> nat" where
  "posForTick tps t = t div kTicksPerSlot tps mod kNumSlots"

definition roundTick :: "nat \<Rightarrow> nat \<Rightarrow> nat" where
  "roundTick tps t = t - t mod kTicksPerSlot tps"

partial_function (option) zero_loop :: "nat \<Rightarrow> nat \<Rightarrow> 32 word list \<Rightarrow> 32 word list option" where
  "zero_loop new_pos curr_pos val =
     (let curr_pos = incPos curr_pos;
          val = val[curr_pos := 0]
      in if curr_pos \<noteq> new_pos then zero_loop new_pos curr_pos val else Some val)"

definition finish_counts :: "nat \<Rightarrow> nat \<Rightarrow> counts \<Rightarrow> counts result" where
  "finish_counts tps now c =
     rbind
       (if now > rc_base_tick c + kTicksPerSlot tps then
          let new_pos = posForTick tps now
          in rbind
               (if rc_base_tick c + tps < now then Inr (replicate kNumSlots 0)
                else of_opt (zero_loop new_pos (rc_base_pos c) (rc_val c)))
               (\<lambda>val. Inr (c\<lparr>rc_val := val, rc_base_pos := new_pos, rc_base_tick := roundTick tps now\<rparr>))
        else Inr c)
       (\<lambda>c. Inr (c\<lparr>rc_val := (rc_val c)[rc_base_pos c := rc_val c ! rc_base_pos c + 1]\<rparr>))"

definition finishedRequest :: "nat \<Rightarrow> int \<Rightarrow> nat \<Rightarrow> request_stats \<Rightarrow> request_stats result" where
  "finishedRequest tps thread_num now rs =
     (if thread_num \<ge> rs_num_threads rs then Inl Fatal
      else if thread_num < 0 then Inl BadAddress
      else
        rbind (finish_counts tps now (rs_counts rs ! nat thread_num)) (\<lambda>c.
          Inr (rs\<lparr>rs_counts := (rs_counts rs)[nat thread_num := c]\<rparr>)))"

partial_function (option) sum_loop :: "nat \<Rightarrow> 32 word list \<Rightarrow> nat \<Rightarrow> 32 word \<Rightarrow> 32 word option" where
  "sum_loop base_pos val curr_pos reqs_acc =
     (let curr_pos = incPos curr_pos;
          reqs_acc = reqs_acc + val ! curr_pos
      in if curr_pos \<noteq> base_pos then sum_loop base_pos val curr_pos reqs_acc else Some reqs_acc)"

text \<open>\<open>now - counts.base_tick\<close> on \<open>uint64_t\<close>.\<close>

definition tick_diff :: "nat \<Rightarrow> nat \<Rightarrow> nat" where
  "tick_diff a b = (a + (2 ^ 64 - b)) mod 2 ^ 64"

primrec stats_loop :: "nat \<Rightarrow> nat \<Rightarrow> counts list \<Rightarrow> 32 word \<Rightarrow> 32 word result" where
  "stats_loop tps now [] reqs_acc = Inr reqs_acc"
| "stats_loop tps now (c # cs) reqs_acc =
     (if tick_diff now (rc_base_tick c) > tps then stats_loop tps now cs reqs_acc
      else rbind (of_opt (sum_loop (rc_base_pos c) (rc_val c) (posForTick tps now) reqs_acc)) (stats_loop tps now cs))"

definition getStats :: "nat \<Rightarrow> nat \<Rightarrow> request_stats \<Rightarrow> 32 word result" where
  "getStats tps now rs = stats_loop tps now (rs_counts rs) 0"

section \<open>The two loops around the ring\<close>

lemma ring_inj_le:
  assumes "(x + i) mod 10 = (x + j) mod 10" "i \<le> j" "j < (10 :: nat)"
  shows "i = j"
proof -
  have "10 dvd (x + j) - (x + i)"
    using mod_eq_dvd_iff_nat [of "x + i" "x + j" 10] assms by simp
  then show ?thesis
    using assms(2,3) by (auto dest: dvd_imp_le)
qed

lemma ring_inj: "i < 10 \<Longrightarrow> j < 10 \<Longrightarrow> (x + i) mod 10 = (x + j) mod 10 \<longleftrightarrow> i = (j :: nat)"
  by (metis ring_inj_le linear)

lemma ring_cong: "((c + 1) mod 10 + 1 + i) mod 10 = (c + 1 + Suc i) mod (10 :: nat)"
  using mod_add_left_eq [of "c + 1" 10 "1 + i"] by simp

lemma ring_step:
  assumes "Suc d < 10" "(c + 1 + Suc d) mod 10 = new"
  shows "(c + 1) mod 10 \<noteq> new" "((c + 1) mod 10 + 1 + d) mod 10 = new"
proof -
  show "(c + 1) mod 10 \<noteq> new"
    using ring_inj [of 0 "Suc d" "c + 1"] assms by simp
  show "((c + 1) mod 10 + 1 + d) mod 10 = new"
    using assms(2) unfolding ring_cong .
qed

lemma zero_loop_eq:
  assumes "d < 10" "(c + 1 + d) mod 10 = new" "length v = 10"
  shows "\<exists>v'. zero_loop new c v = Some v' \<and> length v' = 10 \<and>
    (\<forall>p<10. v' ! p = (if \<exists>i\<le>d. p = (c + 1 + i) mod 10 then 0 else v ! p))"
  using assms
proof (induction d arbitrary: c v)
  case 0
  then show ?case
    by (subst zero_loop.simps) (auto simp: incPos_def Let_def nth_list_update)
next
  case (Suc d)
  let ?c = "(c + 1) mod 10"
  note step = ring_step [OF Suc.prems(1,2)]
  obtain v' where v': "zero_loop new ?c (v[?c := 0]) = Some v'" "length v' = 10"
      "\<forall>p<10. v' ! p = (if \<exists>i\<le>d. p = (?c + 1 + i) mod 10 then 0 else v[?c := 0] ! p)"
    using Suc.IH [of ?c "v[?c := 0]"] Suc.prems step(2) by auto
  have "v' ! p = (if \<exists>i\<le>Suc d. p = (c + 1 + i) mod 10 then 0 else v ! p)" if "p < 10" for p
  proof -
    have "(\<exists>i\<le>Suc d. p = (c + 1 + i) mod 10) \<longleftrightarrow> p = ?c \<or> (\<exists>i\<le>d. p = (c + 1 + Suc i) mod 10)"
      by (metis Suc_le_mono add_0_right le0 nat.exhaust)
    then show ?thesis
      using v'(3) that Suc.prems(3) unfolding ring_cong by (auto simp: nth_list_update)
  qed
  then show ?case
    using v'(1,2) step(1) by (subst zero_loop.simps) (simp add: incPos_def Let_def)
qed

lemma sum_loop_eq:
  assumes "d < 10" "(c + 1 + d) mod 10 = new"
  shows "sum_loop new v c acc = Some (acc + (\<Sum>i\<le>d. v ! ((c + 1 + i) mod 10)))"
  using assms
proof (induction d arbitrary: c acc)
  case 0
  then show ?case
    by (subst sum_loop.simps) (simp add: incPos_def Let_def)
next
  case (Suc d)
  note step = ring_step [OF Suc.prems]
  have "sum_loop new v c acc = sum_loop new v ((c + 1) mod 10) (acc + v ! ((c + 1) mod 10))"
    using step(1) by (subst sum_loop.simps) (simp add: incPos_def Let_def)
  also have "\<dots> = Some (acc + v ! ((c + 1) mod 10) + (\<Sum>i\<le>d. v ! ((c + 1 + Suc i) mod 10)))"
    using Suc.IH [OF _ step(2)] Suc.prems(1) unfolding ring_cong by simp
  finally show ?case
    by (simp add: sum.atMost_Suc_shift add.assoc del: sum.atMost_Suc)
qed

section \<open>The ring holds the counts of the last ten slots\<close>

text \<open>The slot a thread counts a request in, given the slot it is at.\<close>

definition slot_of :: "nat \<Rightarrow> nat \<Rightarrow> nat \<Rightarrow> nat" where
  "slot_of K b t = (if t > b * K + K then t div K else b)"

definition in_slot :: "nat list \<Rightarrow> nat \<Rightarrow> nat" where
  "in_slot ss k = length (filter (\<lambda>s. s + 9 = k) ss)"

definition ring_ok :: "nat \<Rightarrow> nat \<Rightarrow> nat list \<Rightarrow> counts \<Rightarrow> bool" where
  "ring_ok K b ss c \<longleftrightarrow> rc_base_tick c = b * K \<and> rc_base_pos c = b mod 10 \<and> length (rc_val c) = 10 \<and>
     (\<forall>s\<in>set ss. s \<le> b) \<and> (\<forall>i<10. rc_val c ! ((b + 1 + i) mod 10) = of_nat (in_slot ss (b + i)))"

lemma in_slot_later: "\<forall>s\<in>set ss. s \<le> b \<Longrightarrow> b + 9 < k \<Longrightarrow> in_slot ss k = 0"
  by (auto simp: in_slot_def filter_empty_conv)

lemma ring_index: "i < 10 \<Longrightarrow> (b + 1 + i) mod 10 = b mod 10 \<longleftrightarrow> i = (9 :: nat)"
  using ring_inj [of i 9 "b + 1"] by simp

lemma ring_count:
  assumes "ring_ok K b ss c"
  shows "ring_ok K b (ss @ [b]) (c\<lparr>rc_val := (rc_val c)[rc_base_pos c := rc_val c ! rc_base_pos c + 1]\<rparr>)"
proof -
  have "(rc_val c)[b mod 10 := rc_val c ! (b mod 10) + 1] ! ((b + 1 + i) mod 10) = of_nat (in_slot (ss @ [b]) (b + i))"
    if i: "i < 10" for i
  proof -
    have "rc_val c ! ((b + 1 + i) mod 10) = of_nat (in_slot ss (b + i))" "length (rc_val c) = 10"
      using assms i by (simp_all add: ring_ok_def)
    moreover have "in_slot (ss @ [b]) (b + i) = in_slot ss (b + i) + (if i = 9 then 1 else 0)"
      by (simp add: in_slot_def)
    ultimately show ?thesis
      using ring_index [OF i, of b] by (cases "(b + 1 + i) mod 10 = b mod 10") simp_all
  qed
  then show ?thesis
    using assms by (auto simp: ring_ok_def)
qed

lemma ring_shift:
  assumes v: "\<forall>p<10. v' ! p = (if \<exists>i\<le>e - 1. p = (b + 1 + i) mod 10 then 0 else v ! p)"
    and e: "0 < e" "e \<le> 10" and i: "i < (10 :: nat)"
  shows "v' ! ((b + e + 1 + i) mod 10) = (if e + i < 10 then v ! ((b + 1 + (e + i)) mod 10) else (0 :: 32 word))"
proof -
  have sh: "b + e + 1 + i = b + 1 + (e + i)"
    by simp
  have "(\<exists>j\<le>e - 1. (b + 1 + (e + i)) mod 10 = (b + 1 + j) mod 10) \<longleftrightarrow> \<not> e + i < 10"
  proof (cases "e + i < 10")
    case True
    have "(b + 1 + (e + i)) mod 10 \<noteq> (b + 1 + j) mod 10" if "j \<le> e - 1" for j
      using ring_inj [of "e + i" j "b + 1"] True that e by simp
    then show ?thesis
      using True by blast
  next
    case False
    then have "b + 1 + (e + i) = b + 1 + (e + i - 10) + 10"
      by simp
    then have "(b + 1 + (e + i)) mod 10 = (b + 1 + (e + i - 10)) mod 10"
      by (metis mod_add_self2)
    moreover have "e + i - 10 \<le> e - 1"
      using i by simp
    ultimately show ?thesis
      using False by blast
  qed
  then show ?thesis
    unfolding sh by (simp add: v)
qed

lemma expire_zero_loop:
  assumes ok: "ring_ok K b ss c" and e: "0 < e" "e \<le> 10"
  shows "\<exists>v. zero_loop ((b + e) mod 10) (rc_base_pos c) (rc_val c) = Some v \<and>
    ring_ok K (b + e) ss (c\<lparr>rc_val := v, rc_base_pos := (b + e) mod 10, rc_base_tick := (b + e) * K\<rparr>)"
proof -
  have d: "e - 1 < 10" "(b mod 10 + 1 + (e - 1)) mod 10 = (b + e) mod 10"
    using e mod_add_left_eq [of b 10 e] by simp_all
  have m: "(b mod 10 + 1 + i) mod 10 = (b + 1 + i) mod 10" for i
    using mod_add_left_eq [of b 10 "1 + i"] by simp
  have c: "rc_base_pos c = b mod 10" "length (rc_val c) = 10" "\<forall>s\<in>set ss. s \<le> b"
    using ok by (simp_all add: ring_ok_def)
  obtain v where v: "zero_loop ((b + e) mod 10) (b mod 10) (rc_val c) = Some v" "length v = 10"
      "\<forall>p<10. v ! p = (if \<exists>i\<le>e - 1. p = (b + 1 + i) mod 10 then 0 else rc_val c ! p)"
    using zero_loop_eq [OF d c(2)] unfolding m by blast
  have "v ! ((b + e + 1 + i) mod 10) = of_nat (in_slot ss (b + e + i))" if i: "i < 10" for i
  proof (cases "e + i < 10")
    case True
    then have "rc_val c ! ((b + 1 + (e + i)) mod 10) = of_nat (in_slot ss (b + (e + i)))"
      using ok unfolding ring_ok_def by blast
    then show ?thesis
      using True ring_shift [OF v(3) e i] by (simp add: add.assoc)
  next
    case False
    then show ?thesis
      using in_slot_later [OF c(3), of "b + e + i"] ring_shift [OF v(3) e i] by simp
  qed
  moreover have "\<forall>s\<in>set ss. s \<le> b + e"
    using c(3) by (auto intro: trans_le_add1)
  ultimately show ?thesis
    using v(1,2) c(1) by (simp add: ring_ok_def)
qed

lemma expire_all:
  assumes ok: "ring_ok K b ss c" and e: "b + 10 \<le> b'"
  shows "ring_ok K b' ss (c\<lparr>rc_val := replicate 10 0, rc_base_pos := b' mod 10, rc_base_tick := b' * K\<rparr>)"
proof -
  have "\<forall>s\<in>set ss. s \<le> b' \<and> s \<le> b"
    using ok e by (auto simp: ring_ok_def)
  moreover have "in_slot ss (b' + i) = 0" for i
    using in_slot_later [of ss b] calculation e by simp
  ultimately show ?thesis
    by (simp add: ring_ok_def)
qed

lemma finish_counts_ok:
  assumes ok: "ring_ok (kTicksPerSlot tps) b ss c" and tps: "tps \<ge> 100"
  shows "\<exists>c'. finish_counts tps now c = Inr c' \<and>
    ring_ok (kTicksPerSlot tps) (slot_of (kTicksPerSlot tps) b now) (ss @ [slot_of (kTicksPerSlot tps) b now]) c'"
proof (cases "now > b * kTicksPerSlot tps + kTicksPerSlot tps")
  case False
  then show ?thesis
    using ring_count [OF ok] ok by (auto simp: finish_counts_def slot_of_def ring_ok_def)
next
  case True
  define K where "K = kTicksPerSlot tps"
  have K: "K \<ge> 10" "10 * K \<le> tps" "tps < 10 * K + K"
    using tps by (auto simp: K_def kTicksPerSlot_def)
  define b' where "b' = now div K"
  have bt: "rc_base_tick c = b * K" "rc_base_pos c = b mod 10"
    using ok by (auto simp: ring_ok_def K_def)
  have "(b + 1) * K < now"
    using True by (simp add: K_def)
  then have b1: "b < b'"
    using K(1) unfolding b'_def by (metis Suc_eq_plus1 Suc_le_eq div_less_iff_less_mult less_eq_div_iff_mult_less_eq less_le_trans not_less zero_less_numeral less_imp_le_nat)
  have rt: "roundTick tps now = b' * K" "posForTick tps now = b' mod 10"
    by (simp_all add: roundTick_def posForTick_def b'_def K_def minus_mod_eq_div_mult)
  have "\<exists>v. (if rc_base_tick c + tps < now then Inr (replicate 10 0)
                else of_opt (zero_loop (b' mod 10) (rc_base_pos c) (rc_val c))) = Inr v \<and>
     ring_ok K b' ss (c\<lparr>rc_val := v, rc_base_pos := b' mod 10, rc_base_tick := b' * K\<rparr>)"
  proof (cases "b * K + tps < now")
    case True
    then have "(b + 10) * K \<le> now"
      using K by (simp add: algebra_simps)
    then have "b + 10 \<le> b'"
      using K(1) by (simp add: b'_def less_eq_div_iff_mult_less_eq)
    then show ?thesis
      using expire_all [of K b ss c b'] ok True bt by (simp add: K_def)
  next
    case False
    then have "now < (b + 11) * K"
      using K by (simp add: algebra_simps)
    then have "b' < b + 11"
      using K(1) by (simp add: b'_def div_less_iff_less_mult)
    then obtain e where "b' = b + e" "0 < e" "e \<le> 10"
      using b1 that [of "b' - b"] by auto
    then show ?thesis
      using expire_zero_loop [of K b ss c e] ok False bt by (auto simp: K_def)
  qed
  then obtain v where v: "(if rc_base_tick c + tps < now then Inr (replicate 10 0)
                else of_opt (zero_loop (b' mod 10) (rc_base_pos c) (rc_val c))) = Inr v"
     "ring_ok K b' ss (c\<lparr>rc_val := v, rc_base_pos := b' mod 10, rc_base_tick := b' * K\<rparr>)"
    by blast
  have "slot_of K b now = b'"
    using True by (simp add: slot_of_def K_def b'_def)
  then show ?thesis
    using ring_count [OF v(2)] True v(1) bt(1) unfolding K_def [symmetric]
    by (simp add: finish_counts_def rt K_def [symmetric])
qed

section \<open>What a reader sees\<close>

lemma in_slot_sum: "(\<Sum>i\<le>d. in_slot ss (n + i)) = length (filter (\<lambda>s. n \<le> s + 9 \<and> s + 9 \<le> n + d) ss)"
proof (induction ss)
  case (Cons s ss)
  have "(\<Sum>i\<le>d. if s + 9 = n + i then 1 else 0) = (if n \<le> s + 9 \<and> s + 9 \<le> n + d then 1 else 0 :: nat)"
  proof (cases "n \<le> s + 9")
    case True
    then have "s + 9 = n + i \<longleftrightarrow> i = s + 9 - n" for i
      by auto
    then show ?thesis
      using True by (auto simp: sum.delta)
  qed auto
  moreover have "in_slot (s # ss) k = in_slot ss k + (if s + 9 = k then 1 else 0)" for k
    by (simp add: in_slot_def)
  ultimately show ?case
    using Cons.IH by (simp add: sum.distrib)
qed (simp add: in_slot_def)

lemma ring_sum:
  assumes ok: "ring_ok K b ss c" and n: "b \<le> n" "n \<le> b + 9"
  shows "sum_loop (rc_base_pos c) (rc_val c) (n mod 10) acc = Some (acc + of_nat (length (filter (\<lambda>s. n < s + 10) ss)))"
proof -
  define d where "d = b + 9 - n"
  have pos: "(n mod 10 + 1 + i) mod 10 = (b + 1 + (n - b + i)) mod 10" for i
    using mod_add_left_eq [of n 10 "1 + i"] n(1) by simp
  have d: "d < 10" "(n mod 10 + 1 + d) mod 10 = rc_base_pos c"
    using n ok unfolding pos d_def ring_ok_def by auto
  have v: "rc_val c ! ((b + 1 + (n - b + i)) mod 10) = of_nat (in_slot ss (n + i))" if "i \<le> d" for i
  proof -
    have "n - b + i < 10" "b + (n - b + i) = n + i"
      using that n by (auto simp: d_def)
    then show ?thesis
      using ok unfolding ring_ok_def by metis
  qed
  have "(\<Sum>i\<le>d. rc_val c ! ((n mod 10 + 1 + i) mod 10)) = of_nat (\<Sum>i\<le>d. in_slot ss (n + i))"
    unfolding pos using v by simp
  moreover have "filter (\<lambda>s. n \<le> s + 9 \<and> s + 9 \<le> n + d) ss = filter (\<lambda>s. n < s + 10) ss"
    using ok n by (auto simp: ring_ok_def d_def intro!: filter_cong)
  ultimately show ?thesis
    using sum_loop_eq [OF d, of "rc_val c" acc] by (simp add: in_slot_sum)
qed

text \<open>A thread without requests counts nothing, also in the tick range where the reader's loop covers the whole ring.\<close>

lemma ring_sum_empty:
  assumes "ring_ok K b [] c"
  shows "sum_loop (rc_base_pos c) (rc_val c) (b mod 10) acc = Some acc"
proof -
  have "rc_val c ! ((b mod 10 + 1 + i) mod 10) = 0" if "i \<le> 9" for i
    using assms that mod_add_left_eq [of b 10 "1 + i"] by (simp add: ring_ok_def in_slot_def)
  moreover have "(b mod 10 + 1 + 9) mod 10 = rc_base_pos c"
    using assms by (simp add: ring_ok_def)
  ultimately show ?thesis
    using sum_loop_eq [of 9 "b mod 10" "rc_base_pos c" "rc_val c" acc] by simp
qed

lemma reader_thread:
  assumes ok: "ring_ok (kTicksPerSlot tps) b ss c" and tps: "tps \<ge> 100"
    and now: "b * kTicksPerSlot tps \<le> now" "now < 2 ^ 64"
    and edge: "now div kTicksPerSlot tps \<noteq> b + 10 \<or> ss = []"
  shows "stats_loop tps now [c] acc = Inr (acc + of_nat (length (filter (\<lambda>s. now div kTicksPerSlot tps < s + 10) ss)))"
proof -
  define K where "K = kTicksPerSlot tps"
  define n where "n = now div K"
  have K: "K \<ge> 10" "10 * K \<le> tps" "tps < 10 * K + K"
    using tps by (auto simp: K_def kTicksPerSlot_def)
  have n: "b \<le> n" "posForTick tps now = n mod 10"
    using now(1) K(1) by (simp_all add: n_def K_def less_eq_div_iff_mult_less_eq posForTick_def)
  have sb: "\<forall>s\<in>set ss. s \<le> b" and bt: "rc_base_tick c = b * K"
    using ok by (simp_all add: ring_ok_def K_def)
  have diff: "tick_diff now (rc_base_tick c) = now - b * K"
    using now unfolding bt K_def [symmetric] by (simp add: tick_diff_def mod_if)
  show ?thesis
  proof (cases "now - b * K > tps")
    case True
    then have "(b + 10) * K \<le> now"
      using K(2) by (simp add: algebra_simps)
    then have "b + 10 \<le> n"
      using K(1) by (simp add: n_def less_eq_div_iff_mult_less_eq)
    then have "filter (\<lambda>s. n < s + 10) ss = []"
      using sb by (auto simp: filter_empty_conv)
    then show ?thesis
      using True by (simp add: diff n_def K_def)
  next
    case False
    then have "now < (b + 11) * K"
      using K(3) by (simp add: algebra_simps)
    then have "n < b + 11"
      using K(1) by (simp add: n_def div_less_iff_less_mult)
    then have "n \<le> b + 9 \<or> (n = b + 10 \<and> ss = [])"
      using edge by (auto simp: n_def K_def)
    then show ?thesis
      using False ring_sum [OF ok n(1), of acc] ring_sum_empty [of "kTicksPerSlot tps" b c acc] ok
      by (auto simp: diff n(2) n_def K_def)
  qed
qed

lemma stats_loop_sum:
  assumes "\<And>i acc. i < length cs \<Longrightarrow> stats_loop tps now [cs ! i] acc = Inr (acc + g i)"
  shows "stats_loop tps now cs acc = Inr (acc + (\<Sum>i<length cs. g i))"
  using assms
proof (induction cs arbitrary: acc g)
  case (Cons c cs)
  have "stats_loop tps now cs acc = Inr (acc + (\<Sum>i<length cs. g (Suc i)))" for acc
    using Cons.IH [of "\<lambda>i. g (Suc i)"] Cons.prems [of "Suc _"] by simp
  moreover have "stats_loop tps now [c] acc = Inr (acc + g 0)"
    using Cons.prems [of 0] by simp
  ultimately show ?case
    by (auto simp: sum.lessThan_Suc_shift add.assoc split: if_splits simp del: sum.lessThan_Suc) (auto simp: rbind_def split: sum.splits)
qed simp

section \<open>Histories\<close>

text \<open>Requests in the order they finish, each with the number of its thread.\<close>

fun finish_all :: "nat \<Rightarrow> (nat \<times> nat) list \<Rightarrow> request_stats \<Rightarrow> request_stats result" where
  "finish_all tps [] rs = Inr rs"
| "finish_all tps ((i, t) # h) rs = rbind (finishedRequest tps (int i) t rs) (finish_all tps h)"

definition ticks_of :: "nat \<Rightarrow> (nat \<times> nat) list \<Rightarrow> nat list" where
  "ticks_of i h = map snd (filter (\<lambda>r. fst r = i) h)"

text \<open>
  The threads of a history exist, the ticks of a thread do not decrease, and no request falls on the
  boundary of two slots, which the code counts in the earlier one.
\<close>

definition history_ok :: "nat \<Rightarrow> nat \<Rightarrow> (nat \<times> nat) list \<Rightarrow> bool" where
  "history_ok tps n h \<longleftrightarrow> (\<forall>(i, t) \<in> set h. i < n \<and> t mod kTicksPerSlot tps \<noteq> 0) \<and> (\<forall>i<n. sorted (ticks_of i h))"

definition thread_ok :: "nat \<Rightarrow> nat list \<Rightarrow> counts \<Rightarrow> bool" where
  "thread_ok K ts c \<longleftrightarrow> (\<exists>b. ring_ok K b (map (\<lambda>t. t div K) ts) c \<and>
     (if ts = [] then b = 0 else b \<in> (\<lambda>t. t div K) ` set ts))"

definition stats_ok :: "nat \<Rightarrow> nat \<Rightarrow> (nat \<times> nat) list \<Rightarrow> request_stats \<Rightarrow> bool" where
  "stats_ok tps n h rs \<longleftrightarrow> rs_num_threads rs = int n \<and> length (rs_counts rs) = n \<and>
     (\<forall>i<n. thread_ok (kTicksPerSlot tps) (ticks_of i h) (rs_counts rs ! i))"

lemma finish_all_snoc: "finish_all tps (h @ [(i, t)]) rs = rbind (finish_all tps h rs) (finishedRequest tps (int i) t)"
proof (induction h arbitrary: rs)
  case Nil
  then show ?case
    by (cases "finishedRequest tps (int i) t rs") simp_all
next
  case (Cons r h)
  then show ?case
    by (cases r; cases "finishedRequest tps (int (fst r)) (snd r) rs") simp_all
qed

lemma slot_of_div:
  assumes "b * K \<le> t" "t mod K \<noteq> 0"
  shows "slot_of K b t = t div K"
proof (cases "t > b * K + K")
  case False
  have "t \<noteq> (b + 1) * K"
    using assms(2) by auto
  then have "t < (b + 1) * K" "K > 0"
    using False assms by (auto simp: algebra_simps)
  then show ?thesis
    using assms(1) False by (simp add: slot_of_def div_nat_eqI mult.commute)
qed (simp add: slot_of_def)

lemma ticks_of_snoc: "ticks_of j (h @ [(i, t)]) = (if j = i then ticks_of j h @ [t] else ticks_of j h)"
  by (simp add: ticks_of_def)

lemma thread_ok_snoc:
  assumes ok: "thread_ok (kTicksPerSlot tps) ts c" and tps: "tps \<ge> 100"
    and t: "sorted (ts @ [t])" "t mod kTicksPerSlot tps \<noteq> 0"
  shows "\<exists>c'. finish_counts tps t c = Inr c' \<and> thread_ok (kTicksPerSlot tps) (ts @ [t]) c'"
proof -
  define K where "K = kTicksPerSlot tps"
  obtain b where b: "ring_ok K b (map (\<lambda>t. t div K) ts) c" "if ts = [] then b = 0 else b \<in> (\<lambda>t. t div K) ` set ts"
    using ok unfolding thread_ok_def K_def by blast
  have "b * K \<le> t"
  proof (cases "ts = []")
    case False
    then obtain x where "x \<in> set ts" "b = x div K"
      using b(2) by auto
    then show ?thesis
      using t(1) le_trans [OF div_times_less_eq_dividend [of x K], of t] by (simp add: sorted_append)
  qed (use b(2) in simp)
  then have sl: "slot_of K b t = t div K"
    using slot_of_div t(2) K_def by blast
  obtain c' where c: "finish_counts tps t c = Inr c'" "ring_ok K (t div K) (map (\<lambda>t. t div K) (ts @ [t])) c'"
    using finish_counts_ok [of tps b _ c t] b(1) tps sl unfolding K_def by fastforce
  then have "thread_ok K (ts @ [t]) c'"
    unfolding thread_ok_def by (intro exI [of _ "t div K"]) simp
  then show ?thesis
    using c(1) by (simp add: K_def)
qed

lemma stats_ok_snoc:
  assumes ok: "stats_ok tps n h rs" and tps: "tps \<ge> 100" and h: "history_ok tps n (h @ [(i, t)])"
  shows "\<exists>rs'. finishedRequest tps (int i) t rs = Inr rs' \<and> stats_ok tps n (h @ [(i, t)]) rs'"
proof -
  have i: "i < n" "t mod kTicksPerSlot tps \<noteq> 0" "sorted (ticks_of i h @ [t])"
    using h by (auto simp: history_ok_def ticks_of_snoc)
  obtain c where c: "finish_counts tps t (rs_counts rs ! i) = Inr c" "thread_ok (kTicksPerSlot tps) (ticks_of i h @ [t]) c"
    using thread_ok_snoc [OF _ tps i(3,2)] ok i(1) by (auto simp: stats_ok_def)
  then have "stats_ok tps n (h @ [(i, t)]) (rs\<lparr>rs_counts := (rs_counts rs)[i := c]\<rparr>)"
    using ok by (simp add: stats_ok_def ticks_of_snoc nth_list_update)
  moreover have "finishedRequest tps (int i) t rs = Inr (rs\<lparr>rs_counts := (rs_counts rs)[i := c]\<rparr>)"
    using c(1) i(1) ok by (simp add: finishedRequest_def stats_ok_def)
  ultimately show ?thesis
    by blast
qed

lemma history_ok_prefix: "history_ok tps n (h @ [r]) \<Longrightarrow> history_ok tps n h"
  by (cases r) (auto simp: history_ok_def ticks_of_def sorted_append split: if_splits)

lemma finish_all_ok:
  assumes "tps \<ge> 100" "history_ok tps n h"
  shows "\<exists>rs. finish_all tps h (new_request_stats (int n)) = Inr rs \<and> stats_ok tps n h rs"
  using assms(2)
proof (induction h rule: rev_induct)
  case Nil
  then show ?case
    by (auto simp: stats_ok_def new_request_stats_def ticks_of_def thread_ok_def ring_ok_def in_slot_def)
next
  case (snoc r h)
  then obtain rs where "finish_all tps h (new_request_stats (int n)) = Inr rs" "stats_ok tps n h rs"
    using history_ok_prefix by blast
  then show ?case
    using stats_ok_snoc [OF _ assms(1), of n h rs "fst r" "snd r"] snoc.prems
    by (cases r) (simp add: finish_all_snoc)
qed

lemma sum_threads:
  "\<forall>r\<in>set h. fst r < n \<Longrightarrow> (\<Sum>i<n. length (filter P (ticks_of i h))) = length (filter (\<lambda>r. P (snd r)) h)"
proof (induction h)
  case (Cons r h)
  have "length (filter P (ticks_of i (r # h))) = length (filter P (ticks_of i h)) + (if i = fst r \<and> P (snd r) then 1 else 0)" for i
    by (simp add: ticks_of_def)
  moreover have "(\<Sum>i<n. if i = fst r \<and> P (snd r) then 1 else 0) = (if P (snd r) then 1 else 0 :: nat)"
    using Cons.prems by (auto simp: sum.delta)
  ultimately show ?case
    using Cons by (simp add: sum.distrib)
qed (simp add: ticks_of_def)

text \<open>
  C37: Take a history of requests of any number of threads in which the ticks of each thread are in order, none is later than the
  reader's and none is exactly the first tick of a slot.  A reader then gets the number of requests of the last ten slots (modulo
  \<open>2 ^ 32\<close>), provided no request is in the slot that has just expired.  The clock has at least a hundred ticks a second and is
  below \<open>2 ^ 53\<close>, up to which the doubles of the code are exact.  (A request on the first tick of a slot is counted in the one
  before, as \<open>boundary_request_early\<close> shows.)
\<close>

theorem stats_last_second:
  assumes "tps \<ge> 100" "history_ok tps n h" "now < 2 ^ 53"
    and "\<forall>(i, t)\<in>set h. t \<le> now \<and> now div kTicksPerSlot tps \<noteq> t div kTicksPerSlot tps + 10"
  shows "rbind (finish_all tps h (new_request_stats (int n))) (getStats tps now) =
    Inr (of_nat (length (filter (\<lambda>(i, t). now div kTicksPerSlot tps < t div kTicksPerSlot tps + 10) h)))"
proof -
  define K where "K = kTicksPerSlot tps"
  define P where "P = (\<lambda>t. now div K < t div K + 10)"
  have small: "now < 2 ^ 64"
    using assms(3) by simp
  obtain rs where rs: "finish_all tps h (new_request_stats (int n)) = Inr rs" "stats_ok tps n h rs"
    using finish_all_ok [OF assms(1,2)] by blast
  have "stats_loop tps now [rs_counts rs ! i] acc = Inr (acc + of_nat (length (filter P (ticks_of i h))))"
    if i: "i < n" for i acc
  proof -
    define ss where "ss = map (\<lambda>t. t div K) (ticks_of i h)"
    obtain b where b: "ring_ok K b ss (rs_counts rs ! i)"
        "if ticks_of i h = [] then b = 0 else b \<in> (\<lambda>t. t div K) ` set (ticks_of i h)"
      using rs(2) i unfolding stats_ok_def thread_ok_def K_def ss_def by blast
    have tick: "t \<le> now \<and> now div K \<noteq> t div K + 10" if "t \<in> set (ticks_of i h)" for t
      using assms(4) that by (fastforce simp: ticks_of_def K_def)
    have "b * K \<le> now \<and> (now div K \<noteq> b + 10 \<or> ss = [])"
    proof (cases "ticks_of i h = []")
      case False
      then obtain x where "x \<in> set (ticks_of i h)" "b = x div K"
        using b(2) by auto
      then show ?thesis
        using tick [of x] le_trans [OF div_times_less_eq_dividend [of x K], of now] by simp
    qed (use b(2) in \<open>simp add: ss_def\<close>)
    then have "stats_loop tps now [rs_counts rs ! i] acc = Inr (acc + of_nat (length (filter (\<lambda>s. now div K < s + 10) ss)))"
      using reader_thread [of tps b ss "rs_counts rs ! i" now acc] b(1) assms(1) small unfolding K_def by blast
    then show ?thesis
      by (simp add: ss_def filter_map o_def P_def)
  qed
  then have "getStats tps now rs = Inr (of_nat (\<Sum>i<n. length (filter P (ticks_of i h))))"
    using stats_loop_sum [of "rs_counts rs" tps now] rs(2) by (simp add: getStats_def stats_ok_def)
  also have "(\<Sum>i<n. length (filter P (ticks_of i h))) = length (filter (\<lambda>r. P (snd r)) h)"
    using sum_threads assms(2) by (fastforce simp: history_ok_def)
  finally show ?thesis
    using rs(1) by (simp add: P_def K_def split_def)
qed

theorem stats_last_second_witness:
  "rbind (finish_all 100 [(0, 3), (1, 47), (0, 99)] (new_request_stats (int 2))) (getStats 100 125) = Inr 2"
proof -
  have "history_ok 100 2 [(0, 3), (1, 47), (0, 99)]"
    by (auto simp: history_ok_def kTicksPerSlot_def ticks_of_def)
  then show ?thesis
    using stats_last_second [of 100 2 "[(0, 3), (1, 47), (0, 99)]" 125] by (simp add: kTicksPerSlot_def del: finish_all.simps)
qed

text \<open>A request exactly one slot after the start of the last slot is counted in that slot, and expires with it.\<close>

lemma boundary_request_early:
  "rbind (finish_all 100 [(0, 10)] (new_request_stats 1)) (getStats 100 101) = Inr 0"
  by (simp add: finishedRequest_def finish_counts_def new_request_stats_def kTicksPerSlot_def getStats_def tick_diff_def)

text \<open>In the first tick after the window the whole ring is added up.\<close>

lemma expired_slots_counted:
  "rbind (finish_all 100 [(0, 5)] (new_request_stats 1)) (getStats 100 100) = Inr 1"
  by (simp add: finishedRequest_def finish_counts_def new_request_stats_def kTicksPerSlot_def getStats_def tick_diff_def
      posForTick_def sum_loop.simps incPos_def Let_def)

end
