(* ===== verification/Io_Service.thy ===== *)
theory Io_Service
  imports Io_Manager Request_Stats
begin

text \<open>
  The listening side of the server (\<open>acceptor.cpp\<close>) and the service that owns the event loop (\<open>io_service.cpp\<close>).  The event
  loop is passed beside the service.  What \<open>accept\<close> answers is a function of the number of the call; the results of the other
  system calls and what other threads do while a call waits are arguments.
\<close>

section \<open>Acceptors\<close>

record acceptor =
  ac_listen_fd :: int
  ac_io_descr :: addr
  ac_accept_cb :: addr

definition new_acceptor :: "int \<Rightarrow> int \<Rightarrow> int \<Rightarrow> addr \<Rightarrow> nat \<Rightarrow> nat \<Rightarrow> io_manager \<Rightarrow> (acceptor \<times> io_manager) result" where
  "new_acceptor socket_res bind_res listen_res cb readUpCall writeUpCall im =
     (if socket_res < 0 then Inl Fatal
      else if bind_res < 0 then Inl Fatal
      else if listen_res < 0 then Inl Fatal
      else
        let (io_descr, im) = newDescriptor socket_res (Some readUpCall) (Some writeUpCall) im
        in Inr (\<lparr>ac_listen_fd = socket_res, ac_io_descr = io_descr, ac_accept_cb = cb\<rparr>, im))"

definition acceptor_close :: "acceptor \<Rightarrow> io_manager \<Rightarrow> (acceptor \<times> io_manager) result" where
  "acceptor_close ac im =
     rbind (if ac_io_descr ac \<noteq> NULL then delDescriptor (ac_io_descr ac) im else Inr im) (\<lambda>im.
       Inr (ac\<lparr>ac_io_descr := NULL\<rparr>, im))"

definition destroy_acceptor :: "acceptor \<Rightarrow> io_manager \<Rightarrow> (acceptor \<times> io_manager) result" where
  "destroy_acceptor ac im =
     rbind (if ac_io_descr ac \<noteq> NULL then acceptor_close ac im else Inr (ac, im)) (\<lambda>(ac, im).
       Inr (ac\<lparr>ac_accept_cb := NULL\<rparr>, im))"

definition startAccept :: "acceptor \<Rightarrow> io_manager \<Rightarrow> io_manager result" where
  "startAccept ac im = readWhenReady (ac_io_descr ac) im"

abbreviation EAGAIN :: int where
  "EAGAIN \<equiv> 11"

abbreviation ECONNABORTED :: int where
  "ECONNABORTED \<equiv> 103"

text \<open>The \<open>errno\<close> or the socket that the \<open>k\<close>-th \<open>accept\<close> gives.\<close>

type_synonym accepts = "nat \<Rightarrow> int + int"

partial_function (option) socketAccept :: "accepts \<Rightarrow> nat \<Rightarrow> ((int + int) \<times> nat) option" where
  "socketAccept accepts k =
     (let res = accepts k
      in if res = Inl EINTR \<or> res = Inl ECONNABORTED then socketAccept accepts (k + 1) else Some (res, k + 1))"

section \<open>The service\<close>

record io_service =
  sv_acceptors :: "acceptor list"
  sv_stats :: request_stats
  sv_stop_requested :: bool
  sv_stopped :: bool

definition new_io_service :: "int \<Rightarrow> io_service \<times> io_manager" where
  "new_io_service num_workers =
     (\<lparr>sv_acceptors = [], sv_stats = new_request_stats num_workers, sv_stop_requested = False, sv_stopped = False\<rparr>,
      new_io_manager (nat num_workers))"

text \<open>\<open>made\<close> is the constructor of the acceptor with what the system calls answer.\<close>

definition registerAcceptor ::
    "(io_manager \<Rightarrow> (acceptor \<times> io_manager) result) \<Rightarrow> io_service \<times> io_manager \<Rightarrow> (io_service \<times> io_manager) result" where
  "registerAcceptor made = (\<lambda>(sv, im).
     rbind (made im) (\<lambda>(ac, im). Inr (sv\<lparr>sv_acceptors := sv_acceptors sv @ [ac]\<rparr>, im)))"

text \<open>\<open>start\<close> up to the polling loop, and what it waits for behind it.\<close>

primrec start_all :: "acceptor list \<Rightarrow> io_manager \<Rightarrow> io_manager result" where
  "start_all [] im = Inr im"
| "start_all (ac # acs) im = rbind (startAccept ac im) (start_all acs)"

definition service_start ::
    "((int + epoll_event list) \<times> nat \<times> (io_manager \<Rightarrow> io_manager)) list \<Rightarrow> io_service \<times> io_manager \<Rightarrow>
     (io_service \<times> io_manager) result" where
  "service_start rounds = (\<lambda>(sv, im). rbind (start_all (sv_acceptors sv) im) (\<lambda>im. rbind (im_poll rounds im) (\<lambda>im. Inr (sv, im))))"

definition start_done :: "io_service \<Rightarrow> io_service option" where
  "start_done sv = (if sv_stopped sv then Some sv else None)"

primrec close_all :: "acceptor list \<Rightarrow> io_manager \<Rightarrow> (acceptor list \<times> io_manager) result" where
  "close_all [] im = Inr ([], im)"
| "close_all (ac # acs) im =
     rbind (acceptor_close ac im) (\<lambda>(ac, im). rbind (close_all acs im) (\<lambda>(acs, im). Inr (ac # acs, im)))"

text \<open>A second call returns when the first has set \<open>stopped_\<close>.\<close>

definition service_stop ::
    "(io_manager \<Rightarrow> io_manager) \<Rightarrow> (io_manager \<Rightarrow> io_manager) \<Rightarrow> nat option \<Rightarrow> io_service \<times> io_manager \<Rightarrow>
     (io_service \<times> io_manager) result" where
  "service_stop polls works me = (\<lambda>(sv, im).
     if sv_stop_requested sv then if sv_stopped sv then Inr (sv, im) else Inl Diverge
     else
       let sv = sv\<lparr>sv_stop_requested := True\<rparr> in
       rbind (close_all (sv_acceptors sv) im) (\<lambda>(acs, im).
         rbind (im_stop polls works me im) (\<lambda>im.
           Inr (sv\<lparr>sv_acceptors := acs, sv_stopped := True\<rparr>, im))))"

definition service_stopped :: "io_service \<Rightarrow> bool" where
  "service_stopped sv = sv_stop_requested sv"

primrec destroy_all :: "acceptor list \<Rightarrow> io_manager \<Rightarrow> io_manager result" where
  "destroy_all [] im = Inr im"
| "destroy_all (ac # acs) im = rbind (destroy_acceptor ac im) (\<lambda>(ac, im). destroy_all acs im)"

definition destroy_io_service ::
    "(io_manager \<Rightarrow> io_manager) \<Rightarrow> (io_manager \<Rightarrow> io_manager) \<Rightarrow> io_service \<times> io_manager \<Rightarrow> io_manager result" where
  "destroy_io_service polls works s =
     rbind (service_stop polls works None s) (\<lambda>(sv, im).
       rbind (destroy_all (sv_acceptors sv) im) (im_stop polls works None))"

section \<open>Accepting\<close>

text \<open>The service with the event loop, the number of \<open>accept\<close> calls so far, and what the accept callbacks made.\<close>

record 'c service_world =
  sw_service :: io_service
  sw_im :: io_manager
  sw_accepts :: nat
  sw_conns :: "'c list"

text \<open>The loop of the \<open>i\<close>-th acceptor.\<close>

partial_function (option) doAccept ::
    "accepts \<Rightarrow> (int \<Rightarrow> 'c service_world \<Rightarrow> 'c service_world result) \<Rightarrow> nat \<Rightarrow> 'c service_world \<Rightarrow> 'c service_world result option" where
  "doAccept accepts accept_cb i w =
     (case socketAccept accepts (sw_accepts w) of
        None \<Rightarrow> None
      | Some (res, k) \<Rightarrow>
          (let w = w\<lparr>sw_accepts := k\<rparr>;
               ac = sv_acceptors (sw_service w) ! i
           in if res = Inl EAGAIN
              then Some (rbind (readWhenReady (ac_io_descr ac) (sw_im w)) (\<lambda>im. Inr (w\<lparr>sw_im := im\<rparr>)))
              else if ac_accept_cb ac \<noteq> NULL
              then case accept_cb (case res of Inl e \<Rightarrow> - 1 | Inr fd \<Rightarrow> fd) w of
                     Inl e \<Rightarrow> Some (Inl e)
                   | Inr w \<Rightarrow> doAccept accepts accept_cb i w
              else doAccept accepts accept_cb i w))"

section \<open>What stopping leaves behind\<close>

text \<open>The descriptors of the acceptors exist and are pairwise different.\<close>

definition acceptors_ok :: "acceptor list \<Rightarrow> io_manager \<Rightarrow> bool" where
  "acceptors_ok acs im \<longleftrightarrow> (\<forall>ac \<in> set acs. ac_io_descr ac \<noteq> NULL \<longrightarrow> im_descs im (ac_io_descr ac) \<noteq> None)"

lemma acceptor_close_ok:
  assumes "ac_io_descr ac \<noteq> NULL \<longrightarrow> im_descs im (ac_io_descr ac) \<noteq> None"
  shows "\<exists>im'. acceptor_close ac im = Inr (ac\<lparr>ac_io_descr := NULL\<rparr>, im') \<and> dom (im_descs im') = dom (im_descs im) \<and>
    im_stopped im' = im_stopped im \<and> im_polling im' = im_polling im \<and> im_pool im' = im_pool im"
  using assms by (auto simp: acceptor_close_def delDescriptor_def desc_at_def put_desc_def)

lemma close_all_ok:
  assumes "acceptors_ok acs im"
  shows "\<exists>im'. close_all acs im = Inr (map (\<lambda>ac. ac\<lparr>ac_io_descr := NULL\<rparr>) acs, im') \<and> dom (im_descs im') = dom (im_descs im) \<and>
    im_stopped im' = im_stopped im \<and> im_polling im' = im_polling im \<and> im_pool im' = im_pool im"
  using assms
proof (induction acs arbitrary: im)
  case (Cons ac acs)
  obtain im1 where 1: "acceptor_close ac im = Inr (ac\<lparr>ac_io_descr := NULL\<rparr>, im1)" "dom (im_descs im1) = dom (im_descs im)"
      "im_stopped im1 = im_stopped im" "im_polling im1 = im_polling im" "im_pool im1 = im_pool im"
    using acceptor_close_ok [of ac im] Cons.prems by (auto simp: acceptors_ok_def)
  have "acceptors_ok acs im1"
    using Cons.prems 1(2) unfolding acceptors_ok_def by (metis domIff list.set_intros(2))
  then show ?case
    using Cons.IH [of im1] 1 by auto
qed simp

text \<open>A stopped service stays as it is when it is stopped again, and destroying it closes no descriptor a second time.\<close>

lemma stop_again:
  assumes "service_stop polls works me s = Inr s'"
  shows "service_stop polls' works' me' s' = Inr s'"
  using assms by (auto simp: service_stop_def rbind_Inr_iff Let_def split: prod.splits if_splits)

end
