(* ===== verification/Connection.thy ===== *)
theory Connection
  imports Buffer_Streams Io_Service
begin

text \<open>
  Connections (\<open>connection.hpp\<close>, \<open>connection.cpp\<close>): two buffers over a non-blocking socket, driven by the upcalls of
  a descriptor and kept alive by a reference count.  What the system calls return is part of the state of the socket;
  the methods a subclass overrides are arguments.
\<close>

section \<open>Sockets\<close>

abbreviation EINPROGRESS :: int where
  "EINPROGRESS \<equiv> 115"

datatype read_res = RData "char list" | RErr int
datatype write_res = WDone nat | WErr int

text \<open>What the \<open>k\<close>-th \<open>read\<close> or \<open>write\<close> of at most \<open>n\<close> bytes does, how many there were, and the bytes sent.\<close>

record socket =
  so_read :: "nat \<Rightarrow> nat \<Rightarrow> read_res"
  so_write :: "nat \<Rightarrow> nat \<Rightarrow> write_res"
  so_reads :: nat
  so_writes :: nat
  so_sent :: "char list"

partial_function (option) socketRead :: "nat \<Rightarrow> socket \<Rightarrow> (read_res \<times> socket) option" where
  "socketRead n so =
     (let res = so_read so (so_reads so) n;
          so = so\<lparr>so_reads := so_reads so + 1\<rparr>
      in if res = RErr EINTR then socketRead n so else Some (res, so))"

partial_function (option) socketWrite :: "char list \<Rightarrow> socket \<Rightarrow> (write_res \<times> socket) option" where
  "socketWrite data so =
     (let res = so_write so (so_writes so) (length data);
          so = so\<lparr>so_writes := so_writes so + 1,
                  so_sent := so_sent so @ (case res of WDone m \<Rightarrow> take m data | WErr e \<Rightarrow> [])\<rparr>
      in if res = WErr EINTR then socketWrite data so else Some (res, so))"

section \<open>State\<close>

record connection =
  cn_in :: buffer
  cn_out :: buffer
  cn_writing :: bool
  cn_client_fd :: int
  cn_closed :: bool
  cn_io_desc :: addr
  cn_in_error :: bool
  cn_error_string :: string
  cn_refs :: int
  cn_alive :: bool       \<comment> \<open>not yet deleted\<close>

text \<open>A connection with its socket, the event loop, and the state of its subclass.\<close>

record 'a conn_world =
  cx_conn :: connection
  cx_sock :: socket
  cx_im :: io_manager
  cx_app :: 'a

definition upd_conn :: "(connection \<Rightarrow> connection) \<Rightarrow> 'a conn_world \<Rightarrow> 'a conn_world" where
  "upd_conn f w = w\<lparr>cx_conn := f (cx_conn w)\<rparr>"

text \<open>The two constructors; \<open>read_cb\<close> and \<open>write_cb\<close> are the tasks that run \<open>doRead\<close> and \<open>doWrite\<close>.\<close>

definition server_connection :: "raw \<Rightarrow> raw \<Rightarrow> int \<Rightarrow> nat \<Rightarrow> nat \<Rightarrow> io_manager \<Rightarrow> connection \<times> io_manager" where
  "server_connection raw1 raw2 client_fd read_cb write_cb im =
     (let (io_desc, im) = newDescriptor client_fd (Some read_cb) (Some write_cb) im
      in (\<lparr>cn_in = new_buffer raw1, cn_out = new_buffer raw2, cn_writing = False, cn_client_fd = client_fd,
           cn_closed = False, cn_io_desc = io_desc, cn_in_error = False, cn_error_string = [], cn_refs = 0,
           cn_alive = True\<rparr>, im))"

definition client_connection :: "raw \<Rightarrow> raw \<Rightarrow> connection" where
  "client_connection raw1 raw2 =
     \<lparr>cn_in = new_buffer raw1, cn_out = new_buffer raw2, cn_writing = False, cn_client_fd = - 1,
      cn_closed = True, cn_io_desc = NULL, cn_in_error = False, cn_error_string = [], cn_refs = 0, cn_alive = True\<rparr>"

text \<open>The destructor closes the socket and gives the descriptor to the event loop.\<close>

definition destroy_connection :: "'a conn_world \<Rightarrow> 'a conn_world result" where
  "destroy_connection w =
     rbind (if cn_io_desc (cx_conn w) \<noteq> NULL then delDescriptor (cn_io_desc (cx_conn w)) (cx_im w) else Inr (cx_im w)) (\<lambda>im.
       Inr (upd_conn (\<lambda>c. c\<lparr>cn_alive := False\<rparr>) (w\<lparr>cx_im := im\<rparr>)))"

text \<open>A method that runs on a deleted connection reads freed memory: every entry of the class checks that it is not.\<close>

definition on_live :: "('a conn_world \<Rightarrow> 'b result) \<Rightarrow> 'a conn_world \<Rightarrow> 'b result" where
  "on_live f w = (if cn_alive (cx_conn w) then f w else Inl BadAddress)"

definition acquire :: "'a conn_world \<Rightarrow> 'a conn_world" where
  "acquire w = upd_conn (\<lambda>c. c\<lparr>cn_refs := cn_refs c + 1\<rparr>) w"

definition release :: "'a conn_world \<Rightarrow> 'a conn_world result" where
  "release =
     on_live (\<lambda>w.
       let w = upd_conn (\<lambda>c. c\<lparr>cn_refs := cn_refs c - 1\<rparr>) w
       in if cn_refs (cx_conn w) = 0 then destroy_connection w else Inr w)"

definition conn_close :: "'a conn_world \<Rightarrow> 'a conn_world" where
  "conn_close w = upd_conn (\<lambda>c. c\<lparr>cn_closed := True\<rparr>) w"

text \<open>An operation of the event loop on the connection's descriptor.\<close>

definition on_desc :: "(addr \<Rightarrow> io_manager \<Rightarrow> io_manager result) \<Rightarrow> 'a conn_world \<Rightarrow> 'a conn_world result" where
  "on_desc f w = rbind (f (cn_io_desc (cx_conn w)) (cx_im w)) (\<lambda>im. Inr (w\<lparr>cx_im := im\<rparr>))"

section \<open>Reading\<close>

definition startRead :: "'a conn_world \<Rightarrow> 'a conn_world result" where
  "startRead = on_live (\<lambda>w. on_desc readWhenReady (acquire w))"

text \<open>\<open>in_.advance\<close> after the bytes were read into \<open>in_.writePtr()\<close>.\<close>

definition receive_bytes :: "char list \<Rightarrow> 'a conn_world \<Rightarrow> 'a conn_world result" where
  "receive_bytes data w =
     rbind (poke data (cn_in (cx_conn w))) (\<lambda>b.
       rbind (advance (length data) b) (\<lambda>(_, b). Inr (upd_conn (\<lambda>c. c\<lparr>cn_in := b\<rparr>) w)))"

partial_function (option) read_rounds ::
    "raw \<Rightarrow> ('a conn_world \<Rightarrow> (bool \<times> 'a conn_world) result) \<Rightarrow> 'a conn_world \<Rightarrow> 'a conn_world result option" where
  "read_rounds raw readDone w =
     (if \<not> cn_alive (cx_conn w) then Some (Inl BadAddress)
      else
        let b = snd (reserve raw 1024 (cn_in (cx_conn w)));
            w = upd_conn (\<lambda>c. c\<lparr>cn_in := b\<rparr>) w
        in case socketRead (writeSize b) (cx_sock w) of
             None \<Rightarrow> None
           | Some (res, so) \<Rightarrow>
               (let w = w\<lparr>cx_sock := so\<rparr>
                in case res of
                     RErr e \<Rightarrow> Some (if e = EAGAIN then on_desc readWhenReady (acquire w) else Inr w)
                   | RData data \<Rightarrow>
                       (if data = [] then Some (Inr w)
                        else case rbind (receive_bytes data w) readDone of
                               Inl e \<Rightarrow> Some (Inl e)
                             | Inr (ok, w) \<Rightarrow> (if ok then read_rounds raw readDone w else Some (Inr w)))))"

definition doRead ::
    "raw \<Rightarrow> ('a conn_world \<Rightarrow> (bool \<times> 'a conn_world) result) \<Rightarrow> 'a conn_world \<Rightarrow> 'a conn_world result option" where
  "doRead raw readDone w = map_option (\<lambda>r. rbind r release) (read_rounds raw readDone w)"

section \<open>Writing\<close>

partial_function (option) write_rounds :: "'a conn_world \<Rightarrow> 'a conn_world result option" where
  "write_rounds w =
     (case rbind (readSize (cn_out (cx_conn w))) (\<lambda>size. peek size (cn_out (cx_conn w))) of
        Inl e \<Rightarrow> Some (Inl e)
      | Inr data \<Rightarrow>
          (case socketWrite data (cx_sock w) of
             None \<Rightarrow> None
           | Some (res, so) \<Rightarrow>
               (let w = w\<lparr>cx_sock := so\<rparr>
                in case res of
                     WErr e \<Rightarrow> Some (if e = EAGAIN then on_desc writeWhenReady (acquire w) else Inr w)
                   | WDone bytes_written \<Rightarrow>
                       (if bytes_written = 0 then Some (Inr w)
                        else case consume bytes_written (cn_out (cx_conn w)) of
                               Inl e \<Rightarrow> Some (Inl e)
                             | Inr b \<Rightarrow>
                                 (let w = upd_conn (\<lambda>c. c\<lparr>cn_out := b\<rparr>) w
                                  in if length data = bytes_written \<and> readSize b = Inr 0
                                     then Some (Inr (upd_conn (\<lambda>c. c\<lparr>cn_writing := False\<rparr>) w))
                                     else write_rounds w)))))"

definition doWrite :: "'a conn_world \<Rightarrow> 'a conn_world result option" where
  "doWrite w =
     (if cn_alive (cx_conn w) then map_option (\<lambda>r. rbind r release) (write_rounds w) else Some (Inl BadAddress))"

definition startWrite :: "'a conn_world \<Rightarrow> 'a conn_world result option" where
  "startWrite w =
     (if \<not> cn_alive (cx_conn w) then Some (Inl BadAddress)
      else if cn_writing (cx_conn w) then Some (Inr w)
      else doWrite (acquire (upd_conn (\<lambda>c. c\<lparr>cn_writing := True\<rparr>) w)))"

section \<open>Connecting\<close>

text \<open>\<open>strerror\<close> of the C library is an argument, as are the results of the system calls.\<close>

definition doConnect ::
    "(int \<Rightarrow> string) \<Rightarrow> ('a conn_world \<Rightarrow> 'a conn_world result) \<Rightarrow> int \<Rightarrow> nat \<Rightarrow> nat \<Rightarrow> 'a conn_world \<Rightarrow> 'a conn_world result" where
  "doConnect strerror connDone so_error read_cb write_cb =
     on_live (\<lambda>w.
       rbind (if cn_in_error (cx_conn w) then Inr w
              else if so_error \<noteq> 0 then
                Inr (upd_conn (\<lambda>c. c\<lparr>cn_error_string := cn_error_string c @ ''Connect failed'' @ strerror so_error,
                                     cn_in_error := True\<rparr>) w)
              else on_desc (setUpCalls (Some read_cb) (Some write_cb)) (upd_conn (\<lambda>c. c\<lparr>cn_closed := False\<rparr>) w))
         (\<lambda>w. rbind (connDone w) release))"

definition startConnect ::
    "(int \<Rightarrow> string) \<Rightarrow> ('a conn_world \<Rightarrow> 'a conn_world result) \<Rightarrow> int + int \<Rightarrow> int option \<Rightarrow> int \<Rightarrow>
     nat \<Rightarrow> nat \<Rightarrow> nat \<Rightarrow> 'a conn_world \<Rightarrow> 'a conn_world result" where
  "startConnect strerror connDone socket_res connect_errno so_error conn_cb read_cb write_cb w =
     (case socket_res of
        Inl err \<Rightarrow>
          Inr (upd_conn (\<lambda>c. c\<lparr>cn_client_fd := - 1,
                               cn_error_string := cn_error_string c @ ''Socket failed: '' @ strerror err,
                               cn_in_error := True\<rparr>) w)
      | Inr fd \<Rightarrow>
          (let w = acquire (upd_conn (\<lambda>c. c\<lparr>cn_client_fd := fd\<rparr>) w)
           in case connect_errno of
                None \<Rightarrow> doConnect strerror connDone so_error read_cb write_cb w
              | Some err \<Rightarrow>
                  if err \<noteq> EINPROGRESS \<and> err \<noteq> EINTR then
                    doConnect strerror connDone so_error read_cb write_cb
                      (upd_conn (\<lambda>c. c\<lparr>cn_client_fd := - 1,
                                       cn_error_string := cn_error_string c @ ''Connect failed: '' @ strerror err,
                                       cn_in_error := True\<rparr>) w)
                  else
                    let (io_desc, im) = newDescriptor fd None (Some conn_cb) (cx_im w)
                    in on_desc writeWhenReady (upd_conn (\<lambda>c. c\<lparr>cn_io_desc := io_desc\<rparr>) (w\<lparr>cx_im := im\<rparr>))))"

section \<open>What writing does\<close>

text \<open>What writing to the socket does not touch.\<close>

definition same_reads :: "socket \<Rightarrow> socket \<Rightarrow> bool" where
  "same_reads so so' \<longleftrightarrow> so_read so' = so_read so \<and> so_reads so' = so_reads so"

text \<open>A socket that never takes more than it is given and is not interrupted for ever.\<close>

definition write_ok :: "socket \<Rightarrow> bool" where
  "write_ok so \<longleftrightarrow> (\<forall>k n m. so_write so k n = WDone m \<longrightarrow> m \<le> n) \<and> (\<forall>k n. \<exists>i. so_write so (k + i) n \<noteq> WErr EINTR)"

text \<open>A call repeats the write until it is not interrupted.\<close>

lemma socketWrite_retries:
  assumes "so_write so (so_writes so + i) (length data) \<noteq> WErr EINTR"
  shows "\<exists>so' res. socketWrite data so = Some (res, so') \<and> (\<exists>k. res = so_write so k (length data)) \<and> res \<noteq> WErr EINTR \<and>
    so_write so' = so_write so \<and> same_reads so so' \<and>
    so_sent so' = so_sent so @ (case res of WDone m \<Rightarrow> take m data | WErr e \<Rightarrow> [])"
  using assms
proof (induction i arbitrary: so)
  case 0
  then show ?case
    by (subst socketWrite.simps) (auto simp: same_reads_def Let_def)
next
  case (Suc i)
  define so1 where "so1 = so\<lparr>so_writes := so_writes so + 1\<rparr>"
  show ?case
  proof (cases "so_write so (so_writes so) (length data) = WErr EINTR")
    case True
    then have "socketWrite data so = socketWrite data so1"
      by (subst socketWrite.simps) (simp add: so1_def Let_def)
    then show ?thesis
      using Suc.IH [of so1] Suc.prems by (simp add: so1_def same_reads_def)
  next
    case False
    then show ?thesis
      by (subst socketWrite.simps) (auto simp: same_reads_def Let_def)
  qed
qed

lemma socketWrite_ok:
  assumes "write_ok so"
  shows "\<exists>so' res. socketWrite data so = Some (res, so') \<and> (\<exists>k. res = so_write so k (length data)) \<and> res \<noteq> WErr EINTR \<and>
    so_write so' = so_write so \<and> same_reads so so' \<and>
    so_sent so' = so_sent so @ (case res of WDone m \<Rightarrow> take m data | WErr e \<Rightarrow> [])"
  using assms socketWrite_retries [of so _ data] unfolding write_ok_def by blast

text \<open>A connection that somebody refers to, whose descriptor exists and whose output can be written to.\<close>

definition conn_ok :: "'a conn_world \<Rightarrow> bool" where
  "conn_ok w \<longleftrightarrow> cn_alive (cx_conn w) \<and> 0 < cn_refs (cx_conn w) \<and> buf_ok (cn_out (cx_conn w)) \<and> flowing (cn_out (cx_conn w)) \<and> write_ok (cx_sock w) \<and>
     cn_io_desc (cx_conn w) \<noteq> NULL \<and> im_descs (cx_im w) (cn_io_desc (cx_conn w)) \<noteq> None"

text \<open>The bytes \<open>sent\<close> moved from the front of the output to the socket.\<close>

definition sends :: "char list \<Rightarrow> 'a conn_world \<Rightarrow> 'a conn_world \<Rightarrow> bool" where
  "sends sent w w' \<longleftrightarrow> so_sent (cx_sock w') = so_sent (cx_sock w) @ sent \<and>
     contents (cn_out (cx_conn w)) = sent @ contents (cn_out (cx_conn w')) \<and>
     cn_in (cx_conn w') = cn_in (cx_conn w)"

lemma sends_trans: "sends x w1 w2 \<Longrightarrow> sends y w2 w3 \<Longrightarrow> sends (x @ y) w1 w3"
  by (simp add: sends_def)

text \<open>A socket that, when it is not interrupted, takes at least a byte of what it is given.\<close>

definition takes_all :: "socket \<Rightarrow> bool" where
  "takes_all so \<longleftrightarrow> (\<forall>k n. 0 < n \<longrightarrow> so_write so k n = WErr EINTR \<or> (\<exists>m. so_write so k n = WDone m \<and> 0 < m))"

definition keeps :: "'a conn_world \<Rightarrow> 'a conn_world \<Rightarrow> bool" where
  "keeps w w' \<longleftrightarrow> cx_app w' = cx_app w \<and> writeSize (cn_out (cx_conn w')) = writeSize (cn_out (cx_conn w)) \<and>
     pos_idx (b_rpos (cn_out (cx_conn w'))) = pos_idx (b_rpos (cn_out (cx_conn w))) \<and> same_reads (cx_sock w) (cx_sock w') \<and>
     cn_refs (cx_conn w) \<le> cn_refs (cx_conn w')"

lemma keeps_trans: "keeps w1 w2 \<Longrightarrow> keeps w2 w3 \<Longrightarrow> keeps w1 w3"
  by (auto simp: keeps_def same_reads_def)

definition wrote :: "'a conn_world \<Rightarrow> 'a conn_world \<Rightarrow> bool" where
  "wrote w w' \<longleftrightarrow> (\<exists>sent. sends sent w w') \<and> conn_ok w' \<and> keeps w w' \<and>
     (cn_writing (cx_conn w') \<longrightarrow> cn_writing (cx_conn w)) \<and>
     (cn_writing (cx_conn w) \<and> \<not> cn_writing (cx_conn w') \<longrightarrow> contents (cn_out (cx_conn w')) = []) \<and>
     (takes_all (cx_sock w) \<and> contents (cn_out (cx_conn w)) \<noteq> [] \<longrightarrow>
        contents (cn_out (cx_conn w')) = [] \<and> \<not> cn_writing (cx_conn w'))"

lemma wrote_nothing:
  assumes "conn_ok w" "cx_conn w' = (cx_conn w)\<lparr>cn_refs := r\<rparr>" "cn_refs (cx_conn w) \<le> r" "so_sent (cx_sock w') = so_sent (cx_sock w)"
    and "so_write (cx_sock w') = so_write (cx_sock w)" "dom (im_descs (cx_im w')) = dom (im_descs (cx_im w))"
    and "\<not> takes_all (cx_sock w) \<or> contents (cn_out (cx_conn w)) = []" "cx_app w' = cx_app w" "same_reads (cx_sock w) (cx_sock w')"
  shows "wrote w w'"
proof -
  have "sends [] w w'"
    using assms(2,4) by (simp add: sends_def)
  moreover have "conn_ok w'"
    using assms(1-3,5,6) by (auto simp: conn_ok_def write_ok_def domIff)
  ultimately show ?thesis
    using assms(2,3,7-9) by (auto simp: wrote_def keeps_def)
qed

lemma wrote_trans:
  assumes "sends sent w w1" "wrote w1 w'" "cn_writing (cx_conn w1) = cn_writing (cx_conn w)"
    and "so_write (cx_sock w1) = so_write (cx_sock w)" "contents (cn_out (cx_conn w1)) \<noteq> []" "keeps w w1"
  shows "wrote w w'"
proof -
  have "keeps w w'" "\<exists>sent. sends sent w w'"
    using assms(1,2) keeps_trans [OF assms(6)] sends_trans unfolding wrote_def by blast+
  then show ?thesis
    using assms(2-5) by (simp add: wrote_def takes_all_def)
qed

lemma desc_write_ok:
  assumes "conn_ok w"
  shows "\<exists>w'. on_desc writeWhenReady (acquire w) = Inr w' \<and> cx_conn w' = (cx_conn w)\<lparr>cn_refs := cn_refs (cx_conn w) + 1\<rparr> \<and>
    cx_sock w' = cx_sock w \<and> dom (im_descs (cx_im w')) = dom (im_descs (cx_im w)) \<and> cx_app w' = cx_app w"
  using assms
  by (auto simp: conn_ok_def on_desc_def acquire_def upd_conn_def writeWhenReady_def desc_at_def put_desc_def
      im_addTask_def Let_def)

text \<open>One round of the loop, by what the socket answers.\<close>

lemma write_round_cases:
  assumes "readSize (cn_out (cx_conn w)) = Inr n" "peek n (cn_out (cx_conn w)) = Inr data"
    and "socketWrite data (cx_sock w) = Some (res, so)"
  shows "res = WErr e \<Longrightarrow>
      write_rounds w = Some (if e = EAGAIN then on_desc writeWhenReady (acquire (w\<lparr>cx_sock := so\<rparr>)) else Inr (w\<lparr>cx_sock := so\<rparr>))"
    "res = WDone 0 \<Longrightarrow> write_rounds w = Some (Inr (w\<lparr>cx_sock := so\<rparr>))"
    "res = WDone m \<Longrightarrow> 0 < m \<Longrightarrow> consume m (cn_out (cx_conn w)) = Inr b \<Longrightarrow>
      write_rounds w =
        (if length data = m \<and> readSize b = Inr 0
         then Some (Inr (upd_conn (\<lambda>c. c\<lparr>cn_writing := False\<rparr>) (upd_conn (\<lambda>c. c\<lparr>cn_out := b\<rparr>) (w\<lparr>cx_sock := so\<rparr>))))
         else write_rounds (upd_conn (\<lambda>c. c\<lparr>cn_out := b\<rparr>) (w\<lparr>cx_sock := so\<rparr>)))"
  by (subst write_rounds.simps, simp add: assms Let_def)+

lemma sent_bytes:
  assumes "conn_ok w" "so_write so = so_write (cx_sock w)" "so_sent so = so_sent (cx_sock w) @ take m (contents (cn_out (cx_conn w)))"
    and "buf_ok b" "flowing b" "contents b = drop m (contents (cn_out (cx_conn w)))"
      "writeSize b = writeSize (cn_out (cx_conn w))" "pos_idx (b_rpos b) = pos_idx (b_rpos (cn_out (cx_conn w)))"
      "same_reads (cx_sock w) so"
  defines "w2 \<equiv> upd_conn (\<lambda>c. c\<lparr>cn_out := b\<rparr>) (w\<lparr>cx_sock := so\<rparr>)"
  shows "conn_ok w2" "sends (take m (contents (cn_out (cx_conn w)))) w w2"
    "cn_writing (cx_conn w2) = cn_writing (cx_conn w)" "cn_out (cx_conn w2) = b" "so_write (cx_sock w2) = so_write (cx_sock w)"
    "keeps w w2"
  using assms by (auto simp: upd_conn_def conn_ok_def write_ok_def sends_def keeps_def)

lemma write_done:
  assumes "conn_ok w2" "sends sent w w2" "contents (cn_out (cx_conn w2)) = []" "keeps w w2"
  shows "wrote w (upd_conn (\<lambda>c. c\<lparr>cn_writing := False\<rparr>) w2)"
  using assms by (auto simp: wrote_def sends_def upd_conn_def conn_ok_def keeps_def)

text \<open>The last reference deletes the connection; any other only goes away.\<close>

lemma release_ok:
  assumes "conn_ok w"
  shows "\<exists>w'. release w = Inr w' \<and> cn_out (cx_conn w') = cn_out (cx_conn w) \<and> cn_in (cx_conn w') = cn_in (cx_conn w) \<and>
    cx_sock w' = cx_sock w \<and> cx_app w' = cx_app w \<and>
    (1 < cn_refs (cx_conn w) \<longrightarrow> cx_conn w' = (cx_conn w)\<lparr>cn_refs := cn_refs (cx_conn w) - 1\<rparr> \<and> cx_im w' = cx_im w) \<and>
    (cn_refs (cx_conn w) = 1 \<longrightarrow> \<not> cn_alive (cx_conn w'))"
  using assms
  by (auto simp: conn_ok_def release_def on_live_def destroy_connection_def upd_conn_def delDescriptor_def desc_at_def put_desc_def Let_def)

text \<open>A round in which the socket took nothing ends the loop.\<close>

lemma write_round_ends:
  assumes ok: "conn_ok w" and n: "readSize (cn_out (cx_conn w)) = Inr n" "peek n (cn_out (cx_conn w)) = Inr data"
    and so: "socketWrite data (cx_sock w) = Some (res, so)" "so_write so = so_write (cx_sock w)" "so_sent so = so_sent (cx_sock w)"
      "same_reads (cx_sock w) so"
    and stuck: "\<not> takes_all (cx_sock w) \<or> contents (cn_out (cx_conn w)) = []"
    and res: "(\<exists>e. res = WErr e) \<or> res = WDone 0"
  shows "\<exists>w'. write_rounds w = Some (Inr w') \<and> wrote w w'"
proof (cases "res = WErr EAGAIN")
  case True
  have "conn_ok (w\<lparr>cx_sock := so\<rparr>)"
    using ok so(2) by (simp add: conn_ok_def write_ok_def)
  from desc_write_ok [OF this] obtain w' where w': "on_desc writeWhenReady (acquire (w\<lparr>cx_sock := so\<rparr>)) = Inr w'"
      "cx_conn w' = (cx_conn w)\<lparr>cn_refs := cn_refs (cx_conn w) + 1\<rparr>" "cx_sock w' = so"
      "dom (im_descs (cx_im w')) = dom (im_descs (cx_im w))" "cx_app w' = cx_app w"
    by auto
  then have "wrote w w'"
    using wrote_nothing [OF ok w'(2) _ _ _ w'(4) stuck w'(5)] so(2-4) by simp
  then show ?thesis
    using write_round_cases(1) [OF n so(1) True] w'(1) by simp
next
  case False
  have "wrote w (w\<lparr>cx_sock := so\<rparr>)"
    using wrote_nothing [OF ok, of "w\<lparr>cx_sock := so\<rparr>" "cn_refs (cx_conn w)"] so(2-4) stuck by simp
  moreover have "write_rounds w = Some (Inr (w\<lparr>cx_sock := so\<rparr>))"
    using res False write_round_cases(1,2) [OF n so(1)] by (auto split: if_splits)
  ultimately show ?thesis
    by blast
qed

text \<open>A round in which it took \<open>m\<close> bytes: the loop ends or goes on with the rest.\<close>

lemma write_round_continues:
  assumes ok: "conn_ok w" and n: "readSize (cn_out (cx_conn w)) = Inr n" "peek n (cn_out (cx_conn w)) = Inr (take n (contents (cn_out (cx_conn w))))"
    "n \<le> length (contents (cn_out (cx_conn w)))" and m: "0 < m" "m \<le> n"
    and so: "socketWrite (take n (contents (cn_out (cx_conn w)))) (cx_sock w) = Some (WDone m, so)" "so_write so = so_write (cx_sock w)"
      "so_sent so = so_sent (cx_sock w) @ take m (contents (cn_out (cx_conn w)))" "same_reads (cx_sock w) so"
    and IH: "\<And>w2 :: 'a conn_world. length (contents (cn_out (cx_conn w2))) < length (contents (cn_out (cx_conn w))) \<Longrightarrow> conn_ok w2 \<Longrightarrow>
      \<exists>w'. write_rounds w2 = Some (Inr w') \<and> wrote w2 w'"
  shows "\<exists>w'. write_rounds (w :: 'a conn_world) = Some (Inr w') \<and> wrote w w'"
proof -
  define b where "b = cn_out (cx_conn w)"
  obtain b' where b': "consume m b = Inr b'" "buf_ok b'" "contents b' = drop m (contents b)" "flowing b'"
      "writeSize b' = writeSize b" "pos_idx (b_rpos b') = pos_idx (b_rpos b)"
    using consume_drops [of b m] ok by (auto simp: conn_ok_def b_def)
  define w2 where "w2 = upd_conn (\<lambda>c. c\<lparr>cn_out := b'\<rparr>) (w\<lparr>cx_sock := so\<rparr>)"
  note w2 = sent_bytes [OF ok so(2,3) b'(2,4) b'(3,5,6) [unfolded b_def] so(4), folded w2_def]
  have step: "write_rounds w = (if n = m \<and> readSize b' = Inr 0 then Some (Inr (upd_conn (\<lambda>c. c\<lparr>cn_writing := False\<rparr>) w2)) else write_rounds w2)"
    using write_round_cases(3) [OF n(1,2) so(1) refl m(1) b'(1) [unfolded b_def]] n(3) by (simp add: w2_def b_def min_absorb2)
  obtain n' where n': "readSize b' = Inr n'" "n' \<le> length (contents b')" "contents b' \<noteq> [] \<longrightarrow> 0 < n'"
    using readSize_flowing [OF b'(2,4)] by blast
  show ?thesis
  proof (cases "n = m \<and> readSize b' = Inr 0")
    case True
    then have "contents b' = []"
      using n' by auto
    then show ?thesis
      using step True write_done [OF w2(1,2) _ w2(6)] w2(4) by simp
  next
    case False
    have ne: "contents b' \<noteq> []" "length (contents b') < length (contents b)"
      using False n' n(3) m b'(3) by (auto simp: b_def)
    then obtain w' where "write_rounds w2 = Some (Inr w')" "wrote w2 w'"
      using IH [of w2] w2(1,4) unfolding b_def by auto
    then show ?thesis
      using step False wrote_trans [OF w2(2) _ w2(3,5) _ w2(6)] ne(1) w2(4) by auto
  qed
qed

lemma write_rounds_wrote:
  assumes "conn_ok w"
  shows "\<exists>w'. write_rounds w = Some (Inr w') \<and> wrote w w'"
  using assms
proof (induction "length (contents (cn_out (cx_conn w)))" arbitrary: w rule: less_induct)
  case less
  define b where "b = cn_out (cx_conn w)"
  have b: "buf_ok b" "flowing b" and wok: "write_ok (cx_sock w)"
    using less.prems by (simp_all add: conn_ok_def b_def)
  obtain n where n: "readSize b = Inr n" "n \<le> length (contents b)" "contents b \<noteq> [] \<longrightarrow> 0 < n" "peek n b = Inr (take n (contents b))"
    using readSize_flowing [OF b] by blast
  obtain so res k where so: "socketWrite (take n (contents b)) (cx_sock w) = Some (res, so)" "so_write so = so_write (cx_sock w)"
      "so_sent so = so_sent (cx_sock w) @ (case res of WDone m \<Rightarrow> take m (take n (contents b)) | WErr e \<Rightarrow> [])"
      "same_reads (cx_sock w) so"
    and res: "res = so_write (cx_sock w) k n" "res \<noteq> WErr EINTR"
    using socketWrite_ok [OF wok, of "take n (contents b)"] n(2) by (auto simp: min_absorb2)
  show ?case
  proof (cases "\<exists>m. res = WDone m \<and> 0 < m")
    case True
    then obtain m where m: "res = WDone m" "0 < m"
      by blast
    then have "m \<le> n"
      using wok res(1) unfolding write_ok_def by metis
    then show ?thesis
      using write_round_continues [OF less.prems n(1,4,2) [unfolded b_def] m(2) _ _ so(2) _ so(4) less.hyps] so(1,3) m(1)
      by (simp add: b_def min_absorb1)
  next
    case False
    then have r: "(\<exists>e. res = WErr e) \<or> res = WDone 0"
      by (cases res) auto
    have "\<not> takes_all (cx_sock w) \<or> contents b = []"
      using False n(3) res unfolding takes_all_def by blast
    moreover have "so_sent so = so_sent (cx_sock w)"
      using so(3) r by auto
    ultimately show ?thesis
      using write_round_ends [OF less.prems n(1,4) [unfolded b_def] so(1) [unfolded b_def] so(2) _ so(4) _ r] by (simp add: b_def)
  qed
qed

lemma startWrite_wrote:
  assumes "conn_ok w" "\<not> cn_writing (cx_conn w)"
  shows "\<exists>w' sent. startWrite w = Some (Inr w') \<and> sends sent w w' \<and> conn_ok w' \<and> keeps w w' \<and>
    (takes_all (cx_sock w) \<and> contents (cn_out (cx_conn w)) \<noteq> [] \<longrightarrow>
       contents (cn_out (cx_conn w')) = [] \<and> \<not> cn_writing (cx_conn w'))"
proof -
  define w1 where "w1 = acquire (upd_conn (\<lambda>c. c\<lparr>cn_writing := True\<rparr>) w)"
  have w1: "conn_ok w1" "cn_out (cx_conn w1) = cn_out (cx_conn w)" "cx_sock w1 = cx_sock w" "cn_in (cx_conn w1) = cn_in (cx_conn w)"
      "cn_refs (cx_conn w1) = cn_refs (cx_conn w) + 1" "cn_alive (cx_conn w1)"
    using assms(1) by (simp_all add: w1_def acquire_def upd_conn_def conn_ok_def)
  obtain w2 where w2: "write_rounds w1 = Some (Inr w2)" "wrote w1 w2"
    using write_rounds_wrote [OF w1(1)] by blast
  have ok2: "conn_ok w2" "cn_refs (cx_conn w) < cn_refs (cx_conn w2)" "1 < cn_refs (cx_conn w2)"
    using w2(2) w1(5) assms(1) by (auto simp: wrote_def keeps_def conn_ok_def)
  obtain w3 where w3: "release w2 = Inr w3" "cx_conn w3 = (cx_conn w2)\<lparr>cn_refs := cn_refs (cx_conn w2) - 1\<rparr>" "cx_im w3 = cx_im w2"
      "cx_sock w3 = cx_sock w2" "cx_app w3 = cx_app w2"
    using release_ok [OF ok2(1)] ok2(3) by blast
  have "conn_ok w3"
    using ok2 w3 by (simp add: conn_ok_def)
  moreover have "cx_app w1 = cx_app w"
    by (simp add: w1_def acquire_def upd_conn_def)
  then have "keeps w w3"
    using w2(2) w3 w1 ok2 unfolding wrote_def keeps_def by simp
  moreover have "startWrite w = Some (Inr w3)"
    using w2(1) w3(1) assms w1(6) by (simp add: startWrite_def doWrite_def w1_def conn_ok_def)
  moreover obtain sent where "sends sent w1 w2"
    using w2(2) by (auto simp: wrote_def)
  then have "sends sent w w3"
    using w1 w3 by (simp add: sends_def)
  ultimately show ?thesis
    using w2(2) w1 w3 unfolding wrote_def by auto
qed

text \<open>
  C28: A write that starts on a connection that is referred to ends, whatever the socket answers, when it does not interrupt the
  write for ever: a prefix of the output has been sent, in order, the rest is still in the buffer, and the connection still exists.
  When the socket keeps taking bytes between interruptions, everything has been sent and the connection is ready for the next write.
\<close>

theorem startWrite_sends:
  assumes "conn_ok w" "\<not> cn_writing (cx_conn w)"
  shows "\<exists>w' sent. startWrite w = Some (Inr w') \<and> sends sent w w' \<and> cn_alive (cx_conn w') \<and>
    (takes_all (cx_sock w) \<and> contents (cn_out (cx_conn w)) \<noteq> [] \<longrightarrow>
       contents (cn_out (cx_conn w')) = [] \<and> \<not> cn_writing (cx_conn w'))"
  using startWrite_wrote [OF assms] unfolding conn_ok_def by blast

text \<open>A socket that takes one byte at a time after an interruption, and a connection over it that reads and has two bytes to send.\<close>

definition demo_socket :: socket where
  "demo_socket = \<lparr>so_read = (\<lambda>_ _. RErr EAGAIN), so_write = (\<lambda>k n. if even k then WErr EINTR else WDone (min 1 n)), so_reads = 0, so_writes = 0, so_sent = []\<rparr>"

definition demo_world :: "unit conn_world" where
  "demo_world =
     (let raw = \<lambda>_ _. CHR 0x00; (c, im) = server_connection raw raw 5 1 2 (new_io_manager 1)
      in \<lparr>cx_conn = c\<lparr>cn_out := demo_buffer ''hi'', cn_refs := 1\<rparr>, cx_sock = demo_socket, cx_im = im, cx_app = ()\<rparr>)"

lemma demo_socket_ok: "write_ok demo_socket" "takes_all demo_socket"
proof -
  have "so_write demo_socket (k + (if even k then 1 else 0)) n \<noteq> WErr EINTR" for k n
    by (simp add: demo_socket_def)
  moreover have "so_write demo_socket k n = WDone m \<Longrightarrow> m \<le> n" for k n m
    by (auto simp: demo_socket_def split: if_splits)
  ultimately show "write_ok demo_socket"
    unfolding write_ok_def by metis
  show "takes_all demo_socket"
    by (simp add: takes_all_def demo_socket_def)
qed

lemma demo_world_ok: "conn_ok demo_world" "\<not> cn_writing (cx_conn demo_world)" "cn_out (cx_conn demo_world) = demo_buffer ''hi''"
    "cx_sock demo_world = demo_socket"
  using demo_buffer_facts [of "''hi''"] demo_socket_ok(1)
  by (auto simp: demo_world_def server_connection_def newDescriptor_def new_io_manager_def put_desc_def conn_ok_def
      stream_ok_def BlockSize_def Let_def)

theorem startWrite_sends_witness:
  "\<exists>w'. startWrite demo_world = Some (Inr w') \<and> so_sent (cx_sock w') = ''hi'' \<and> \<not> cn_writing (cx_conn w')"
  using startWrite_sends [OF demo_world_ok(1,2)] demo_buffer_facts(2) [of "''hi''"] demo_socket_ok(2)
  by (auto simp: demo_world_ok(3,4) sends_def BlockSize_def) (simp add: demo_socket_def)

text \<open>A write with nothing to send never ends the state of writing: no later \<open>startWrite\<close> does anything.\<close>

lemma empty_write_blocks:
  assumes "conn_ok w" "\<not> cn_writing (cx_conn w)" "contents (cn_out (cx_conn w)) = []"
    and "\<And>k. so_write (cx_sock w) k 0 = WDone 0"
  shows "\<exists>w'. startWrite w = Some (Inr w') \<and> cn_writing (cx_conn w')"
proof -
  define w1 where "w1 = acquire (upd_conn (\<lambda>c. c\<lparr>cn_writing := True\<rparr>) w)"
  have w1: "cn_out (cx_conn w1) = cn_out (cx_conn w)" "cx_sock w1 = cx_sock w" "cn_refs (cx_conn w1) = cn_refs (cx_conn w) + 1"
      "cn_writing (cx_conn w1)"
      "0 < cn_refs (cx_conn w)" "cn_alive (cx_conn w1)" "cn_alive (cx_conn w)"
    using assms(1) by (simp_all add: w1_def acquire_def upd_conn_def conn_ok_def)
  have n: "readSize (cn_out (cx_conn w1)) = Inr 0" "peek 0 (cn_out (cx_conn w1)) = Inr []"
    using readSize_flowing [of "cn_out (cx_conn w)"] assms(1,3) w1(1) by (auto simp: conn_ok_def)
  have "\<exists>so. socketWrite [] (cx_sock w1) = Some (WDone 0, so)"
    unfolding w1(2) by (subst socketWrite.simps) (simp add: assms(4) Let_def)
  then obtain so where so: "socketWrite [] (cx_sock w1) = Some (WDone 0, so)" ..
  have "write_rounds w1 = Some (Inr (w1\<lparr>cx_sock := so\<rparr>))"
    by (rule write_round_cases(2) [OF n so refl])
  then have "startWrite w = Some (release (w1\<lparr>cx_sock := so\<rparr>))"
    using assms(2) w1(6,7) by (simp add: startWrite_def doWrite_def w1_def)
  then show ?thesis
    using w1(3-6) by (simp add: release_def on_live_def upd_conn_def)
qed

text \<open>
  A connect that succeeds at once has no descriptor yet: \<open>doConnect\<close> sets the upcalls through a null pointer.
\<close>

lemma immediate_connect_faults:
  assumes "cx_conn w = client_connection raw1 raw2" "im_descs (cx_im w) NULL = None"
  shows "startConnect strerror connDone (Inr fd) None 0 conn_cb read_cb write_cb w = Inl BadAddress"
  using assms
  by (simp add: startConnect_def doConnect_def on_live_def acquire_def upd_conn_def client_connection_def on_desc_def setUpCalls_def
      desc_at_def Let_def)

section \<open>The reference count\<close>

text \<open>A read that ends keeps the count: the loop's reference goes unless the descriptor is asked for more.\<close>

lemma read_round_again:
  assumes "socketRead (writeSize (snd (reserve raw 1024 (cn_in (cx_conn w))))) (cx_sock w) = Some (RErr EAGAIN, so)"
    and "im_descs (cx_im w) (cn_io_desc (cx_conn w)) \<noteq> None" "cn_refs (cx_conn w) > 0" "cn_alive (cx_conn w)"
  shows "\<exists>w'. doRead raw readDone w = Some (Inr w') \<and> cn_refs (cx_conn w') = cn_refs (cx_conn w) \<and> cn_alive (cx_conn w')"
  using assms
  by (subst doRead_def, subst read_rounds.simps)
     (auto simp: upd_conn_def acquire_def on_desc_def readWhenReady_def desc_at_def release_def on_live_def Let_def)

text \<open>A write on a connection that nobody refers to deletes it, and what is done with it afterwards is a fault.\<close>

lemma unreferenced_write_deletes:
  assumes "conn_ok w" "contents (cn_out (cx_conn w)) = []" "\<And>k. so_write (cx_sock w) k 0 = WDone 0"
    and "w0 = upd_conn (\<lambda>c. c\<lparr>cn_refs := 0, cn_writing := False\<rparr>) w"
  shows "\<exists>w'. startWrite w0 = Some (Inr w') \<and> \<not> cn_alive (cx_conn w') \<and> startWrite w' = Some (Inl BadAddress)"
proof -
  define w1 where "w1 = acquire (upd_conn (\<lambda>c. c\<lparr>cn_writing := True\<rparr>) w0)"
  have w1: "cn_out (cx_conn w1) = cn_out (cx_conn w)" "cx_sock w1 = cx_sock w" "cn_refs (cx_conn w1) = 1" "conn_ok w1"
    using assms(1) by (simp_all add: w1_def assms(4) acquire_def upd_conn_def conn_ok_def)
  have n: "readSize (cn_out (cx_conn w1)) = Inr 0" "peek 0 (cn_out (cx_conn w1)) = Inr []"
    using readSize_flowing [of "cn_out (cx_conn w)"] assms(1,2) w1(1) by (auto simp: conn_ok_def)
  define so where "so = (cx_sock w)\<lparr>so_writes := so_writes (cx_sock w) + 1\<rparr>"
  have so: "socketWrite [] (cx_sock w1) = Some (WDone 0, so)" "so_write so = so_write (cx_sock w)"
    unfolding w1(2) by (subst socketWrite.simps, simp add: assms(3) so_def Let_def, simp add: so_def)
  have "write_rounds w1 = Some (Inr (w1\<lparr>cx_sock := so\<rparr>))"
    by (rule write_round_cases(2) [OF n so(1) refl])
  moreover obtain w' where "release (w1\<lparr>cx_sock := so\<rparr>) = Inr w'" "\<not> cn_alive (cx_conn w')"
    using release_ok [of "w1\<lparr>cx_sock := so\<rparr>"] w1 so(2) by (auto simp: conn_ok_def write_ok_def)
  ultimately show ?thesis
    using w1(4) by (auto simp: startWrite_def doWrite_def w1_def conn_ok_def assms(4) acquire_def upd_conn_def)
qed

end
