(* ===== verification/Http_Parser.thy ===== *)
theory Http_Parser
  imports Buffer_Transfer
begin

text \<open>
  The HTTP parser (\<open>http_parser.cpp\<close>) and its messages (\<open>http_request.cpp\<close>, \<open>http_response.hpp\<close>).  A
  parsing function runs on an iterator of the input buffer and appends to a string; the exceptions of
  the source are values.  A loop over the iterator is partial: \<^const>\<open>None\<close> is not returning.
\<close>

section \<open>Messages\<close>

record request =
  rq_method :: string
  rq_address :: string
  rq_version :: string

definition request_clear :: "request \<Rightarrow> request" where
  "request_clear r = r\<lparr>rq_method := [], rq_address := [], rq_version := []\<rparr>"

definition cloneFrom :: "request \<Rightarrow> request \<Rightarrow> request" where
  "cloneFrom r other = r\<lparr>rq_method := rq_method other, rq_address := rq_address other, rq_version := rq_version other\<rparr>"

abbreviation CR :: char where
  "CR \<equiv> CHR 0x0D"

abbreviation LF :: char where
  "LF \<equiv> CHR 0x0A"

definition toBuffer :: "raw \<Rightarrow> request \<Rightarrow> buffer \<Rightarrow> buffer result" where
  "toBuffer raw r out =
     rbind (buffer_write raw (c_str (rq_method r)) out) (\<lambda>out.
     rbind (buffer_write raw '' '' out) (\<lambda>out.
     rbind (buffer_write raw (c_str (rq_address r)) out) (\<lambda>out.
     rbind (buffer_write raw '' '' out) (\<lambda>out.
     rbind (buffer_write raw (c_str (rq_version r)) out) (\<lambda>out.
       buffer_write raw [CR, LF, CR, LF] out)))))"

record response =
  rs_statusLine :: string
  rs_headerRemainder :: string
  rs_body :: string

definition response_clear :: "response \<Rightarrow> response" where
  "response_clear r = r\<lparr>rs_statusLine := [], rs_headerRemainder := [], rs_body := []\<rparr>"

section \<open>Exceptions\<close>

datatype exn = IncompleteInput | ErrorInRequest | Faulted fault

text \<open>
  A piece of parsing code: the exception it ended with, if any, and the state it left behind.
\<close>

type_synonym 's outcome = "(exn option \<times> 's) option"

definition seq :: "'s outcome \<Rightarrow> ('s \<Rightarrow> 's outcome) \<Rightarrow> 's outcome" where
  "seq m f = Option.bind m (\<lambda>(e, s). case e of None \<Rightarrow> f s | Some x \<Rightarrow> Some (Some x, s))"

text \<open>A step that may fault, leaving the state as it is then.\<close>

definition try_step :: "'a result \<Rightarrow> 's \<Rightarrow> ('a \<Rightarrow> 's outcome) \<Rightarrow> 's outcome" where
  "try_step r s f = (case r of Inl e \<Rightarrow> Some (Some (Faulted e), s) | Inr x \<Rightarrow> f x)"

lemma try_step_mono [partial_function_mono]:
  "(\<And>y. mono_option (\<lambda>f. g y f)) \<Longrightarrow> mono_option (\<lambda>f. try_step r s (\<lambda>y. g y f))"
  unfolding try_step_def by (cases r) (auto intro: partial_function_mono)

lemma try_step_simps [simp]:
  "try_step (Inr x) s f = f x"
  "try_step (Inl e) s f = Some (Some (Faulted e), s)"
  by (simp_all add: try_step_def)

lemma seq_simps [simp]:
  "seq (Some (None, s)) f = f s"
  "seq (Some (Some x, s)) f = Some (Some x, s)"
  by (simp_all add: seq_def)

section \<open>Tokens\<close>

partial_function (option) parseString_loop :: "buffer \<Rightarrow> iterator \<Rightarrow> string \<Rightarrow> (iterator \<times> string) outcome" where
  "parseString_loop b it res =
     (if eob b it then Some (None, it, res)
      else try_step (getChar b it) (it, res) (\<lambda>c.
        if c = CHR '' '' then Some (None, it, res)
        else if c = CR then Some (None, it, res)
        else try_step (it_next b it) (it, res @ [c]) (\<lambda>it. parseString_loop b it (res @ [c]))))"

definition parseString :: "buffer \<Rightarrow> iterator \<Rightarrow> string \<Rightarrow> (iterator \<times> string) outcome" where
  "parseString b it res =
     (if eob b it then Some (Some IncompleteInput, it, res)
      else seq (parseString_loop b it res) (\<lambda>(it, res).
        if eob b it then Some (Some IncompleteInput, it, res) else Some (None, it, res)))"

text \<open>The loop of \<open>parseLine\<close>; the flag tells whether it returned from inside the loop.\<close>

partial_function (option) parseLine_loop :: "buffer \<Rightarrow> iterator \<Rightarrow> string \<Rightarrow> (bool \<times> iterator \<times> string) outcome" where
  "parseLine_loop b it res =
     (if eob b it then Some (None, False, it, res)
      else try_step (getChar b it) (False, it, res) (\<lambda>c.
        if c = CR then
          try_step (it_next b it) (False, it, res) (\<lambda>it.
            try_step (getChar b it) (False, it, res) (\<lambda>c2.
              if c2 = LF then try_step (it_next b it) (False, it, res) (\<lambda>it. Some (None, True, it, res))
              else Some (Some ErrorInRequest, False, it, res)))
        else try_step (it_next b it) (False, it, res @ [c]) (\<lambda>it. parseLine_loop b it (res @ [c]))))"

definition parseLine :: "buffer \<Rightarrow> iterator \<Rightarrow> string \<Rightarrow> (iterator \<times> string) outcome" where
  "parseLine b it res =
     (if eob b it then Some (Some IncompleteInput, it, res)
      else Option.bind (parseLine_loop b it res) (\<lambda>(e, returned, it, res).
        case e of
          Some x \<Rightarrow> Some (Some x, it, res)
        | None \<Rightarrow> if returned then Some (None, it, res)
                  else if eob b it then Some (Some IncompleteInput, it, res) else Some (None, it, res)))"

definition skipChar :: "buffer \<Rightarrow> char \<Rightarrow> iterator \<Rightarrow> iterator outcome" where
  "skipChar b skip it =
     (if eob b it then Some (Some IncompleteInput, it)
      else try_step (getChar b it) it (\<lambda>c.
        if c \<noteq> skip then Some (Some ErrorInRequest, it)
        else try_step (it_next b it) it (\<lambda>it. Some (None, it))))"

definition skipNewLine :: "buffer \<Rightarrow> iterator \<Rightarrow> iterator outcome" where
  "skipNewLine b it =
     (if eob b it then Some (Some IncompleteInput, it)
      else try_step (getChar b it) it (\<lambda>first.
        try_step (it_next b it) it (\<lambda>it.
          if eob b it then Some (Some IncompleteInput, it)
          else try_step (getChar b it) it (\<lambda>second.
            if first \<noteq> CR \<or> second \<noteq> LF then Some (Some ErrorInRequest, it)
            else try_step (it_next b it) it (\<lambda>it. Some (None, it))))))"

definition isEmptyLine :: "string \<Rightarrow> bool" where
  "isEmptyLine line \<longleftrightarrow> length line = 2 \<and> line = [CR, LF]"

section \<open>Requests\<close>

text \<open>The value a \<open>try\<close> block's handlers return.\<close>

definition return_code :: "exn option \<Rightarrow> int result" where
  "return_code e = (case e of None \<Rightarrow> Inr 0 | Some IncompleteInput \<Rightarrow> Inr 1 | Some ErrorInRequest \<Rightarrow> Inr (- 1)
                            | Some (Faulted f) \<Rightarrow> Inl f)"

partial_function (option) skip_headers :: "buffer \<Rightarrow> iterator \<Rightarrow> iterator outcome" where
  "skip_headers b it =
     Option.bind (parseLine b it []) (\<lambda>(e, it, dummy).
       case e of
         Some x \<Rightarrow> Some (Some x, it)
       | None \<Rightarrow> if length dummy = 0 then Some (None, it) else skip_headers b it)"

text \<open>The parts of \<open>parseRequest\<close>, each on the iterator and the request.\<close>

definition on_iterator :: "(iterator \<Rightarrow> iterator outcome) \<Rightarrow> iterator \<times> 'r \<Rightarrow> (iterator \<times> 'r) outcome" where
  "on_iterator f s = (case s of (it, r) \<Rightarrow> Option.bind (f it) (\<lambda>(e, it). Some (e, it, r)))"

definition into_field ::
    "(iterator \<Rightarrow> string \<Rightarrow> (iterator \<times> string) outcome) \<Rightarrow> ('r \<Rightarrow> string) \<Rightarrow> (string \<Rightarrow> 'r \<Rightarrow> 'r) \<Rightarrow>
     iterator \<times> 'r \<Rightarrow> (iterator \<times> 'r) outcome" where
  "into_field f get put s = (case s of (it, r) \<Rightarrow> Option.bind (f it (get r)) (\<lambda>(e, it, v). Some (e, it, put v r)))"

definition parseRequest :: "buffer \<Rightarrow> iterator \<Rightarrow> request \<Rightarrow> (int result \<times> iterator \<times> request) option" where
  "parseRequest b it r =
     Option.bind
       (seq (seq (seq (seq (seq (seq (seq
         (into_field (parseString b) rq_method (\<lambda>v r. r\<lparr>rq_method := v\<rparr>) (it, request_clear r))
         (on_iterator (skipChar b (CHR '' ''))))
         (on_iterator (skipChar b (CHR ''/''))))
         (into_field (parseString b) rq_address (\<lambda>v r. r\<lparr>rq_address := v\<rparr>)))
         (on_iterator (skipChar b (CHR '' ''))))
         (into_field (parseString b) rq_version (\<lambda>v r. r\<lparr>rq_version := v\<rparr>)))
         (on_iterator (skipNewLine b)))
         (on_iterator (skip_headers b)))
       (\<lambda>(e, it, r). Some (return_code e, it, r))"

section \<open>Responses\<close>

definition lengthString :: string where
  "lengthString = ''Content-Length:''"

fun occurs :: "string \<Rightarrow> string \<Rightarrow> bool" where
  "occurs pat [] \<longleftrightarrow> pat = []"
| "occurs pat (c # s) \<longleftrightarrow> take (length pat) (c # s) = pat \<or> occurs pat s"

text \<open>\<open>ostringstream <<\<close> of an unsigned number.\<close>

fun dec :: "nat \<Rightarrow> string" where
  "dec n = (if n < 10 then [] else dec (n div 10)) @ [char_of (48 + n mod 10)]"

declare dec.simps [simp del]

text \<open>
  What \<open>istringstream >> size_t\<close> makes of the variable: white space is skipped, then an optional sign and digits are
  taken.  When nothing is left behind the white space the variable keeps its value \<open>old\<close>; no digits give 0, more than a
  \<open>size_t\<close> holds gives its largest value, and a minus sign negates modulo 2^64.
\<close>

definition is_space :: "char \<Rightarrow> bool" where
  "is_space c \<longleftrightarrow> c = CHR '' '' \<or> c = CHR 0x09 \<or> c = LF \<or> c = CHR 0x0B \<or> c = CHR 0x0C \<or> c = CR"

definition is_digit :: "char \<Rightarrow> bool" where
  "is_digit c \<longleftrightarrow> of_char c \<ge> (48 :: nat) \<and> of_char c \<le> (57 :: nat)"

definition digits_value :: "string \<Rightarrow> nat" where
  "digits_value ds = foldl (\<lambda>v c. 10 * v + (of_char c - 48)) 0 ds"

definition read_size :: "nat \<Rightarrow> string \<Rightarrow> nat" where
  "read_size old s =
     (let s = dropWhile is_space s
      in if s = [] then old
         else
           let neg = (hd s = CHR ''-'');
               s = (if hd s = CHR ''-'' \<or> hd s = CHR ''+'' then tl s else s);
               v = digits_value (takeWhile is_digit s)
           in if v \<ge> 2 ^ 64 then 2 ^ 64 - 1 else if neg then nat ((- int v) mod 2 ^ 64) else v)"

text \<open>
  What a header line does to \<open>contentSize\<close>: \<open>string(line, sizeof(lengthString))\<close> starts at position 16
  and throws when the line is shorter.
\<close>

definition line_length :: "string \<Rightarrow> nat \<Rightarrow> nat result" where
  "line_length line contentSize =
     (if occurs lengthString line then
        if length line < 16 then Inl OutOfRange else Inr (read_size contentSize (drop 16 line))
      else Inr contentSize)"

partial_function (option) response_headers ::
    "buffer \<Rightarrow> nat \<Rightarrow> iterator \<Rightarrow> response \<Rightarrow> (nat \<times> iterator \<times> response) outcome" where
  "response_headers b contentSize it r =
     Option.bind (parseLine b it []) (\<lambda>(e, it, line).
       case e of
         Some x \<Rightarrow> Some (Some x, contentSize, it, r)
       | None \<Rightarrow>
           if line = [] then Some (None, contentSize, it, r)
           else try_step (line_length line contentSize) (contentSize, it, r) (\<lambda>contentSize.
             response_headers b contentSize it (r\<lparr>rs_headerRemainder := rs_headerRemainder r @ line\<rparr>)))"

primrec read_body :: "buffer \<Rightarrow> nat \<Rightarrow> iterator \<times> response \<Rightarrow> (iterator \<times> response) outcome" where
  "read_body b 0 s = Some (None, s)"
| "read_body b (Suc n) s =
     (case s of (it, r) \<Rightarrow>
        try_step (getChar b it) (it, r) (\<lambda>c.
          let r = r\<lparr>rs_body := rs_body r @ [c]\<rparr> in
          try_step (it_next b it) (it, r) (\<lambda>it. read_body b n (it, r))))"

definition parseResponse :: "buffer \<Rightarrow> iterator \<Rightarrow> response \<Rightarrow> (int result \<times> iterator \<times> response) option" where
  "parseResponse b it r =
     Option.bind
       (seq (into_field (parseLine b) rs_statusLine (\<lambda>v r. r\<lparr>rs_statusLine := v\<rparr>) (it, response_clear r)) (\<lambda>(it, r).
          Option.bind (response_headers b 0 it r) (\<lambda>(e, contentSize, it, r).
            case e of
              Some x \<Rightarrow> Some (Some x, it, r)
            | None \<Rightarrow>
                if it_bytes_total it - it_bytes_read it < contentSize then Some (Some IncompleteInput, it, r)
                else read_body b contentSize (it, r))))
       (\<lambda>(e, it, r). Some (return_code e, it, r))"

end
