(* ===== verification/Http_Correct.thy ===== *)
theory Http_Correct
  imports Http_Parser "HOL-Library.Sublist"
begin

text \<open>
  What the HTTP parser does on the contents of a buffer: it recognises the requests and responses it
  is meant to, asks for more input on their prefixes, and reads a byte that was never written when the
  input ends in a carriage return.
\<close>

section \<open>An iterator at a given rest of the input\<close>

definition at_rest :: "buffer \<Rightarrow> nat \<Rightarrow> iterator \<Rightarrow> string \<Rightarrow> bool" where
  "at_rest b N it s \<longleftrightarrow> it_ok b it \<and> it_rest b it = s \<and> it_bytes_read it + length s = N \<and> it_bytes_total it = N"

lemma at_rest_begin:
  assumes "readable b"
  shows "\<exists>it. buffer_begin b = Inr it \<and> at_rest b (length (contents b)) it (contents b)"
  using begin_ok [of b] assms by (auto simp: at_rest_def readable_def)

lemma at_rest_eob [simp]: "at_rest b N it s \<Longrightarrow> eob b it \<longleftrightarrow> s = []"
  using eob_iff by (auto simp: at_rest_def)

lemma at_rest_getChar: "at_rest b N it (c # s) \<Longrightarrow> getChar b it = Inr c"
  using getChar_ok [of b it] by (auto simp: at_rest_def)

lemma at_rest_next: "at_rest b N it (c # s) \<Longrightarrow> \<exists>it'. it_next b it = Inr it' \<and> at_rest b N it' s"
  using next_ok [of b it] by (fastforce simp: at_rest_def)

definition token_char :: "char \<Rightarrow> bool" where
  "token_char c \<longleftrightarrow> c \<noteq> CHR '' '' \<and> c \<noteq> CR"

abbreviation token :: "string \<Rightarrow> bool" where
  "token w \<equiv> list_all token_char w"

lemma parseString_loop_at:
  assumes "at_rest b N it (w @ t)" "token w" "t \<noteq> [] \<longrightarrow> \<not> token_char (hd t)"
  shows "\<exists>it'. parseString_loop b it res = Some (None, it', res @ w) \<and> at_rest b N it' t"
  using assms(1,2)
proof (induction w arbitrary: it res)
  case Nil
  then show ?case
    using assms(3) by (cases t; subst parseString_loop.simps) (auto simp: at_rest_getChar token_char_def)
next
  case (Cons c w)
  obtain it' where "it_next b it = Inr it'" "at_rest b N it' (w @ t)"
    using at_rest_next Cons.prems(1) by force
  then show ?case
    using Cons.prems Cons.IH [of it' "res @ [c]"]
    by (subst parseString_loop.simps) (auto simp: at_rest_getChar token_char_def)
qed

lemma parseString_at:
  assumes "at_rest b N it (w @ c # t)" "token w" "\<not> token_char c"
  shows "\<exists>it'. parseString b it res = Some (None, it', res @ w) \<and> at_rest b N it' (c # t)"
  using parseString_loop_at [OF assms(1,2), of res] assms(1,3) by (auto simp: parseString_def)

lemma parseString_short:
  assumes "at_rest b N it w" "token w"
  shows "\<exists>it' res'. parseString b it res = Some (Some IncompleteInput, it', res')"
  using parseString_loop_at [of b N it w "[]" res] assms by (auto simp: parseString_def)

lemma skipChar_at:
  assumes "at_rest b N it (c # t)"
  shows "\<exists>it'. skipChar b c it = Some (None, it') \<and> at_rest b N it' t"
  using at_rest_next [OF assms] assms by (auto simp: skipChar_def at_rest_getChar)

lemma skipChar_other:
  assumes "at_rest b N it (d # t)" "d \<noteq> c"
  shows "skipChar b c it = Some (Some ErrorInRequest, it)"
  using assms by (auto simp: skipChar_def at_rest_getChar)

lemma skipChar_short: "at_rest b N it [] \<Longrightarrow> skipChar b c it = Some (Some IncompleteInput, it)"
  by (simp add: skipChar_def)

lemma skipNewLine_at:
  assumes "at_rest b N it (CR # LF # t)"
  shows "\<exists>it'. skipNewLine b it = Some (None, it') \<and> at_rest b N it' t"
proof -
  obtain it1 where 1: "it_next b it = Inr it1" "at_rest b N it1 (LF # t)"
    using at_rest_next [OF assms] by blast
  obtain it2 where "it_next b it1 = Inr it2" "at_rest b N it2 t"
    using at_rest_next [OF 1(2)] by blast
  then show ?thesis
    using assms 1 by (simp add: skipNewLine_def at_rest_getChar)
qed

lemma skipNewLine_short:
  assumes "at_rest b N it t" "t = [] \<or> t = [CR]"
  shows "\<exists>it'. skipNewLine b it = Some (Some IncompleteInput, it')"
  using at_rest_next [of b N it CR "[]"] assms by (auto simp: skipNewLine_def at_rest_getChar)

lemma parseLine_loop_at:
  assumes "at_rest b N it (w @ t)" "CR \<notin> set w" "t = [] \<or> (\<exists>u. t = CR # LF # u)"
  shows "\<exists>it'. parseLine_loop b it res = Some (None, t \<noteq> [], it', res @ w) \<and> at_rest b N it' (drop 2 t)"
  using assms(1,2)
proof (induction w arbitrary: it res)
  case Nil
  show ?case
  proof (cases "t = []")
    case False
    then obtain u where t: "t = CR # LF # u" using assms(3) by blast
    then obtain it1 where 1: "it_next b it = Inr it1" "at_rest b N it1 (LF # u)"
      using at_rest_next Nil by force
    obtain it2 where "it_next b it1 = Inr it2" "at_rest b N it2 u"
      using at_rest_next [OF 1(2)] by blast
    then show ?thesis
      using Nil 1 t by (subst parseLine_loop.simps) (auto simp: at_rest_getChar)
  qed (use Nil in \<open>subst parseLine_loop.simps, auto\<close>)
next
  case (Cons c w)
  obtain it' where "it_next b it = Inr it'" "at_rest b N it' (w @ t)"
    using at_rest_next Cons.prems(1) by force
  then show ?case
    using Cons.prems Cons.IH [of it' "res @ [c]"]
    by (subst parseLine_loop.simps) (auto simp: at_rest_getChar)
qed

lemma parseLine_at:
  assumes "at_rest b N it (w @ CR # LF # t)" "CR \<notin> set w"
  shows "\<exists>it'. parseLine b it res = Some (None, it', res @ w) \<and> at_rest b N it' t"
  using parseLine_loop_at [OF assms, of res] assms(1) by (auto simp: parseLine_def)

lemma parseLine_short:
  assumes "at_rest b N it w" "CR \<notin> set w"
  shows "\<exists>it' res'. parseLine b it res = Some (Some IncompleteInput, it', res')"
  using parseLine_loop_at [of b N it w "[]" res] assms by (auto simp: parseLine_def)

text \<open>The text of a list of header lines.\<close>

definition lines_text :: "string list \<Rightarrow> string" where
  "lines_text hs = concat (map (\<lambda>h. h @ [CR, LF]) hs)"

definition header_lines :: "string list \<Rightarrow> bool" where
  "header_lines hs \<longleftrightarrow> (\<forall>h \<in> set hs. h \<noteq> [] \<and> CR \<notin> set h)"

lemma lines_text_simps [simp]:
  "lines_text [] = []" "lines_text (h # hs) = h @ CR # LF # lines_text hs"
  by (simp_all add: lines_text_def)

lemma header_lines_simps [simp]:
  "header_lines []" "header_lines (h # hs) \<longleftrightarrow> h \<noteq> [] \<and> CR \<notin> set h \<and> header_lines hs"
  by (auto simp: header_lines_def)

lemma skip_headers_at:
  assumes "at_rest b N it (lines_text hs @ CR # LF # t)" "header_lines hs"
  shows "\<exists>it'. skip_headers b it = Some (None, it') \<and> at_rest b N it' t"
  using assms
proof (induction hs arbitrary: it)
  case Nil
  then show ?case
    using parseLine_at [of b N it "[]" t "[]"] by (subst skip_headers.simps) auto
next
  case (Cons h hs)
  obtain it' where "parseLine b it [] = Some (None, it', h)" "at_rest b N it' (lines_text hs @ CR # LF # t)"
    using parseLine_at [of b N it h "lines_text hs @ CR # LF # t" "[]"] Cons.prems by auto
  then show ?case
    using Cons.IH [of it'] Cons.prems by (subst skip_headers.simps) auto
qed

section \<open>Requests\<close>

text \<open>The start line of a request and the whole request.\<close>

definition start_line :: "request \<Rightarrow> string" where
  "start_line r = rq_method r @ '' /'' @ rq_address r @ '' '' @ rq_version r @ [CR, LF]"

definition request_text :: "request \<Rightarrow> string list \<Rightarrow> string" where
  "request_text r hs = start_line r @ lines_text hs @ [CR, LF]"

definition tokens :: "request \<Rightarrow> bool" where
  "tokens r \<longleftrightarrow> token (rq_method r) \<and> token (rq_address r) \<and> token (rq_version r)"

lemma stop_chars [simp]: "\<not> token_char (CHR '' '')" "\<not> token_char CR"
  by (simp_all add: token_char_def)

lemma parse_start_line:
  assumes "at_rest b N it (start_line r @ t)" "tokens r"
  shows "\<exists>it'. parseRequest b it r0 =
      Option.bind (on_iterator (skip_headers b) (it', r)) (\<lambda>(e, it, r). Some (return_code e, it, r)) \<and>
    at_rest b N it' t"
proof -
  let ?m = "rq_method r" and ?a = "rq_address r" and ?v = "rq_version r"
  have tk: "token ?m" "token ?a" "token ?v" using assms(2) by (simp_all add: tokens_def)
  have "at_rest b N it (?m @ CHR '' '' # (CHR ''/'' # ?a @ CHR '' '' # ?v @ CR # LF # t))"
    using assms(1) by (simp add: start_line_def)
  then obtain it1 where 1: "parseString b it [] = Some (None, it1, ?m)"
    "at_rest b N it1 (CHR '' '' # (CHR ''/'' # ?a @ CHR '' '' # ?v @ CR # LF # t))"
    using parseString_at [OF _ tk(1) stop_chars(1), of b N it _ "[]"] by auto
  obtain it2 where 2: "skipChar b (CHR '' '') it1 = Some (None, it2)" "at_rest b N it2 (CHR ''/'' # ?a @ CHR '' '' # ?v @ CR # LF # t)"
    using skipChar_at [OF 1(2)] by blast
  obtain it3 where 3: "skipChar b (CHR ''/'') it2 = Some (None, it3)" "at_rest b N it3 (?a @ CHR '' '' # ?v @ CR # LF # t)"
    using skipChar_at [OF 2(2)] by blast
  obtain it4 where 4: "parseString b it3 [] = Some (None, it4, ?a)" "at_rest b N it4 (CHR '' '' # ?v @ CR # LF # t)"
    using parseString_at [OF 3(2) tk(2) stop_chars(1), of "[]"] by auto
  obtain it5 where 5: "skipChar b (CHR '' '') it4 = Some (None, it5)" "at_rest b N it5 (?v @ CR # LF # t)"
    using skipChar_at [OF 4(2)] by blast
  obtain it6 where 6: "parseString b it5 [] = Some (None, it6, ?v)" "at_rest b N it6 (CR # LF # t)"
    using parseString_at [OF 5(2) tk(3) stop_chars(2), of "[]"] by auto
  obtain it7 where 7: "skipNewLine b it6 = Some (None, it7)" "at_rest b N it7 t"
    using skipNewLine_at [OF 6(2)] by blast
  show ?thesis
    using 1 2 3 4 5 6 7
    by (intro exI [of _ it7]) (cases r, cases r0, simp add: parseRequest_def into_field_def on_iterator_def request_clear_def)
qed

lemma request_parsed:
  assumes "readable b" "contents b = request_text r hs @ tail" "tokens r" "header_lines hs"
  shows "\<exists>it it'. buffer_begin b = Inr it \<and> parseRequest b it r0 = Some (Inr 0, it', r) \<and>
    it_bytes_read it' = length (request_text r hs)"
proof -
  obtain it where it: "buffer_begin b = Inr it" "at_rest b (length (contents b)) it (start_line r @ lines_text hs @ CR # LF # tail)"
    using at_rest_begin [OF assms(1)] assms(2) by (auto simp: request_text_def)
  obtain it1 where 1: "parseRequest b it r0 =
      Option.bind (on_iterator (skip_headers b) (it1, r)) (\<lambda>(e, it, r). Some (return_code e, it, r))"
    "at_rest b (length (contents b)) it1 (lines_text hs @ CR # LF # tail)"
    using parse_start_line [OF it(2) assms(3)] by blast
  obtain it' where 2: "skip_headers b it1 = Some (None, it')" "at_rest b (length (contents b)) it' tail"
    using skip_headers_at [OF 1(2) assms(4)] by blast
  have "it_bytes_read it' = length (request_text r hs)"
    using 2(2) assms(2) by (simp add: at_rest_def)
  then show ?thesis
    using it(1) 1(1) 2(1) by (auto simp: on_iterator_def return_code_def)
qed

text \<open>C23: A request with any header lines at the front of the input parses with result 0: the fields are
  those of the start line, and consuming the bytes the iterator has read leaves what follows the
  request.\<close>

theorem parse_request_ok:
  assumes "stream_ok b" "contents b = request_text r hs @ tail" "tokens r" "header_lines hs"
  shows "\<exists>it it' b'. buffer_begin b = Inr it \<and> parseRequest b it r0 = Some (Inr 0, it', r) \<and>
    it_bytes_read it' = length (request_text r hs) \<and> consume (it_bytes_read it') b = Inr b' \<and> contents b' = tail"
proof -
  obtain b' where "consume (length (request_text r hs)) b = Inr b'" "contents b' = tail"
    using stream_ok_consume [OF assms(1)] assms(2) by force
  then show ?thesis
    using request_parsed [OF stream_ok_readable [OF assms(1)] assms(2-4), of r0] by auto
qed

section \<open>Prefixes of requests\<close>

text \<open>
  A step of a parser takes the text \<open>w\<close>, provided \<open>nxt\<close> follows, and reports incomplete input on every
  proper prefix of both that does not end in a carriage return.
\<close>

definition takes :: "buffer \<Rightarrow> nat \<Rightarrow> ('s \<Rightarrow> iterator) \<Rightarrow> ('s \<Rightarrow> 's outcome) \<Rightarrow> string \<Rightarrow> string \<Rightarrow> bool" where
  "takes b N pos f w nxt \<longleftrightarrow>
     (\<forall>s t. at_rest b N (pos s) (w @ nxt @ t) \<longrightarrow> (\<exists>s'. f s = Some (None, s') \<and> at_rest b N (pos s') (nxt @ t))) \<and>
     (\<forall>s p. at_rest b N (pos s) p \<and> strict_prefix p (w @ nxt) \<and> (p = [] \<or> last p \<noteq> CR) \<longrightarrow>
        (\<exists>s'. f s = Some (Some IncompleteInput, s')))"

inductive chain :: "buffer \<Rightarrow> nat \<Rightarrow> ('s \<Rightarrow> iterator) \<Rightarrow> ('s \<Rightarrow> 's outcome) list \<Rightarrow> string \<Rightarrow> bool" for b N pos where
  chain_Nil: "chain b N pos [] []"
| chain_Cons: "takes b N pos f w nxt \<Longrightarrow> prefix nxt W \<Longrightarrow> chain b N pos fs W \<Longrightarrow> chain b N pos (f # fs) (w @ W)"

lemma seq_stopped: "foldl seq (Some (Some x, s)) fs = Some (Some x, s)"
  by (induction fs) simp_all

lemma chain_short:
  assumes "chain b N pos fs W" "at_rest b N (pos s) p" "strict_prefix p W" "p = [] \<or> last p \<noteq> CR"
  shows "\<exists>s'. foldl seq (Some (None, s)) fs = Some (Some IncompleteInput, s')"
  using assms
proof (induction arbitrary: s p)
  case (chain_Cons f w nxt W fs)
  show ?case
  proof (cases "strict_prefix p (w @ nxt)")
    case True
    then obtain s' where "f s = Some (Some IncompleteInput, s')"
      using chain_Cons.hyps(1) chain_Cons.prems by (auto simp: takes_def)
    then show ?thesis by (simp add: seq_stopped)
  next
    case False
    obtain V where V: "W = nxt @ V"
      using chain_Cons.hyps(2) by (auto simp: prefix_def)
    have "prefix p ((w @ nxt) @ V)" "p \<noteq> w @ W"
      using chain_Cons.prems(2) V by (auto simp: strict_prefix_def)
    then obtain t where t: "p = w @ nxt @ t" "strict_prefix (nxt @ t) W"
      using False V by (auto simp: prefix_append strict_prefix_def)
    then obtain s' where s': "f s = Some (None, s')" "at_rest b N (pos s') (nxt @ t)"
      using chain_Cons.hyps(1) chain_Cons.prems(1) unfolding takes_def by blast
    have "nxt @ t = [] \<or> last (nxt @ t) \<noteq> CR"
      using chain_Cons.prems(3) t(1) last_appendR [of "nxt @ t" w] by (cases "nxt @ t") auto
    then show ?thesis
      using chain_Cons.IH [OF s'(2) t(2)] s'(1) by simp
  qed
qed simp

lemma prefix_of_token:
  assumes "strict_prefix p (w @ [c])"
  shows "prefix p w"
  using assms by (metis prefix_order.less_imp_le prefix_order.less_irrefl prefix_snoc)

lemma takes_parseString:
  assumes "token w" "\<not> token_char c"
  shows "takes b N fst (into_field (parseString b) get put) w [c]"
  unfolding takes_def
proof (intro conjI allI impI)
  fix s :: "iterator \<times> 'a" and t
  assume "at_rest b N (fst s) (w @ [c] @ t)"
  then show "\<exists>s'. into_field (parseString b) get put s = Some (None, s') \<and> at_rest b N (fst s') ([c] @ t)"
    using parseString_at [OF _ assms(1,2), of b N "fst s" t "get (snd s)"]
    by (auto simp: into_field_def case_prod_beta)
next
  fix s :: "iterator \<times> 'a" and p
  assume a: "at_rest b N (fst s) p \<and> strict_prefix p (w @ [c]) \<and> (p = [] \<or> last p \<noteq> CR)"
  then have "token p"
    using prefix_of_token [of p w c] assms(1) by (auto simp: prefix_def)
  then show "\<exists>s'. into_field (parseString b) get put s = Some (Some IncompleteInput, s')"
    using parseString_short [of b N "fst s" p "get (snd s)"] a by (auto simp: into_field_def case_prod_beta)
qed

lemma takes_on_iterator:
  assumes "takes b N id f w nxt"
  shows "takes b N fst (on_iterator f) w nxt"
  unfolding takes_def
proof (intro conjI allI impI)
  fix s :: "iterator \<times> 'a" and t
  assume "at_rest b N (fst s) (w @ nxt @ t)"
  then show "\<exists>s'. on_iterator f s = Some (None, s') \<and> at_rest b N (fst s') (nxt @ t)"
    using assms unfolding takes_def by (cases s) (fastforce simp: on_iterator_def)
next
  fix s :: "iterator \<times> 'a" and p
  assume "at_rest b N (fst s) p \<and> strict_prefix p (w @ nxt) \<and> (p = [] \<or> last p \<noteq> CR)"
  then show "\<exists>s'. on_iterator f s = Some (Some IncompleteInput, s')"
    using assms unfolding takes_def by (cases s) (fastforce simp: on_iterator_def)
qed

lemma takes_skipChar: "takes b N id (skipChar b c) [c] []"
  unfolding takes_def
proof (intro conjI allI impI)
  fix s t assume "at_rest b N (id s) ([c] @ [] @ t)"
  then show "\<exists>s'. skipChar b c s = Some (None, s') \<and> at_rest b N (id s') ([] @ t)"
    using skipChar_at [of b N s c t] by simp
next
  fix s p assume "at_rest b N (id s) p \<and> strict_prefix p ([c] @ []) \<and> (p = [] \<or> last p \<noteq> CR)"
  then show "\<exists>s'. skipChar b c s = Some (Some IncompleteInput, s')"
    using skipChar_short [of b N s c] by (auto simp: strict_prefix_def prefix_Cons)
qed

lemma takes_skipNewLine: "takes b N id (skipNewLine b) [CR, LF] []"
  unfolding takes_def
proof (intro conjI allI impI)
  fix s t assume "at_rest b N (id s) ([CR, LF] @ [] @ t)"
  then show "\<exists>s'. skipNewLine b s = Some (None, s') \<and> at_rest b N (id s') ([] @ t)"
    using skipNewLine_at [of b N s t] by simp
next
  fix s p assume "at_rest b N (id s) p \<and> strict_prefix p ([CR, LF] @ []) \<and> (p = [] \<or> last p \<noteq> CR)"
  then show "\<exists>s'. skipNewLine b s = Some (Some IncompleteInput, s')"
    using skipNewLine_short [of b N s p] by (auto simp: strict_prefix_def prefix_Cons)
qed

lemma strict_prefix_line:
  assumes "strict_prefix p (h @ CR # LF # t)" "p = [] \<or> last p \<noteq> CR"
  obtains "prefix p h" | q where "p = h @ CR # LF # q" "strict_prefix q t"
proof -
  have p: "prefix p (h @ CR # LF # t)" "p \<noteq> h @ CR # LF # t"
    using assms(1) by (auto simp: strict_prefix_def)
  then consider "prefix p h" | q where "p = h @ q" "prefix q (CR # LF # t)"
    by (auto simp: prefix_append)
  then show thesis
  proof cases
    case 2
    then consider "q = []" | "q = [CR]" | u where "q = CR # LF # u" "prefix u t"
      by (auto simp: prefix_Cons)
    then show ?thesis
      using that 2 p(2) assms(2) by cases (auto simp: strict_prefix_def)
  qed (rule that(1))
qed

lemma skip_headers_short:
  assumes "at_rest b N it p" "strict_prefix p (lines_text hs @ [CR, LF])" "p = [] \<or> last p \<noteq> CR" "header_lines hs"
  shows "\<exists>it'. skip_headers b it = Some (Some IncompleteInput, it')"
  using assms
proof (induction hs arbitrary: it p)
  case Nil
  then have "p = []"
    by (auto simp: strict_prefix_def prefix_Cons)
  then show ?case
    using Nil parseLine_short [of b N it "[]" "[]"] by (subst skip_headers.simps) auto
next
  case (Cons h hs)
  have "strict_prefix p (h @ CR # LF # (lines_text hs @ [CR, LF]))"
    using Cons.prems(2) by simp
  then consider "prefix p h" | q where "p = h @ CR # LF # q" "strict_prefix q (lines_text hs @ [CR, LF])"
    using strict_prefix_line [OF _ Cons.prems(3)] by blast
  then show ?case
  proof cases
    case 1
    then have "CR \<notin> set p"
      using Cons.prems(4) by (auto simp: prefix_def)
    then show ?thesis
      using parseLine_short [OF Cons.prems(1), of "[]"] by (subst skip_headers.simps) auto
  next
    case (2 q)
    then obtain it' where "parseLine b it [] = Some (None, it', h)" "at_rest b N it' q"
      using parseLine_at [of b N it h q "[]"] Cons.prems by auto
    moreover have "q = [] \<or> last q \<noteq> CR"
      using Cons.prems(3) 2(1) by (auto split: if_splits)
    ultimately show ?thesis
      using Cons.IH [of it' q] Cons.prems(4) 2(2) by (subst skip_headers.simps) auto
  qed
qed

lemma takes_skip_headers:
  assumes "header_lines hs"
  shows "takes b N id (skip_headers b) (lines_text hs @ [CR, LF]) []"
  unfolding takes_def
proof (intro conjI allI impI)
  fix s t assume "at_rest b N (id s) ((lines_text hs @ [CR, LF]) @ [] @ t)"
  then show "\<exists>s'. skip_headers b s = Some (None, s') \<and> at_rest b N (id s') ([] @ t)"
    using skip_headers_at [OF _ assms, of b N s t] by simp
next
  fix s p assume "at_rest b N (id s) p \<and> strict_prefix p ((lines_text hs @ [CR, LF]) @ []) \<and> (p = [] \<or> last p \<noteq> CR)"
  then show "\<exists>s'. skip_headers b s = Some (Some IncompleteInput, s')"
    using skip_headers_short [of b N s p hs] assms by simp
qed

text \<open>The steps of \<open>parseRequest\<close>, and the text each of them takes.\<close>

definition request_steps :: "buffer \<Rightarrow> (iterator \<times> request \<Rightarrow> (iterator \<times> request) outcome) list" where
  "request_steps b =
     [into_field (parseString b) rq_method (\<lambda>v r. r\<lparr>rq_method := v\<rparr>), on_iterator (skipChar b (CHR '' '')),
      on_iterator (skipChar b (CHR ''/'')), into_field (parseString b) rq_address (\<lambda>v r. r\<lparr>rq_address := v\<rparr>),
      on_iterator (skipChar b (CHR '' '')), into_field (parseString b) rq_version (\<lambda>v r. r\<lparr>rq_version := v\<rparr>),
      on_iterator (skipNewLine b), on_iterator (skip_headers b)]"

lemma parseRequest_steps:
  "parseRequest b it r =
     Option.bind (foldl seq (Some (None, it, request_clear r)) (request_steps b)) (\<lambda>(e, it, r). Some (return_code e, it, r))"
  by (simp add: parseRequest_def request_steps_def)

lemma chain_str:
  assumes "token w" "\<not> token_char c" "chain b N fst fs (c # W)"
  shows "chain b N fst (into_field (parseString b) get put # fs) (w @ c # W)"
  using chain_Cons [OF takes_parseString [OF assms(1,2)] _ assms(3)] by simp

lemma chain_char:
  assumes "chain b N fst fs W"
  shows "chain b N fst (on_iterator (skipChar b c) # fs) (c # W)"
  using chain_Cons [OF takes_on_iterator [OF takes_skipChar] _ assms] by simp

lemma chain_newline:
  assumes "chain b N fst fs W"
  shows "chain b N fst (on_iterator (skipNewLine b) # fs) (CR # LF # W)"
  using chain_Cons [OF takes_on_iterator [OF takes_skipNewLine] _ assms] by simp

lemma chain_headers:
  assumes "header_lines hs"
  shows "chain b N fst [on_iterator (skip_headers b)] (lines_text hs @ [CR, LF])"
  using chain_Cons [OF takes_on_iterator [OF takes_skip_headers [OF assms]] _ chain_Nil] by simp

lemma chain_request:
  assumes "tokens r" "header_lines hs"
  shows "chain b N fst (request_steps b) (request_text r hs)"
proof -
  have tk: "token (rq_method r)" "token (rq_address r)" "token (rq_version r)"
    using assms(1) by (simp_all add: tokens_def)
  show ?thesis
    unfolding request_steps_def request_text_def start_line_def
    by (simp, intro chain_str chain_char chain_newline chain_headers stop_chars tk assms(2))
qed

lemma request_unfinished:
  assumes "at_rest b N it p" "strict_prefix p (request_text r hs)" "p = [] \<or> last p \<noteq> CR" "tokens r" "header_lines hs"
  shows "\<exists>it' r'. parseRequest b it r0 = Some (Inr 1, it', r')"
proof -
  have "\<exists>s'. foldl seq (Some (None, it, request_clear r0)) (request_steps b) = Some (Some IncompleteInput, s')"
    using chain_short [OF chain_request [OF assms(4,5), of b N] _ assms(2,3)] assms(1) by simp
  then show ?thesis
    by (auto simp: parseRequest_steps return_code_def)
qed

text \<open>C24: On every proper prefix of a request, with any header lines, that does not end in a carriage
  return, the parser asks for more input (result 1).\<close>

theorem parse_request_prefix:
  assumes "stream_ok b" "strict_prefix (contents b) (request_text r hs)" "contents b = [] \<or> last (contents b) \<noteq> CR"
    and "tokens r" "header_lines hs"
  shows "\<exists>it it' r'. buffer_begin b = Inr it \<and> parseRequest b it r0 = Some (Inr 1, it', r')"
  using at_rest_begin [OF stream_ok_readable [OF assms(1)]] request_unfinished [OF _ assms(2-5)] by blast

section \<open>A carriage return at the end of the input\<close>

text \<open>The byte behind the last one that was written.\<close>

definition stale_byte :: "buffer \<Rightarrow> char" where
  "stale_byte b = b_chunks b ! pos_idx (b_wpos b) ! pos_off (b_wpos b)"

lemma getChar_stale:
  assumes "at_rest b N it []" "stream_ok b"
  shows "getChar b it = Inr (stale_byte b)"
proof -
  have "eob b it" "it_chunk it = pos_idx (it_pos it)"
    using assms(1) at_rest_eob [OF assms(1)] by (simp_all add: at_rest_def it_ok_def)
  then have "it_pos it = b_wpos b" "it_chunk it = pos_idx (b_wpos b)"
    by (auto simp: eob_def split: if_splits)
  moreover have "pos_idx (b_wpos b) < length (b_chunks b)" "pos_off (b_wpos b) < BlockSize"
    "length (b_chunks b ! pos_idx (b_wpos b)) = BlockSize"
    using assms(2) buf_ok_wpos [OF stream_okD(1) [OF assms(2)]] by (auto simp: stream_ok_def buf_ok_def writeSize_def)
  ultimately show ?thesis
    by (simp add: getChar_def deque_at_def stale_byte_def)
qed

lemma parseLine_loop_stale:
  assumes "at_rest b N it (w @ [CR])" "CR \<notin> set w" "stream_ok b" "stale_byte b \<noteq> LF"
  shows "\<exists>it' res'. parseLine_loop b it res = Some (Some ErrorInRequest, False, it', res')"
  using assms(1,2)
proof (induction w arbitrary: it res)
  case Nil
  then obtain it1 where "it_next b it = Inr it1" "at_rest b N it1 []"
    using at_rest_next by force
  then show ?case
    using Nil getChar_stale [OF _ assms(3)] assms(4) by (subst parseLine_loop.simps) (auto simp: at_rest_getChar)
next
  case (Cons c w)
  obtain it' where "it_next b it = Inr it'" "at_rest b N it' (w @ [CR])"
    using at_rest_next Cons.prems(1) by force
  then show ?case
    using Cons.prems Cons.IH [of it' "res @ [c]"]
    by (subst parseLine_loop.simps) (auto simp: at_rest_getChar)
qed

lemma skip_headers_stale:
  assumes "at_rest b N it (lines_text hs @ w @ [CR])" "header_lines hs" "CR \<notin> set w" "stream_ok b" "stale_byte b \<noteq> LF"
  shows "\<exists>it'. skip_headers b it = Some (Some ErrorInRequest, it')"
  using assms(1,2)
proof (induction hs arbitrary: it)
  case Nil
  then obtain it' res' where "parseLine b it [] = Some (Some ErrorInRequest, it', res')"
    using parseLine_loop_stale [OF _ assms(3-5), of N it "[]"] by (fastforce simp: parseLine_def)
  then show ?case
    by (subst skip_headers.simps) simp
next
  case (Cons h hs)
  then obtain it' where "parseLine b it [] = Some (None, it', h)" "at_rest b N it' (lines_text hs @ w @ [CR])"
    using parseLine_at [of b N it h "lines_text hs @ w @ [CR]" "[]"] by auto
  then show ?case
    using Cons.IH [of it'] Cons.prems by (subst skip_headers.simps) auto
qed

text \<open>When the input so far ends in the carriage return of a header line, the parser looks at the byte
  behind it, which nobody has written yet; unless that byte happens to be a line feed, a request that is
  only incomplete is rejected (result -1).\<close>

theorem parse_request_stale_byte:
  assumes "stream_ok b" "contents b = start_line r @ lines_text hs @ w @ [CR]" "tokens r" "header_lines hs"
    and "CR \<notin> set w" "stale_byte b \<noteq> LF"
  shows "\<exists>it it' r'. buffer_begin b = Inr it \<and> parseRequest b it r0 = Some (Inr (- 1), it', r')"
proof -
  obtain it where it: "buffer_begin b = Inr it" "at_rest b (length (contents b)) it (start_line r @ lines_text hs @ w @ [CR])"
    using at_rest_begin [OF stream_ok_readable [OF assms(1)]] assms(2) by auto
  obtain it1 where 1: "parseRequest b it r0 =
      Option.bind (on_iterator (skip_headers b) (it1, r)) (\<lambda>(e, it, r). Some (return_code e, it, r))"
    "at_rest b (length (contents b)) it1 (lines_text hs @ w @ [CR])"
    using parse_start_line [OF it(2) assms(3)] by blast
  then show ?thesis
    using skip_headers_stale [OF 1(2) assms(4,5,1,6)] it(1) by (auto simp: on_iterator_def return_code_def)
qed

section \<open>Requests written by the client\<close>

lemma toBuffer_text:
  assumes "stream_ok out"
  shows "\<exists>out'. toBuffer raw r out = Inr out' \<and> stream_ok out' \<and>
    contents out' = contents out @ c_str (rq_method r) @ '' '' @ c_str (rq_address r) @ '' '' @ c_str (rq_version r) @ [CR, LF, CR, LF]"
proof -
  have w: "\<exists>b'. buffer_write raw data b = Inr b' \<and> stream_ok b' \<and> contents b' = contents b @ data" if "stream_ok b" for b data
    using stream_ok_write [OF that] .
  obtain b1 where 1: "buffer_write raw (c_str (rq_method r)) out = Inr b1" "stream_ok b1" "contents b1 = contents out @ c_str (rq_method r)"
    using w [OF assms] by blast
  obtain b2 where 2: "buffer_write raw '' '' b1 = Inr b2" "stream_ok b2" "contents b2 = contents b1 @ '' ''"
    using w [OF 1(2)] by blast
  obtain b3 where 3: "buffer_write raw (c_str (rq_address r)) b2 = Inr b3" "stream_ok b3" "contents b3 = contents b2 @ c_str (rq_address r)"
    using w [OF 2(2)] by blast
  obtain b4 where 4: "buffer_write raw '' '' b3 = Inr b4" "stream_ok b4" "contents b4 = contents b3 @ '' ''"
    using w [OF 3(2)] by blast
  obtain b5 where 5: "buffer_write raw (c_str (rq_version r)) b4 = Inr b5" "stream_ok b5" "contents b5 = contents b4 @ c_str (rq_version r)"
    using w [OF 4(2)] by blast
  show ?thesis
    using w [OF 5(2), of "[CR, LF, CR, LF]"] 1 2 3 4 5 by (auto simp: toBuffer_def)
qed

lemma c_str_id: "CHR 0x00 \<notin> set s \<Longrightarrow> c_str s = s"
  by (auto simp: c_str_def takeWhile_eq_all_conv)

lemma parse_unslashed:
  assumes "at_rest b N it (m @ '' '' @ c # t)" "token m" "c \<noteq> CHR ''/''"
  shows "\<exists>it' r'. parseRequest b it r0 = Some (Inr (- 1), it', r')"
proof -
  obtain it1 where 1: "parseString b it [] = Some (None, it1, m)" "at_rest b N it1 (CHR '' '' # c # t)"
    using parseString_at [OF _ assms(2) stop_chars(1), of b N it "c # t" "[]"] assms(1) by auto
  obtain it2 where 2: "skipChar b (CHR '' '') it1 = Some (None, it2)" "at_rest b N it2 (c # t)"
    using skipChar_at [OF 1(2)] by blast
  show ?thesis
    using 1 2 skipChar_other [OF 2(2) assms(3)]
    by (simp add: parseRequest_def into_field_def on_iterator_def request_clear_def return_code_def)
qed

text \<open>C26: A request that \<open>toBuffer\<close> writes into a buffer is parsed back from it, without the slash its
  address begins with; a request whose address has no leading slash is written all the same and is
  rejected by the parser (result -1).\<close>

theorem request_roundtrip:
  assumes "tokens r" "CHR 0x00 \<notin> set (rq_method r @ rq_address r @ rq_version r)"
  shows "\<exists>b it c it' r'. toBuffer raw r (new_buffer raw) = Inr b \<and> buffer_begin b = Inr it \<and>
    parseRequest b it r0 = Some (c, it', r') \<and>
    (\<forall>a. rq_address r = CHR ''/'' # a \<longrightarrow> c = Inr 0 \<and> r' = r\<lparr>rq_address := a\<rparr> \<and> eob b it') \<and>
    ((\<nexists>a. rq_address r = CHR ''/'' # a) \<longrightarrow> c = Inr (- 1))"
proof -
  obtain b where b: "toBuffer raw r (new_buffer raw) = Inr b" "stream_ok b"
    "contents b = rq_method r @ '' '' @ rq_address r @ '' '' @ rq_version r @ [CR, LF, CR, LF]"
    using toBuffer_text [OF stream_ok_new, of raw r raw] new_buffer_ok(4) assms(2) by (auto simp: c_str_id)
  obtain it where it: "buffer_begin b = Inr it" "at_rest b (length (contents b)) it (contents b)"
    using at_rest_begin [OF stream_ok_readable [OF b(2)]] by blast
  show ?thesis
  proof (cases "\<exists>a. rq_address r = CHR ''/'' # a")
    case True
    then obtain a where a: "rq_address r = CHR ''/'' # a" by blast
    let ?r = "r\<lparr>rq_address := a\<rparr>"
    have "at_rest b (length (contents b)) it (start_line ?r @ [CR, LF])" "tokens ?r"
      using it(2) b(3) a assms(1) by (auto simp: start_line_def tokens_def)
    then obtain it1 where 1: "parseRequest b it r0 =
        Option.bind (on_iterator (skip_headers b) (it1, ?r)) (\<lambda>(e, it, r). Some (return_code e, it, r))"
      "at_rest b (length (contents b)) it1 [CR, LF]"
      using parse_start_line by blast
    obtain it2 where "skip_headers b it1 = Some (None, it2)" "at_rest b (length (contents b)) it2 []"
      using skip_headers_at [of b _ it1 "[]" "[]"] 1(2) by auto
    then show ?thesis
      using 1(1) b(1) it(1) a by (auto simp: on_iterator_def return_code_def)
  next
    case False
    obtain c t where "rq_address r @ '' '' @ rq_version r @ [CR, LF, CR, LF] = c # t" "c \<noteq> CHR ''/''"
      using False by (cases "rq_address r") auto
    then have "\<exists>it' r'. parseRequest b it r0 = Some (Inr (- 1), it', r')"
      using parse_unslashed [of b _ it "rq_method r" c t] it(2) b(3) assms(1) by (auto simp: tokens_def)
    then show ?thesis
      using False b(1) it(1) by blast
  qed
qed

section \<open>Responses\<close>

text \<open>The effect of a list of header lines on \<open>contentSize\<close>.\<close>

primrec lines_length :: "string list \<Rightarrow> nat \<Rightarrow> nat result" where
  "lines_length [] n = Inr n"
| "lines_length (h # hs) n = rbind (line_length h n) (lines_length hs)"

lemma dec_chars: "c \<in> set (dec n) \<Longrightarrow> 48 \<le> (of_char c :: nat) \<and> (of_char c :: nat) \<le> 57"
proof (induction n rule: dec.induct)
  case (1 n)
  have "n mod 10 < 10"
    by simp
  then have "(of_char (char_of (48 + n mod 10) :: char) :: nat) = 48 + n mod 10"
    by (simp add: of_char_of)
  then show ?case
    using 1 by (auto simp: dec.simps [of n] split: if_splits)
qed

lemma dec_no_char: "of_char c < (48 :: nat) \<Longrightarrow> c \<notin> set (dec n)"
  using dec_chars by fastforce

lemma digits_value_snoc: "digits_value (ds @ [c]) = 10 * digits_value ds + (of_char c - 48)"
  by (simp add: digits_value_def)

lemma dec_value: "digits_value (dec n) = n"
proof (induction n rule: dec.induct)
  case (1 n)
  have "(of_char (char_of (48 + n mod 10) :: char) :: nat) = 48 + n mod 10"
    by (simp add: of_char_of)
  then show ?case
    using 1 by (simp add: dec.simps [of n] digits_value_snoc) (simp add: digits_value_def)
qed

lemma dec_nonempty: "dec n \<noteq> []"
  by (simp add: dec.simps [of n])

lemma read_size_dec:
  assumes "n < 2 ^ 64"
  shows "read_size old (dec n) = n"
proof -
  obtain c ds where d: "dec n = c # ds"
    using dec_nonempty by (cases "dec n") auto
  have digit: "\<forall>c \<in> set (dec n). is_digit c"
    using dec_chars by (auto simp: is_digit_def)
  then have "48 \<le> (of_char c :: nat)"
    using d by (simp add: is_digit_def)
  then have "\<not> is_space c" "c \<noteq> CHR ''-''" "c \<noteq> CHR ''+''"
    by (auto simp: is_space_def)
  moreover have tw: "takeWhile is_digit ds = ds"
    using digit d by simp
  ultimately show ?thesis
    using assms digit d dec_value [of n] by (simp add: read_size_def tw Let_def)
qed

text \<open>
  The header lines \<open>hs\<close> announce a body of \<open>n\<close> bytes: one of them is \<open>Content-Length:\<close>, a blank or any other
  character, and \<open>n\<close> in decimal, and none of the others speaks of a length; or \<open>n\<close> is 0 and none does.
\<close>

definition silent :: "string list \<Rightarrow> bool" where
  "silent hs \<longleftrightarrow> (\<forall>h \<in> set hs. \<not> occurs ''Content-Length:'' h)"

definition announces :: "string list \<Rightarrow> nat \<Rightarrow> bool" where
  "announces hs n \<longleftrightarrow> n < 2 ^ 64 \<and>
     (n = 0 \<and> silent hs \<or> (\<exists>pre c post. hs = pre @ (''Content-Length:'' @ c # dec n) # post \<and> silent pre \<and> silent post))"

lemma silent_lines: "silent hs \<Longrightarrow> lines_length (hs @ hs') n = lines_length hs' n"
  by (induction hs) (simp_all add: silent_def line_length_def lengthString_def)

lemma length_line:
  assumes "n < 2 ^ 64"
  shows "line_length (''Content-Length:'' @ c # dec n) old = Inr n"
  using read_size_dec [OF assms] by (simp add: line_length_def lengthString_def)

lemma announced_length:
  assumes "announces hs n"
  shows "lines_length hs 0 = Inr n"
proof (cases "n = 0 \<and> silent hs")
  case True
  then show ?thesis
    using silent_lines [of hs "[]"] by simp
next
  case False
  then obtain pre c post where h: "hs = pre @ (''Content-Length:'' @ c # dec n) # post" "silent pre" "silent post"
    using assms unfolding announces_def by blast
  then show ?thesis
    using silent_lines [OF h(2)] silent_lines [OF h(3), of "[]"] length_line [of n c 0] assms by (simp add: announces_def)
qed

lemma response_headers_at:
  assumes "at_rest b N it (lines_text hs @ CR # LF # t)" "header_lines hs" "lines_length hs n = Inr n'"
  shows "\<exists>it'. response_headers b n it r = Some (None, n', it', r\<lparr>rs_headerRemainder := rs_headerRemainder r @ concat hs\<rparr>) \<and>
    at_rest b N it' t"
  using assms
proof (induction hs arbitrary: it n r)
  case Nil
  then show ?case
    using parseLine_at [of b N it "[]" t "[]"] by (subst response_headers.simps) auto
next
  case (Cons h hs)
  obtain it' where "parseLine b it [] = Some (None, it', h)" "at_rest b N it' (lines_text hs @ CR # LF # t)"
    using parseLine_at [of b N it h "lines_text hs @ CR # LF # t" "[]"] Cons.prems by auto
  moreover obtain n1 where "line_length h n = Inr n1" "lines_length hs n1 = Inr n'"
    using Cons.prems(3) by (auto simp: rbind_Inr_iff)
  ultimately show ?case
    using Cons.IH [of it' n1 "r\<lparr>rs_headerRemainder := rs_headerRemainder r @ h\<rparr>"] Cons.prems
    by (subst response_headers.simps) auto
qed

lemma response_headers_short:
  assumes "at_rest b N it (lines_text hs @ part)" "header_lines hs" "lines_length hs n = Inr n'" "CR \<notin> set part"
  shows "\<exists>n1 it' r'. response_headers b n it r = Some (Some IncompleteInput, n1, it', r')"
  using assms
proof (induction hs arbitrary: it n r)
  case Nil
  then obtain it' res where "parseLine b it [] = Some (Some IncompleteInput, it', res)"
    using parseLine_short [of b N it part "[]"] by auto
  then show ?case
    by (subst response_headers.simps) auto
next
  case (Cons h hs)
  obtain it' where "parseLine b it [] = Some (None, it', h)" "at_rest b N it' (lines_text hs @ part)"
    using parseLine_at [of b N it h "lines_text hs @ part" "[]"] Cons.prems by auto
  moreover obtain n1 where "line_length h n = Inr n1" "lines_length hs n1 = Inr n'"
    using Cons.prems(3) by (auto simp: rbind_Inr_iff)
  ultimately show ?case
    using Cons.IH [of it' n1 "r\<lparr>rs_headerRemainder := rs_headerRemainder r @ h\<rparr>"] Cons.prems
    by (subst response_headers.simps) auto
qed

lemma read_body_at:
  assumes "at_rest b N it (w @ t)"
  shows "\<exists>it'. read_body b (length w) (it, r) = Some (None, it', r\<lparr>rs_body := rs_body r @ w\<rparr>) \<and> at_rest b N it' t"
  using assms
proof (induction w arbitrary: it r)
  case (Cons c w)
  obtain it' where "it_next b it = Inr it'" "at_rest b N it' (w @ t)"
    using at_rest_next Cons.prems(1) by force
  then show ?case
    using Cons.IH [of it' "r\<lparr>rs_body := rs_body r @ [c]\<rparr>"] Cons.prems by (auto simp: at_rest_getChar)
qed simp

lemma response_parsed:
  assumes "readable b" "contents b = status @ [CR, LF] @ lines_text hs @ [CR, LF] @ rest"
    and "CR \<notin> set status" "header_lines hs" "lines_length hs 0 = Inr n"
  shows "\<exists>it it' r'. buffer_begin b = Inr it \<and>
    (if n \<le> length rest
     then parseResponse b it r0 = Some (Inr 0, it', \<lparr>rs_statusLine = status, rs_headerRemainder = concat hs, rs_body = take n rest\<rparr>) \<and>
          at_rest b (length (contents b)) it' (drop n rest)
     else parseResponse b it r0 = Some (Inr 1, it', r'))"
proof -
  let ?N = "length (contents b)"
  obtain it where it: "buffer_begin b = Inr it" "at_rest b ?N it (status @ CR # LF # (lines_text hs @ CR # LF # rest))"
    using at_rest_begin [OF assms(1)] assms(2) by auto
  obtain it1 where 1: "parseLine b it [] = Some (None, it1, status)" "at_rest b ?N it1 (lines_text hs @ CR # LF # rest)"
    using parseLine_at [OF it(2) assms(3), of "[]"] by auto
  let ?r = "\<lparr>rs_statusLine = status, rs_headerRemainder = concat hs, rs_body = []\<rparr>"
  obtain it2 where 2: "response_headers b 0 it1 \<lparr>rs_statusLine = status, rs_headerRemainder = [], rs_body = []\<rparr> = Some (None, n, it2, ?r)"
    "at_rest b ?N it2 rest"
    using response_headers_at [OF 1(2) assms(4,5), of "\<lparr>rs_statusLine = status, rs_headerRemainder = [], rs_body = []\<rparr>"] by auto
  have left: "it_bytes_total it2 - it_bytes_read it2 = length rest"
    using 2(2) unfolding at_rest_def by linarith
  have eq: "parseResponse b it r0 =
      Option.bind (if length rest < n then Some (Some IncompleteInput, it2, ?r) else read_body b n (it2, ?r))
        (\<lambda>(e, it, r). Some (return_code e, it, r))"
    using 1(1) 2(1) left by (cases r0) (simp add: parseResponse_def into_field_def response_clear_def)
  show ?thesis
  proof (cases "n \<le> length rest")
    case True
    obtain it3 where "read_body b n (it2, ?r) = Some (None, it3, ?r\<lparr>rs_body := take n rest\<rparr>)" "at_rest b ?N it3 (drop n rest)"
      using read_body_at [of b ?N it2 "take n rest" "drop n rest" ?r] 2(2) True by auto
    then show ?thesis
      using True eq it(1) by (auto simp: return_code_def)
  qed (use eq it(1) in \<open>auto simp: return_code_def\<close>)
qed

lemma response_cut:
  assumes "readable b" "contents b = status @ [CR, LF] @ lines_text hs @ part" "CR \<notin> set status" "header_lines hs"
    and "lines_length hs 0 = Inr n" "CR \<notin> set part"
  shows "\<exists>it it' r'. buffer_begin b = Inr it \<and> parseResponse b it r0 = Some (Inr 1, it', r')"
proof -
  obtain it where it: "buffer_begin b = Inr it" "at_rest b (length (contents b)) it (status @ CR # LF # (lines_text hs @ part))"
    using at_rest_begin [OF assms(1)] assms(2) by auto
  obtain it1 where 1: "parseLine b it [] = Some (None, it1, status)" "at_rest b (length (contents b)) it1 (lines_text hs @ part)"
    using parseLine_at [OF it(2) assms(3), of "[]"] by auto
  show ?thesis
    using response_headers_short [OF 1(2) assms(4-6), of "\<lparr>rs_statusLine = status, rs_headerRemainder = [], rs_body = []\<rparr>"] 1(1) it(1)
    by (cases r0) (auto simp: parseResponse_def into_field_def response_clear_def return_code_def)
qed

text \<open>C27: A response whose header lines announce a body of \<open>n\<close> bytes, by a single \<open>Content-Length:\<close> line
  with \<open>n\<close> in decimal or by none when \<open>n\<close> is 0, is parsed when at least \<open>n\<close> bytes follow: status line, the joined
  header lines and the body are returned, and the iterator is behind the body.  With fewer bytes the parser asks for more input.\<close>

theorem parse_response_ok:
  assumes "stream_ok b" "contents b = status @ [CR, LF] @ lines_text hs @ [CR, LF] @ rest"
    and "CR \<notin> set status" "header_lines hs" "announces hs n"
  shows "\<exists>it it' r'. buffer_begin b = Inr it \<and>
    (if n \<le> length rest
     then parseResponse b it r0 = Some (Inr 0, it', \<lparr>rs_statusLine = status, rs_headerRemainder = concat hs, rs_body = take n rest\<rparr>) \<and>
          it_bytes_read it' = length (contents b) - length (drop n rest)
     else parseResponse b it r0 = Some (Inr 1, it', r'))"
  using response_parsed [OF stream_ok_readable [OF assms(1)] assms(2-4) announced_length [OF assms(5)], of r0] by (auto simp: at_rest_def split: if_splits)

text \<open>A line whose value is blank leaves the length that an earlier line announced.\<close>

lemma blank_length_kept: "line_length (''Content-Length:'' @ CHR '' '' # replicate k (CHR '' '')) old = Inr old"
  by (simp add: line_length_def lengthString_def read_size_def is_space_def)

text \<open>A \<open>Content-Length:\<close> line without a value ends the process: the parser takes the rest of the line
  from position 16, one past its end, and nothing catches the exception.\<close>

theorem bare_content_length_throws:
  assumes "stream_ok b" "contents b = status @ [CR, LF] @ lengthString @ [CR, LF] @ rest" "CR \<notin> set status"
  shows "\<exists>it it' r'. buffer_begin b = Inr it \<and> parseResponse b it r0 = Some (Inl OutOfRange, it', r')"
proof -
  have ls: "CR \<notin> set lengthString" "lengthString \<noteq> []" "length lengthString = 15" "occurs lengthString lengthString"
    by (simp_all add: lengthString_def)
  obtain it where it: "buffer_begin b = Inr it" "at_rest b (length (contents b)) it (status @ CR # LF # (lengthString @ CR # LF # rest))"
    using at_rest_begin [OF stream_ok_readable [OF assms(1)]] assms(2) by auto
  obtain it1 where 1: "parseLine b it [] = Some (None, it1, status)" "at_rest b (length (contents b)) it1 (lengthString @ CR # LF # rest)"
    using parseLine_at [OF it(2) assms(3), of "[]"] by auto
  obtain it2 where 2: "parseLine b it1 [] = Some (None, it2, lengthString)"
    using parseLine_at [OF 1(2) ls(1), of "[]"] by auto
  then have "response_headers b 0 it1 r = Some (Some (Faulted OutOfRange), 0, it2, r)" for r
    using ls by (subst response_headers.simps) (simp add: line_length_def)
  then show ?thesis
    using 1(1) it(1) by (simp add: parseResponse_def into_field_def response_clear_def return_code_def)
qed

section \<open>The properties on concrete messages\<close>

definition demo_request :: request where
  "demo_request = \<lparr>rq_method = ''GET'', rq_address = ''a'', rq_version = ''HTTP/1.1''\<rparr>"

lemma demo_request_facts: "tokens demo_request" "header_lines [''Host: x'']"
  by (simp_all add: demo_request_def tokens_def token_char_def)

theorem parse_request_ok_witness:
  "\<exists>it it' b'. buffer_begin (demo_buffer (request_text demo_request [''Host: x''] @ ''GET'')) = Inr it \<and>
     parseRequest (demo_buffer (request_text demo_request [''Host: x''] @ ''GET'')) it demo_request = Some (Inr 0, it', demo_request) \<and>
     consume (it_bytes_read it') (demo_buffer (request_text demo_request [''Host: x''] @ ''GET'')) = Inr b' \<and> contents b' = ''GET''"
proof -
  have "length (request_text demo_request [''Host: x''] @ ''GET'') < BlockSize"
    by (simp add: request_text_def start_line_def demo_request_def BlockSize_def)
  note d = demo_buffer_facts [OF this]
  show ?thesis
    using parse_request_ok [OF d(1,2) demo_request_facts, of demo_request] by blast
qed

theorem parse_request_prefix_witness:
  "\<exists>it it' r'. buffer_begin (demo_buffer ''GET /a'') = Inr it \<and>
     parseRequest (demo_buffer ''GET /a'') it demo_request = Some (Inr 1, it', r')"
proof -
  have "length ''GET /a'' < BlockSize"
    by (simp add: BlockSize_def)
  note d = demo_buffer_facts [OF this]
  have "strict_prefix ''GET /a'' (request_text demo_request [''Host: x''])"
    by (simp add: request_text_def start_line_def demo_request_def)
  then show ?thesis
    using parse_request_prefix [of "demo_buffer ''GET /a''" demo_request "[''Host: x'']" demo_request] d demo_request_facts by simp
qed

lemma demo_stale:
  assumes "length data < BlockSize"
  shows "stale_byte (demo_buffer data) = CHR 0x00"
  using assms
  by (simp add: stale_byte_def demo_buffer_def stored_def new_buffer_fields put_bytes_def Let_def nth_append)

theorem parse_request_stale_byte_witness:
  "\<exists>it it' r'. buffer_begin (demo_buffer (start_line demo_request @ ''Host: x'' @ [CR])) = Inr it \<and>
     parseRequest (demo_buffer (start_line demo_request @ ''Host: x'' @ [CR])) it demo_request = Some (Inr (- 1), it', r')"
proof -
  have l: "length (start_line demo_request @ ''Host: x'' @ [CR]) < BlockSize"
    by (simp add: start_line_def demo_request_def BlockSize_def)
  note d = demo_buffer_facts [OF l]
  show ?thesis
    using parse_request_stale_byte [of "demo_buffer (start_line demo_request @ ''Host: x'' @ [CR])" demo_request "[]" "''Host: x''" demo_request]
      d demo_request_facts demo_stale [OF l] by simp
qed

theorem request_roundtrip_witness:
  "\<exists>b it it'. toBuffer (\<lambda>_ _. CHR 0x00) (demo_request\<lparr>rq_address := ''/a''\<rparr>) (new_buffer (\<lambda>_ _. CHR 0x00)) = Inr b \<and>
     buffer_begin b = Inr it \<and> parseRequest b it demo_request = Some (Inr 0, it', demo_request)"
  using request_roundtrip [of "demo_request\<lparr>rq_address := ''/a''\<rparr>" "\<lambda>_ _. CHR 0x00" demo_request]
  by (auto simp: demo_request_def tokens_def token_char_def)

lemma two_bytes: "announces [''Content-Length: 2''] 2"
proof -
  have "dec 2 = ''2''"
    by code_simp
  then have "[''Content-Length: 2''] = [] @ (''Content-Length:'' @ CHR '' '' # dec 2) # []" "silent []"
    by (simp_all add: silent_def)
  then show ?thesis
    unfolding announces_def by (intro conjI disjI2, simp) blast
qed

theorem parse_response_ok_witness:
  "\<exists>it it'. buffer_begin (demo_buffer (''OK'' @ [CR, LF] @ ''Content-Length: 2'' @ [CR, LF, CR, LF] @ ''hi'')) = Inr it \<and>
     parseResponse (demo_buffer (''OK'' @ [CR, LF] @ ''Content-Length: 2'' @ [CR, LF, CR, LF] @ ''hi'')) it
       \<lparr>rs_statusLine = [], rs_headerRemainder = [], rs_body = []\<rparr> =
     Some (Inr 0, it', \<lparr>rs_statusLine = ''OK'', rs_headerRemainder = ''Content-Length: 2'', rs_body = ''hi''\<rparr>)"
proof -
  let ?d = "''OK'' @ [CR, LF] @ ''Content-Length: 2'' @ [CR, LF, CR, LF] @ ''hi''"
  have l: "length ?d < BlockSize"
    by (simp add: BlockSize_def)
  note d = demo_buffer_facts [OF l]
  have c: "contents (demo_buffer ?d) = ''OK'' @ [CR, LF] @ lines_text [''Content-Length: 2''] @ [CR, LF] @ ''hi''"
    using d(2) by simp
  have n: "announces [''Content-Length: 2''] 2"
    by (rule two_bytes)
  show ?thesis
    using parse_response_ok [OF d(1) c _ _ n, of "\<lparr>rs_statusLine = [], rs_headerRemainder = [], rs_body = []\<rparr>"] by auto
qed

theorem bare_content_length_throws_witness:
  "\<exists>it it' r'. buffer_begin (demo_buffer (''OK'' @ [CR, LF] @ lengthString @ [CR, LF] @ [])) = Inr it \<and>
     parseResponse (demo_buffer (''OK'' @ [CR, LF] @ lengthString @ [CR, LF] @ [])) it
       \<lparr>rs_statusLine = [], rs_headerRemainder = [], rs_body = []\<rparr> = Some (Inl OutOfRange, it', r')"
proof -
  have l: "length (''OK'' @ [CR, LF] @ lengthString @ [CR, LF] @ []) < BlockSize"
    by (simp add: lengthString_def BlockSize_def)
  show ?thesis
    using bare_content_length_throws [OF demo_buffer_facts(1,2) [OF l]] by simp
qed

end
