(* ===== verification/Barrier.thy ===== *)
theory Barrier
  imports Spin_Locks
begin

text \<open>
  The barrier of two semaphores (\<open>thread_barrier.hpp\<close>) and the notification (\<open>lock.hpp\<close>).  A step is one
  call on a semaphore or the piece of \<open>wait\<close> between two calls; the state also counts how many threads
  have ever arrived and left.
\<close>

section \<open>The barrier\<close>

datatype barrier_pc = BOut | BArrive | BArrived | BWait | BDepart | BDeparted

record barrier =
  ba_arrival :: nat          \<comment> \<open>value of the semaphore \<open>arrival_\<close>\<close>
  ba_departure :: nat        \<comment> \<open>value of the semaphore \<open>departure_\<close>\<close>
  ba_num_participants :: int
  ba_counter :: int
  ba_pc :: "tid \<Rightarrow> barrier_pc"
  ba_arrived :: int
  ba_left :: int

definition new_barrier :: "int \<Rightarrow> barrier" where
  "new_barrier num_participants =
     \<lparr>ba_arrival = 1, ba_departure = 0, ba_num_participants = num_participants, ba_counter = 0,
      ba_pc = (\<lambda>_. BOut), ba_arrived = 0, ba_left = 0\<rparr>"

definition ba_goto :: "tid \<Rightarrow> barrier_pc \<Rightarrow> barrier \<Rightarrow> barrier" where
  "ba_goto t p s = s\<lparr>ba_pc := (ba_pc s)(t := p)\<rparr>"

inductive barrier_step :: "barrier \<Rightarrow> barrier \<Rightarrow> bool" where
  wait_arrival: "ba_pc s t = BOut \<Longrightarrow> ba_arrival s > 0 \<Longrightarrow>
    barrier_step s (ba_goto t BArrive (s\<lparr>ba_arrival := ba_arrival s - 1\<rparr>))"
| count_in: "ba_pc s t = BArrive \<Longrightarrow>
    barrier_step s (ba_goto t BArrived (s\<lparr>ba_counter := ba_counter s + 1, ba_arrived := ba_arrived s + 1\<rparr>))"
| post_in: "ba_pc s t = BArrived \<Longrightarrow>
    barrier_step s (ba_goto t BWait
      (if ba_counter s < ba_num_participants s then s\<lparr>ba_arrival := ba_arrival s + 1\<rparr>
       else s\<lparr>ba_departure := ba_departure s + 1\<rparr>))"
| wait_departure: "ba_pc s t = BWait \<Longrightarrow> ba_departure s > 0 \<Longrightarrow>
    barrier_step s (ba_goto t BDepart (s\<lparr>ba_departure := ba_departure s - 1\<rparr>))"
| count_out: "ba_pc s t = BDepart \<Longrightarrow>
    barrier_step s (ba_goto t BDeparted (s\<lparr>ba_counter := ba_counter s - 1, ba_left := ba_left s + 1\<rparr>))"
| post_out: "ba_pc s t = BDeparted \<Longrightarrow>
    barrier_step s (ba_goto t BOut
      (if ba_counter s > 0 then s\<lparr>ba_departure := ba_departure s + 1\<rparr>
       else s\<lparr>ba_arrival := ba_arrival s + 1\<rparr>))"

text \<open>The one token of the two semaphores is in a semaphore or with a thread between two calls.\<close>

definition ba_holds :: "barrier \<Rightarrow> tid \<Rightarrow> bool" where
  "ba_holds s t \<longleftrightarrow> ba_pc s t \<in> {BArrive, BArrived, BDepart, BDeparted}"

text \<open>
  The two phases, in round \<open>k\<close>: while threads arrive, all those of the earlier rounds have left; while
  threads leave, all those of this round have arrived.
\<close>

definition ba_arriving :: "barrier \<Rightarrow> int \<Rightarrow> bool" where
  "ba_arriving s k \<longleftrightarrow> ba_left s = k * ba_num_participants s \<and> ba_departure s = 0 \<and> ba_left s \<le> ba_arrived s \<and>
     ba_arrived s + (if \<exists>t. ba_pc s t = BArrived then 0 else 1) \<le> (k + 1) * ba_num_participants s \<and>
     (\<forall>t. ba_pc s t \<noteq> BDepart \<and> ba_pc s t \<noteq> BDeparted)"

definition ba_leaving :: "barrier \<Rightarrow> int \<Rightarrow> bool" where
  "ba_leaving s k \<longleftrightarrow> ba_arrived s = (k + 1) * ba_num_participants s \<and> ba_arrival s = 0 \<and>
     ba_left s + (if \<exists>t. ba_pc s t = BDeparted then 0 else 1) \<le> (k + 1) * ba_num_participants s \<and>
     (\<forall>t. ba_pc s t \<noteq> BArrive \<and> ba_pc s t \<noteq> BArrived)"

definition barrier_inv :: "barrier \<Rightarrow> bool" where
  "barrier_inv s \<longleftrightarrow> ba_num_participants s > 0 \<and>
     ba_counter s = ba_arrived s - ba_left s \<and>
     (\<forall>t u. ba_holds s t \<and> ba_holds s u \<longrightarrow> t = u) \<and>
     (\<forall>t. ba_holds s t \<longrightarrow> ba_arrival s = 0 \<and> ba_departure s = 0) \<and>
     ba_arrival s + ba_departure s \<le> 1 \<and>
     (\<exists>k. ba_arriving s k \<or> ba_leaving s k)"

text \<open>No thread holds the token while a semaphore has it, and the holder is the only one.\<close>

lemma ba_holds_goto [simp]:
  "ba_holds (ba_goto t p s) u \<longleftrightarrow> (if u = t then p \<in> {BArrive, BArrived, BDepart, BDeparted} else ba_holds s u)"
  "ba_holds (s\<lparr>ba_arrival := a\<rparr>) u = ba_holds s u" "ba_holds (s\<lparr>ba_departure := a\<rparr>) u = ba_holds s u"
  "ba_holds (s\<lparr>ba_counter := c, ba_arrived := x\<rparr>) u = ba_holds s u"
  "ba_holds (s\<lparr>ba_counter := c, ba_left := x\<rparr>) u = ba_holds s u"
  by (simp_all add: ba_holds_def ba_goto_def)

lemma ba_goto_fields [simp]:
  "ba_arrival (ba_goto t p s) = ba_arrival s" "ba_departure (ba_goto t p s) = ba_departure s"
  "ba_num_participants (ba_goto t p s) = ba_num_participants s" "ba_counter (ba_goto t p s) = ba_counter s"
  "ba_arrived (ba_goto t p s) = ba_arrived s" "ba_left (ba_goto t p s) = ba_left s"
  "ba_pc (ba_goto t p s) = (ba_pc s)(t := p)"
  by (simp_all add: ba_goto_def)

lemma barrier_inv_other:
  assumes "barrier_inv s" "ba_holds s t"
  shows "ba_holds s u \<longleftrightarrow> u = t"
  using assms by (auto simp: barrier_inv_def)

lemma holder_pcs:
  "ba_pc s u = BArrive \<Longrightarrow> ba_holds s u" "ba_pc s u = BArrived \<Longrightarrow> ba_holds s u"
  "ba_pc s u = BDepart \<Longrightarrow> ba_holds s u" "ba_pc s u = BDeparted \<Longrightarrow> ba_holds s u"
  by (simp_all add: ba_holds_def)

lemma not_holder_pcs:
  "\<not> ba_holds s u \<Longrightarrow> ba_pc s u \<noteq> BArrive \<and> ba_pc s u \<noteq> BArrived \<and> ba_pc s u \<noteq> BDepart \<and> ba_pc s u \<noteq> BDeparted"
  by (simp add: ba_holds_def)

text \<open>The first and second call on a semaphore: the token goes to the thread.\<close>

lemma barrier_wait_arrival:
  assumes inv: "barrier_inv s" and t: "ba_pc s t = BOut" "ba_arrival s > 0"
  shows "barrier_inv (ba_goto t BArrive (s\<lparr>ba_arrival := ba_arrival s - 1\<rparr>))"
proof -
  let ?s' = "ba_goto t BArrive (s\<lparr>ba_arrival := ba_arrival s - 1\<rparr>)"
  have free: "\<not> ba_holds s u" and one: "ba_arrival s = 1" "ba_departure s = 0" for u
    using inv t(2) by (auto simp: barrier_inv_def)
  obtain k where "ba_arriving s k"
    using inv t(2) by (auto simp: barrier_inv_def ba_leaving_def)
  then have "ba_arriving ?s' k"
    using not_holder_pcs [OF free] by (simp add: ba_arriving_def)
  then show ?thesis
    using inv free one unfolding barrier_inv_def by auto
qed

lemma barrier_wait_departure:
  assumes inv: "barrier_inv s" and t: "ba_pc s t = BWait" "ba_departure s > 0"
  shows "barrier_inv (ba_goto t BDepart (s\<lparr>ba_departure := ba_departure s - 1\<rparr>))"
proof -
  let ?s' = "ba_goto t BDepart (s\<lparr>ba_departure := ba_departure s - 1\<rparr>)"
  have free: "\<not> ba_holds s u" and one: "ba_departure s = 1" "ba_arrival s = 0" for u
    using inv t(2) by (auto simp: barrier_inv_def)
  obtain k where "ba_leaving s k"
    using inv t(2) by (auto simp: barrier_inv_def ba_arriving_def)
  then have "ba_leaving ?s' k"
    using not_holder_pcs [OF free] by (simp add: ba_leaving_def)
  then show ?thesis
    using inv free one unfolding barrier_inv_def by auto
qed

text \<open>The counter: only the holder of the token touches it.\<close>

lemma barrier_count_in:
  assumes inv: "barrier_inv s" and t: "ba_pc s t = BArrive"
  shows "barrier_inv (ba_goto t BArrived (s\<lparr>ba_counter := ba_counter s + 1, ba_arrived := ba_arrived s + 1\<rparr>))"
proof -
  let ?s' = "ba_goto t BArrived (s\<lparr>ba_counter := ba_counter s + 1, ba_arrived := ba_arrived s + 1\<rparr>)"
  note h = barrier_inv_other [OF inv holder_pcs(1) [OF t]]
  obtain k where k: "ba_arriving s k"
    using inv t by (auto simp: barrier_inv_def ba_leaving_def)
  have "\<nexists>u. ba_pc s u = BArrived"
    using h holder_pcs(2) t by fastforce
  then have "ba_arrived s + 1 \<le> (k + 1) * ba_num_participants s"
    using k by (simp add: ba_arriving_def)
  moreover have "\<exists>u. ba_pc ?s' u = BArrived"
    by (intro exI [of _ t]) simp
  ultimately have "ba_arriving ?s' k"
    using k by (auto simp: ba_arriving_def)
  then show ?thesis
    using inv h unfolding barrier_inv_def by auto
qed

lemma barrier_count_out:
  assumes inv: "barrier_inv s" and t: "ba_pc s t = BDepart"
  shows "barrier_inv (ba_goto t BDeparted (s\<lparr>ba_counter := ba_counter s - 1, ba_left := ba_left s + 1\<rparr>))"
proof -
  let ?s' = "ba_goto t BDeparted (s\<lparr>ba_counter := ba_counter s - 1, ba_left := ba_left s + 1\<rparr>)"
  note h = barrier_inv_other [OF inv holder_pcs(3) [OF t]]
  obtain k where k: "ba_leaving s k"
    using inv t by (auto simp: barrier_inv_def ba_arriving_def)
  have "\<nexists>u. ba_pc s u = BDeparted"
    using h holder_pcs(4) t by fastforce
  then have "ba_left s + 1 \<le> (k + 1) * ba_num_participants s"
    using k by (simp add: ba_leaving_def)
  moreover have "\<exists>u. ba_pc ?s' u = BDeparted"
    by (intro exI [of _ t]) simp
  ultimately have "ba_leaving ?s' k"
    using k by (auto simp: ba_leaving_def)
  then show ?thesis
    using inv h unfolding barrier_inv_def by auto
qed

text \<open>Posting: the holder gives the token back.\<close>

lemma barrier_give:
  assumes inv: "barrier_inv s" and h: "ba_holds s t" and p: "p \<in> {BOut, BWait}"
    and s': "s' = ba_goto t p (s\<lparr>ba_arrival := 1\<rparr>) \<or> s' = ba_goto t p (s\<lparr>ba_departure := 1\<rparr>)"
    and ph: "ba_arriving s' k \<or> ba_leaving s' k"
  shows "barrier_inv s'"
proof -
  have "\<not> ba_holds s' u" for u
    using barrier_inv_other [OF inv h, of u] p s' by (auto split: if_splits)
  moreover have "ba_arrival s = 0" "ba_departure s = 0"
    using inv h by (auto simp: barrier_inv_def)
  ultimately show ?thesis
    using inv s' ph unfolding barrier_inv_def by auto
qed

lemma barrier_post_in:
  assumes inv: "barrier_inv s" and t: "ba_pc s t = BArrived"
  shows "barrier_inv (ba_goto t BWait (if ba_counter s < ba_num_participants s then s\<lparr>ba_arrival := ba_arrival s + 1\<rparr>
       else s\<lparr>ba_departure := ba_departure s + 1\<rparr>))"
proof -
  note h = barrier_inv_other [OF inv holder_pcs(2) [OF t]]
  obtain k where k: "ba_arriving s k"
    using inv t by (auto simp: barrier_inv_def ba_leaving_def)
  have z: "ba_arrival s = 0" "ba_departure s = 0"
    using inv holder_pcs(2) [OF t] by (auto simp: barrier_inv_def)
  have n: "ba_num_participants s > 0" "ba_counter s = ba_arrived s - ba_left s"
    using inv by (auto simp: barrier_inv_def)
  have kk: "ba_left s = k * ba_num_participants s" "ba_arrived s \<le> (k + 1) * ba_num_participants s"
    using k t by (auto simp: ba_arriving_def split: if_splits)
  have gone: "\<nexists>u. ((ba_pc s)(t := BWait)) u = BArrived" "\<nexists>u. ((ba_pc s)(t := BWait)) u = BArrive" "\<nexists>u. ((ba_pc s)(t := BWait)) u = BDeparted"
    using h not_holder_pcs [of s] by (auto split: if_splits)
  show ?thesis
  proof (cases "ba_counter s < ba_num_participants s")
    case True
    then have "ba_arrived s < (k + 1) * ba_num_participants s"
      using n kk(1) by (simp add: algebra_simps)
    then have "ba_arriving (ba_goto t BWait (s\<lparr>ba_arrival := 1\<rparr>)) k"
      using k gone by (auto simp: ba_arriving_def)
    then show ?thesis
      using True z barrier_give [OF inv holder_pcs(2) [OF t], of BWait] by auto
  next
    case False
    then have "ba_arrived s = (k + 1) * ba_num_participants s"
      using n kk by (simp add: algebra_simps)
    then have "ba_leaving (ba_goto t BWait (s\<lparr>ba_departure := 1\<rparr>)) k"
      using kk z n(1) gone by (auto simp: ba_leaving_def algebra_simps)
    then show ?thesis
      using False z barrier_give [OF inv holder_pcs(2) [OF t], of BWait] by auto
  qed
qed

lemma barrier_post_out:
  assumes inv: "barrier_inv s" and t: "ba_pc s t = BDeparted"
  shows "barrier_inv (ba_goto t BOut (if ba_counter s > 0 then s\<lparr>ba_departure := ba_departure s + 1\<rparr>
       else s\<lparr>ba_arrival := ba_arrival s + 1\<rparr>))"
proof -
  note h = barrier_inv_other [OF inv holder_pcs(4) [OF t]]
  obtain k where k: "ba_leaving s k"
    using inv t by (auto simp: barrier_inv_def ba_arriving_def)
  have z: "ba_arrival s = 0" "ba_departure s = 0"
    using inv holder_pcs(4) [OF t] by (auto simp: barrier_inv_def)
  have n: "ba_num_participants s > 0" "ba_counter s = ba_arrived s - ba_left s"
    using inv by (auto simp: barrier_inv_def)
  have kk: "ba_arrived s = (k + 1) * ba_num_participants s" "ba_left s \<le> (k + 1) * ba_num_participants s"
    using k t by (auto simp: ba_leaving_def split: if_splits)
  have gone: "\<nexists>u. ((ba_pc s)(t := BOut)) u = BArrived" "\<nexists>u. ((ba_pc s)(t := BOut)) u = BDepart" "\<nexists>u. ((ba_pc s)(t := BOut)) u = BDeparted"
    using h not_holder_pcs [of s] by (auto split: if_splits)
  show ?thesis
  proof (cases "ba_counter s > 0")
    case True
    then have "ba_left s < (k + 1) * ba_num_participants s"
      using n(2) kk(1) by linarith
    then have "ba_leaving (ba_goto t BOut (s\<lparr>ba_departure := 1\<rparr>)) k"
      using k gone by (auto simp: ba_leaving_def)
    then show ?thesis
      using True z barrier_give [OF inv holder_pcs(4) [OF t], of BOut] by auto
  next
    case False
    then have l: "ba_left s = (k + 1) * ba_num_participants s"
      using n(2) kk by linarith
    have "ba_arriving (ba_goto t BOut (s\<lparr>ba_arrival := 1\<rparr>)) (k + 1)"
      using l kk(1) z n(1) gone by (auto simp: ba_arriving_def algebra_simps)
    then show ?thesis
      using False z barrier_give [OF inv holder_pcs(4) [OF t], of BOut] by auto
  qed
qed

lemma barrier_step_inv:
  assumes "barrier_inv s" "barrier_step s s'"
  shows "barrier_inv s'"
  using assms(2)
  by cases (use assms(1) barrier_wait_arrival barrier_count_in barrier_post_in barrier_wait_departure barrier_count_out
      barrier_post_out in blast)+

lemma barrier_reachable_inv:
  assumes "reachable (\<lambda>s. s = new_barrier n) barrier_step s" "n > 0"
  shows "barrier_inv s \<and> ba_num_participants s = n"
  using assms(1)
proof induction
  case (start s)
  then show ?case
    using assms(2)
    by (auto simp: new_barrier_def barrier_inv_def ba_holds_def ba_arriving_def intro!: exI [of _ 0])
next
  case (continue s s')
  then have "ba_num_participants s' = n"
    by (auto elim!: barrier_step.cases)
  then show ?case
    using continue barrier_step_inv by blast
qed

text \<open>C35: No thread leaves the barrier early: in every interleaving of any number of threads, those that have
  left are at most the members of the groups of \<open>n\<close> that are complete.\<close>

theorem barrier_waits:
  assumes "n > 0" "reachable (\<lambda>s. s = new_barrier n) barrier_step s"
  shows "ba_left s \<le> n * (ba_arrived s div n)"
proof -
  have i: "barrier_inv s" "ba_num_participants s = n"
    using barrier_reachable_inv [OF assms(2,1)] by simp_all
  then obtain k where "ba_arriving s k \<or> ba_leaving s k"
    by (auto simp: barrier_inv_def)
  then show ?thesis
  proof
    assume a: "ba_arriving s k"
    then have "k * n \<le> ba_arrived s"
      using i(2) by (simp add: ba_arriving_def)
    then have "k \<le> ba_arrived s div n"
      using zdiv_mono1 [of "k * n" "ba_arrived s" n] assms(1) by simp
    then show ?thesis
      using a i(2) assms(1) by (simp add: ba_arriving_def mult.commute)
  next
    assume "ba_leaving s k"
    then show ?thesis
      using i assms(1) by (auto simp: ba_leaving_def mult.commute split: if_splits)
  qed
qed

text \<open>Two threads arrive, and the second leaves.\<close>

theorem barrier_waits_witness:
  "\<exists>s. reachable (\<lambda>s. s = new_barrier 2) barrier_step s \<and> ba_left s = 1 \<and> ba_arrived s = 2 \<and> ba_left s \<le> 2 * (ba_arrived s div 2)"
proof -
  let ?R = "reachable (\<lambda>s. s = new_barrier 2) barrier_step"
  define arrive where "arrive t s = ba_goto t BArrive (s\<lparr>ba_arrival := ba_arrival s - 1\<rparr>)" for t and s :: barrier
  define count where "count t s = ba_goto t BArrived (s\<lparr>ba_counter := ba_counter s + 1, ba_arrived := ba_arrived s + 1\<rparr>)" for t and s :: barrier
  define post where "post t s = ba_goto t BWait (if ba_counter s < ba_num_participants s then s\<lparr>ba_arrival := ba_arrival s + 1\<rparr>
    else s\<lparr>ba_departure := ba_departure s + 1\<rparr>)" for t and s :: barrier
  note defs = arrive_def count_def post_def new_barrier_def ba_goto_def
  define s3 where "s3 = post 0 (count 0 (arrive 0 (new_barrier 2)))"
  define s6 where "s6 = post 1 (count 1 (arrive 1 s3))"
  define s7 where "s7 = ba_goto 1 BDepart (s6\<lparr>ba_departure := ba_departure s6 - 1\<rparr>)"
  define s8 where "s8 = ba_goto 1 BDeparted (s7\<lparr>ba_counter := ba_counter s7 - 1, ba_left := ba_left s7 + 1\<rparr>)"
  have through: "?R (post t (count t (arrive t s)))" if "?R s" "ba_pc s t = BOut" "ba_arrival s > 0" for t s
  proof -
    have "?R (arrive t s)"
      unfolding arrive_def by (rule reachable.continue [OF that(1)], rule barrier_step.wait_arrival [OF that(2,3)])
    then have "?R (count t (arrive t s))"
      unfolding count_def by (rule reachable.continue) (rule barrier_step.count_in, simp add: arrive_def ba_goto_def)
    then show ?thesis
      unfolding post_def by (rule reachable.continue) (rule barrier_step.post_in, simp add: count_def ba_goto_def)
  qed
  have "?R s3"
    unfolding s3_def by (rule through) (simp_all add: reachable.start new_barrier_def)
  then have "?R s6"
    unfolding s6_def by (rule through) (simp_all add: s3_def defs)
  then have "?R s7"
    unfolding s7_def by (rule reachable.continue) (rule barrier_step.wait_departure, simp_all add: s6_def s3_def defs)
  then have "?R s8"
    unfolding s8_def by (rule reachable.continue) (rule barrier_step.count_out, simp add: s7_def ba_goto_def)
  moreover have "ba_left s8 = 1" "ba_arrived s8 = 2"
    by (simp_all add: s8_def s7_def s6_def s3_def defs)
  ultimately show ?thesis
    using barrier_waits [of 2 s8] by auto
qed

section \<open>Notifications\<close>

text \<open>\<open>wait\<close> returns when \<open>notified_\<close> is set and blocks (\<^const>\<open>None\<close>) while it is not.\<close>

record notification =
  nt_notified :: bool

definition new_notification :: notification where
  "new_notification = \<lparr>nt_notified = False\<rparr>"

definition nt_wait :: "notification \<Rightarrow> notification option" where
  "nt_wait n = (if nt_notified n then Some n else None)"

definition nt_notify :: "notification \<Rightarrow> notification" where
  "nt_notify n = n\<lparr>nt_notified := True\<rparr>"

definition nt_reset :: "notification \<Rightarrow> notification" where
  "nt_reset n = n\<lparr>nt_notified := False\<rparr>"

lemma notification_wakes: "nt_wait (nt_notify n) = Some (nt_notify n)" "nt_wait (nt_reset n) = None" "nt_wait new_notification = None"
  by (simp_all add: nt_wait_def nt_notify_def nt_reset_def new_notification_def)

end
