(* ===== verification/Http_Connection.thy ===== *)
theory Http_Connection
  imports Connection Http_Correct Barrier
begin

text \<open>
  The two ends of an HTTP connection (\<open>http_connection.cpp\<close>) and the service that makes them (\<open>http_service.cpp\<close>).  They are
  subclasses of \<open>Connection\<close>: their state is the \<^const>\<open>cx_app\<close> of a connection's world, and their \<open>readDone\<close> and
  \<open>connDone\<close> are the arguments of its operations.
\<close>

section \<open>Text\<close>

abbreviation CRLF :: string where
  "CRLF \<equiv> [CR, LF]"

text \<open>A sequence of \<open>out_.write(const char*)\<close>.\<close>

primrec write_strings :: "raw \<Rightarrow> string list \<Rightarrow> buffer \<Rightarrow> buffer result" where
  "write_strings raw [] b = Inr b"
| "write_strings raw (s # ss) b = rbind (buffer_write raw (c_str s) b) (write_strings raw ss)"

definition ok_head :: "nat \<Rightarrow> string list" where
  "ok_head len =
     [''HTTP/1.1 200 OK'' @ CRLF, ''Date: Wed, 28 Oct 2009 15:24:11 GMT'' @ CRLF, ''Server: Lab02a'' @ CRLF,
      ''Accept-Ranges: bytes'' @ CRLF, ''Content-Length: '' @ dec len @ CRLF, ''Content-Type: text/html'' @ CRLF, CRLF]"

definition error_html :: string where
  "error_html =
     ''<HTML>'' @ CRLF @ ''<HEAD><TITLE>400 Bad Request</TITLE></HEAD>'' @ CRLF @ ''<BODY>Bad Request</BODY>'' @ CRLF @
     ''</HTML>'' @ CRLF @ CRLF"

definition error_page :: "string list" where
  "error_page =
     [''HTTP/1.1 503 Bad Request'' @ CRLF, ''Date: Wed, 28 Oct 2009 15:24:11 GMT'' @ CRLF, ''Server: MyServer'' @ CRLF,
      ''Connection: close'' @ CRLF, ''Transfer-Encoding: chunked'' @ CRLF, ''Content-Length: '' @ dec (length error_html) @ CRLF,
      ''Content-Type: text/html; charset=iso-8859-1'' @ CRLF, CRLF, error_html]"

section \<open>The server's end\<close>

record http_server =
  hs_request :: request
  hs_service :: io_service
  hs_clock :: nat          \<comment> \<open>how often the clock was read\<close>

text \<open>
  What surrounds a connection: the contents of fresh memory, the size of a file and what reading it gives, the clock, the
  number of the worker, and what the other threads do while \<open>stop\<close> waits for them.
\<close>

record http_env =
  he_raw :: raw
  he_open :: "string \<Rightarrow> (nat \<times> (nat \<Rightarrow> read_res)) option"
  he_ticks :: "nat \<Rightarrow> nat"
  he_tps :: nat
  he_me :: int
  he_polls :: "io_manager \<Rightarrow> io_manager"
  he_works :: "io_manager \<Rightarrow> io_manager"

type_synonym server_world = "http_server conn_world"

definition upd_server :: "(http_server \<Rightarrow> http_server) \<Rightarrow> server_world \<Rightarrow> server_world" where
  "upd_server f w = w\<lparr>cx_app := f (cx_app w)\<rparr>"

definition set_out :: "buffer \<Rightarrow> 'a conn_world \<Rightarrow> 'a conn_world" where
  "set_out b w = upd_conn (\<lambda>c. c\<lparr>cn_out := b\<rparr>) w"

definition set_in :: "buffer \<Rightarrow> 'a conn_world \<Rightarrow> 'a conn_world" where
  "set_in b w = upd_conn (\<lambda>c. c\<lparr>cn_in := b\<rparr>) w"

definition server_stop :: "http_env \<Rightarrow> server_world \<Rightarrow> server_world result" where
  "server_stop env w =
     rbind (service_stop (he_polls env) (he_works env) (if he_me env < 0 then None else Some (nat (he_me env)))
              (hs_service (cx_app w), cx_im w))
       (\<lambda>(sv, im). Inr (upd_server (\<lambda>hs. hs\<lparr>hs_service := sv\<rparr>) (w\<lparr>cx_im := im\<rparr>)))"

definition write_stats :: "http_env \<Rightarrow> server_world \<Rightarrow> server_world result" where
  "write_stats env w =
     rbind (getStats (he_tps env) (he_ticks env (hs_clock (cx_app w))) (sv_stats (hs_service (cx_app w)))) (\<lambda>reqsLastSec.
       let stats_string = dec (unat reqsLastSec) in
       rbind (write_strings (he_raw env) (ok_head (length stats_string) @ [stats_string]) (cn_out (cx_conn w))) (\<lambda>b.
         Inr (set_out b (upd_server (\<lambda>hs. hs\<lparr>hs_clock := hs_clock hs + 1\<rparr>) w))))"

text \<open>The file is read into the space behind the header.\<close>

definition write_file :: "raw \<Rightarrow> nat \<times> (nat \<Rightarrow> read_res) \<Rightarrow> buffer \<Rightarrow> buffer result" where
  "write_file raw = (\<lambda>(st_size, read) b.
     rbind (write_strings raw (ok_head st_size) b) (\<lambda>b.
       let b = snd (reserve raw st_size b) in
       case read (writeSize b) of
         RErr e \<Rightarrow> Inl Fatal
       | RData data \<Rightarrow> rbind (poke data b) (\<lambda>b. rbind (advance (length data) b) (\<lambda>(_, b). Inr b))))"

definition document_name :: "string \<Rightarrow> string" where
  "document_name address = (if address = [] then ''index.html'' else address)"

definition write_document :: "http_env \<Rightarrow> server_world \<Rightarrow> server_world result" where
  "write_document env w =
     (let w = upd_server (\<lambda>hs. hs\<lparr>hs_request := (hs_request hs)\<lparr>rq_address := document_name (rq_address (hs_request hs))\<rparr>\<rparr>) w in
      rbind (case he_open env (c_str (rq_address (hs_request (cx_app w)))) of
               Some f \<Rightarrow> write_file (he_raw env) f (cn_out (cx_conn w))
             | None \<Rightarrow> write_strings (he_raw env) error_page (cn_out (cx_conn w))) (\<lambda>b.
        let sv = hs_service (cx_app w) in
        rbind (finishedRequest (he_tps env) (he_me env) (he_ticks env (hs_clock (cx_app w))) (sv_stats sv)) (\<lambda>stats.
          Inr (set_out b (upd_server (\<lambda>hs. hs\<lparr>hs_service := sv\<lparr>sv_stats := stats\<rparr>, hs_clock := hs_clock hs + 1\<rparr>) w)))))"

definition then_write :: "'a conn_world result \<Rightarrow> (bool \<times> 'a conn_world) result option" where
  "then_write r =
     (case r of
        Inl e \<Rightarrow> Some (Inl e)
      | Inr w \<Rightarrow> map_option (\<lambda>r. rbind r (\<lambda>w. Inr (True, w))) (startWrite w))"

definition handleRequest :: "http_env \<Rightarrow> server_world \<Rightarrow> (bool \<times> server_world) result option" where
  "handleRequest env w =
     (if rq_address (hs_request (cx_app w)) = ''quit'' then Some (rbind (server_stop env w) (\<lambda>w. Inr (False, w)))
      else if rq_address (hs_request (cx_app w)) = ''stats'' then then_write (write_stats env w)
      else then_write (write_document env w))"

partial_function (option) server_loop :: "http_env \<Rightarrow> server_world \<Rightarrow> (bool \<times> server_world) result option" where
  "server_loop env w =
     (case on_live (\<lambda>w. buffer_begin (cn_in (cx_conn w))) w of
        Inl e \<Rightarrow> Some (Inl e)
      | Inr it \<Rightarrow>
          (case parseRequest (cn_in (cx_conn w)) it (request_clear (hs_request (cx_app w))) of
             None \<Rightarrow> None
           | Some (rc, it, rq) \<Rightarrow>
               (let w = upd_server (\<lambda>hs. hs\<lparr>hs_request := rq\<rparr>) w
                in case rc of
                     Inl e \<Rightarrow> Some (Inl e)
                   | Inr rc \<Rightarrow>
                       (if rc < 0 then Some (Inr (False, w))
                        else if rc > 0 then Some (Inr (True, w))
                        else case consume (it_bytes_read it) (cn_in (cx_conn w)) of
                               Inl e \<Rightarrow> Some (Inl e)
                             | Inr b \<Rightarrow>
                                 (case handleRequest env (set_in b w) of
                                    None \<Rightarrow> None
                                  | Some (Inl e) \<Rightarrow> Some (Inl e)
                                  | Some (Inr (ok, w)) \<Rightarrow> (if ok then server_loop env w else Some (Inr (False, w))))))))"

definition server_readDone :: "http_env \<Rightarrow> server_world \<Rightarrow> (bool \<times> server_world) result" where
  "server_readDone env w = rbind (of_opt (server_loop env w)) id"

text \<open>The constructor starts to read.\<close>

definition new_server_connection ::
    "raw \<Rightarrow> raw \<Rightarrow> int \<Rightarrow> nat \<Rightarrow> nat \<Rightarrow> socket \<Rightarrow> io_service \<Rightarrow> io_manager \<Rightarrow> server_world result" where
  "new_server_connection raw1 raw2 client_fd read_cb write_cb so sv im =
     (let (c, im) = server_connection raw1 raw2 client_fd read_cb write_cb im
      in startRead \<lparr>cx_conn = c, cx_sock = so, cx_im = im,
                    cx_app = \<lparr>hs_request = \<lparr>rq_method = [], rq_address = [], rq_version = []\<rparr>, hs_service = sv, hs_clock = 0\<rparr>\<rparr>)"

section \<open>The client's end\<close>

text \<open>The callbacks of the user of a connection act on the user's state; \<^const>\<open>None\<close> is a null callback.\<close>

record 'u http_client =
  hc_connect_cb :: "bool \<Rightarrow> 'u \<Rightarrow> 'u"
  hc_response_cbs :: "(response \<Rightarrow> 'u \<Rightarrow> 'u) option list"
  hc_user :: 'u

type_synonym 'u client_world = "'u http_client conn_world"

definition upd_client :: "('u http_client \<Rightarrow> 'u http_client) \<Rightarrow> 'u client_world \<Rightarrow> 'u client_world" where
  "upd_client f w = w\<lparr>cx_app := f (cx_app w)\<rparr>"

text \<open>The callback gets the connection, of which it can tell whether it is in error.\<close>

definition connDone :: "'u client_world \<Rightarrow> 'u client_world result" where
  "connDone w =
     rbind (if \<not> cn_in_error (cx_conn w) then startRead w else Inr w) (\<lambda>w.
       Inr (upd_client (\<lambda>hc. hc\<lparr>hc_user := hc_connect_cb hc (\<not> cn_in_error (cx_conn w)) (hc_user hc)\<rparr>) w))"

definition client_connect ::
    "(int \<Rightarrow> string) \<Rightarrow> int + int \<Rightarrow> int option \<Rightarrow> int \<Rightarrow> nat \<Rightarrow> nat \<Rightarrow> nat \<Rightarrow> (bool \<Rightarrow> 'u \<Rightarrow> 'u) \<Rightarrow> 'u client_world \<Rightarrow> 'u client_world result" where
  "client_connect strerror socket_res connect_errno so_error conn_cb read_cb write_cb cb w =
     startConnect strerror connDone socket_res connect_errno so_error conn_cb read_cb write_cb
       (upd_client (\<lambda>hc. hc\<lparr>hc_connect_cb := cb\<rparr>) w)"

definition handleResponse :: "response \<Rightarrow> 'u client_world \<Rightarrow> bool \<times> 'u client_world" where
  "handleResponse response w =
     (let (cb, cbs) = (case hc_response_cbs (cx_app w) of [] \<Rightarrow> (None, []) | cb # cbs \<Rightarrow> (cb, cbs));
          w = upd_client (\<lambda>hc. hc\<lparr>hc_response_cbs := cbs\<rparr>) w
      in (True, case cb of None \<Rightarrow> w | Some f \<Rightarrow> upd_client (\<lambda>hc. hc\<lparr>hc_user := f response (hc_user hc)\<rparr>) w))"

abbreviation blank_response :: response where
  "blank_response \<equiv> \<lparr>rs_statusLine = [], rs_headerRemainder = [], rs_body = []\<rparr>"

partial_function (option) client_loop :: "'u client_world \<Rightarrow> (bool \<times> 'u client_world) result option" where
  "client_loop w =
     (case buffer_begin (cn_in (cx_conn w)) of
        Inl e \<Rightarrow> Some (Inl e)
      | Inr it \<Rightarrow>
          (case parseResponse (cn_in (cx_conn w)) it blank_response of
             None \<Rightarrow> None
           | Some (rc, it, response) \<Rightarrow>
               (case rc of
                  Inl e \<Rightarrow> Some (Inl e)
                | Inr rc \<Rightarrow>
                    (if rc < 0 then Some (Inr (False, w))
                     else if rc > 0 then Some (Inr (True, w))
                     else case consume (it_bytes_read it) (cn_in (cx_conn w)) of
                            Inl e \<Rightarrow> Some (Inl e)
                          | Inr b \<Rightarrow>
                              (let (ok, w) = handleResponse response (set_in b w)
                               in if \<not> ok then Some (Inr (False, w))
                                  else if eob b it then Some (Inr (True, w))
                                  else client_loop w)))))"

definition client_readDone :: "'u client_world \<Rightarrow> (bool \<times> 'u client_world) result" where
  "client_readDone w = rbind (of_opt (client_loop w)) id"

definition asyncSend :: "raw \<Rightarrow> request \<Rightarrow> (response \<Rightarrow> 'u \<Rightarrow> 'u) option \<Rightarrow> 'u client_world \<Rightarrow> 'u client_world result option" where
  "asyncSend raw request cb w =
     (let w = upd_client (\<lambda>hc. hc\<lparr>hc_response_cbs := hc_response_cbs hc @ [cb]\<rparr>) w
      in case toBuffer raw request (cn_out (cx_conn w)) of
           Inl e \<Rightarrow> Some (Inl e)
         | Inr b \<Rightarrow> startWrite (set_out b w))"

text \<open>The blocking call: the user's state is the notification it waits for and the place of the response.\<close>

record sync_call =
  sc_notification :: notification
  sc_response :: "response option"

definition receiveInternal :: "response \<Rightarrow> sync_call \<Rightarrow> sync_call" where
  "receiveInternal new_response u = u\<lparr>sc_response := Some new_response, sc_notification := nt_notify (sc_notification u)\<rparr>"

definition send_request :: "raw \<Rightarrow> request \<Rightarrow> sync_call client_world \<Rightarrow> sync_call client_world result option" where
  "send_request raw request w =
     asyncSend raw request (Some receiveInternal) (upd_client (\<lambda>hc. hc\<lparr>hc_user := (hc_user hc)\<lparr>sc_notification := new_notification\<rparr>\<rparr>) w)"

definition send_wait :: "sync_call \<Rightarrow> response option option" where
  "send_wait u = map_option (\<lambda>_. sc_response u) (nt_wait (sc_notification u))"

section \<open>The service\<close>

text \<open>\<open>acceptConnection\<close>; the world of the new connection is added to the connections of the service.\<close>

definition acceptConnection ::
    "http_env \<Rightarrow> raw \<Rightarrow> raw \<Rightarrow> nat \<Rightarrow> nat \<Rightarrow> socket \<Rightarrow> int \<Rightarrow> connection service_world \<Rightarrow> connection service_world result" where
  "acceptConnection env raw1 raw2 read_cb write_cb so client_fd w =
     (if service_stopped (sw_service w) then Inr w
      else if client_fd < 0 then
        rbind (service_stop (he_polls env) (he_works env) (if he_me env < 0 then None else Some (nat (he_me env)))
                 (sw_service w, sw_im w))
          (\<lambda>(sv, im). Inr (w\<lparr>sw_service := sv, sw_im := im\<rparr>))
      else
        rbind (new_server_connection raw1 raw2 client_fd read_cb write_cb so (sw_service w) (sw_im w)) (\<lambda>c.
          Inr (w\<lparr>sw_im := cx_im c, sw_conns := sw_conns w @ [cx_conn c]\<rparr>)))"

text \<open>\<open>asyncConnect\<close> gives the new connection, unless the service is stopped; \<open>go\<close> is its \<open>connect\<close> with what the system answers.\<close>

definition asyncConnect ::
    "((bool \<Rightarrow> 'u \<Rightarrow> 'u) \<Rightarrow> 'u client_world \<Rightarrow> 'u client_world result) \<Rightarrow> raw \<Rightarrow> raw \<Rightarrow> socket \<Rightarrow> (bool \<Rightarrow> 'u \<Rightarrow> 'u) \<Rightarrow>
     io_service \<Rightarrow> io_manager \<Rightarrow> 'u \<Rightarrow> 'u client_world option result" where
  "asyncConnect go raw1 raw2 so cb sv im u =
     (if service_stopped sv then Inr None
      else
        rbind (go cb \<lparr>cx_conn = client_connection raw1 raw2, cx_sock = so, cx_im = im,
                      cx_app = \<lparr>hc_connect_cb = cb, hc_response_cbs = [], hc_user = u\<rparr>\<rparr>) (\<lambda>w. Inr (Some w)))"

definition connectInternal :: "bool \<Rightarrow> notification \<Rightarrow> notification" where
  "connectInternal ok n = nt_notify n"

text \<open>The blocking \<open>connect\<close>: \<open>others\<close> is what the event loop does until the notification is waited for.\<close>

definition service_connect ::
    "((bool \<Rightarrow> notification \<Rightarrow> notification) \<Rightarrow> notification client_world \<Rightarrow> notification client_world result) \<Rightarrow> raw \<Rightarrow> raw \<Rightarrow> socket \<Rightarrow>
     (notification client_world \<Rightarrow> notification client_world) \<Rightarrow> io_service \<Rightarrow> io_manager \<Rightarrow> notification client_world option result" where
  "service_connect go raw1 raw2 so others sv im =
     rbind (asyncConnect go raw1 raw2 so connectInternal sv im new_notification) (\<lambda>conn.
       let conn = map_option others conn;
           n = (case conn of None \<Rightarrow> new_notification | Some w \<Rightarrow> hc_user (cx_app w))
       in rbind (of_opt (nt_wait n)) (\<lambda>_. Inr conn))"

end
