(* ===== verification/Http_Serving.thy ===== *)
theory Http_Serving
  imports Http_Connection
begin

text \<open>
  What the two ends of an HTTP connection do with their streams: the server answers the requests of its input in order, the
  client gives the responses to its callbacks in order, and a document the server sends is the one the client's parser reads.
\<close>

section \<open>Room in the output\<close>

text \<open>
  The room in the last chunk of a buffer after \<open>n\<close> bytes were written, and after \<open>n\<close> bytes were reserved and filled.
\<close>

definition room_written :: "nat \<Rightarrow> nat \<Rightarrow> nat" where
  "room_written r n = BlockSize - (BlockSize - r + n) mod BlockSize"

definition room_filled :: "nat \<Rightarrow> nat \<Rightarrow> nat" where
  "room_filled r n = (if n \<le> r then r - n else BlockSize - n)"

lemma buffer_write_off:
  assumes "buf_ok b" "pos_off (b_wpos b) < BlockSize" "buffer_write raw data b = Inr b'"
  shows "pos_off (b_wpos b') = (pos_off (b_wpos b) + length data) mod BlockSize"
  using assms
proof (induction raw data b rule: buffer_write.induct)
  case (1 raw data b)
  show ?case
  proof (cases "data = []")
    case True
    then show ?thesis
      using 1(3,4) by (simp add: buffer_write.simps)
  next
    case False
    let ?n = "min (writeSize b) (length data)"
    define s where "s = stored (take ?n data) b"
    define b1 where "b1 = (if ?n < length data \<or> pos_off (b_wpos s) = BlockSize then with_chunk raw s else s)"
    have r: "write_round raw data b = Inr b1"
      using write_round_eq [OF 1(2), of raw data] by (simp add: b1_def s_def Let_def)
    have s: "buf_ok s" "pos_off (b_wpos s) = pos_off (b_wpos b) + ?n"
      using stored_ok(1,5) [OF 1(2), of "take ?n data"] by (auto simp: s_def)
    have b1: "buf_ok b1" "pos_off (b_wpos b1) = (if writeSize b \<le> length data then 0 else pos_off (b_wpos b) + length data)"
      using s with_chunk_ok(1,5) [OF s(1), of raw] 1(3) by (auto simp: b1_def writeSize_def)
    have "pos_off (b_wpos b') = (pos_off (b_wpos b1) + length (drop ?n data)) mod BlockSize"
      using 1(1) [OF False r b1(1)] 1(3,4) False r b1(2) by (simp add: buffer_write.simps [of raw data b] writeSize_def)
    also have "\<dots> = (pos_off (b_wpos b) + length data) mod BlockSize"
    proof (cases "writeSize b \<le> length data")
      case True
      then obtain k where k: "length data = writeSize b + k"
        by (auto simp: le_iff_add)
      then have "pos_off (b_wpos b) + length data = k + BlockSize"
        using 1(3) by (simp add: writeSize_def)
      then have "(pos_off (b_wpos b) + length data) mod BlockSize = k mod BlockSize"
        by simp
      then show ?thesis
        using k b1(2) by simp
    qed (use b1(2) in simp)
    finally show ?thesis .
  qed
qed

text \<open>A buffer that can be written to, with \<open>r\<close> bytes of room.\<close>

definition writable :: "buffer \<Rightarrow> nat \<Rightarrow> bool" where
  "writable b r \<longleftrightarrow> stream_ok b \<and> writeSize b = r"

lemma write_strings_writable:
  assumes "writable b r" "\<forall>s \<in> set ss. CHR 0x00 \<notin> set s"
  shows "\<exists>b'. write_strings raw ss b = Inr b' \<and> writable b' (room_written r (length (concat ss))) \<and> contents b' = contents b @ concat ss"
  using assms
proof (induction ss arbitrary: b r)
  case Nil
  then have "0 < r" "r \<le> BlockSize"
    by (auto simp: writable_def stream_ok_def writeSize_def)
  then have "room_written r 0 = r"
    by (simp add: room_written_def)
  then show ?case
    using Nil by simp
next
  case (Cons s ss)
  have c: "c_str s = s"
    using Cons.prems(2) by (auto simp: c_str_def takeWhile_eq_all_conv)
  obtain b1 where b1: "buffer_write raw s b = Inr b1" "stream_ok b1" "contents b1 = contents b @ s"
    using stream_ok_write [of b raw s] Cons.prems(1) by (auto simp: writable_def)
  have off: "pos_off (b_wpos b) < BlockSize" "r = BlockSize - pos_off (b_wpos b)"
    using Cons.prems(1) by (auto simp: writable_def stream_ok_def writeSize_def)
  have off1: "pos_off (b_wpos b1) = (pos_off (b_wpos b) + length s) mod BlockSize"
    using buffer_write_off [OF _ off(1) b1(1)] Cons.prems(1) by (simp add: writable_def stream_ok_def)
  then have "writable b1 (room_written r (length s))"
    using b1(2) off by (simp add: writable_def room_written_def writeSize_def)
  moreover have "room_written (room_written r (length s)) n = room_written r (length s + n)" for n
  proof -
    have "(pos_off (b_wpos b) + length s) mod BlockSize \<le> BlockSize"
      by (simp add: BlockSize_def)
    then show ?thesis
      using off by (simp add: room_written_def mod_add_left_eq add.assoc)
  qed
  ultimately show ?case
    using Cons.IH [of b1 "room_written r (length s)"] Cons.prems(2) b1(1,3) c by auto
qed

lemma reserve_writeSize:
  assumes "n \<le> BlockSize"
  shows "writeSize (snd (reserve raw n b)) = (if n \<le> writeSize b then writeSize b else BlockSize)"
  using assms by (simp add: reserve_def writeSize_def with_chunk_def addChunk_def dropChunks_def Let_def)

text \<open>A file of \<open>n\<close> bytes that is read as a whole.\<close>

definition is_file :: "nat \<times> (nat \<Rightarrow> read_res) \<Rightarrow> char list \<Rightarrow> bool" where
  "is_file f data \<longleftrightarrow> fst f = length data \<and> (\<forall>k \<ge> length data. snd f k = RData data)"

definition doc_ok :: "http_env \<Rightarrow> string \<Rightarrow> bool" where
  "doc_ok env a \<longleftrightarrow> (case he_open env (c_str (document_name a)) of None \<Rightarrow> True | Some f \<Rightarrow> (\<exists>data. is_file f data) \<and> fst f \<le> BlockSize)"

text \<open>What the server answers to a request for a document, and the room this leaves in the output.\<close>

definition response_text :: "http_env \<Rightarrow> string \<Rightarrow> string" where
  "response_text env a =
     (case he_open env (c_str (document_name a)) of
        None \<Rightarrow> concat error_page
      | Some (n, read) \<Rightarrow> concat (ok_head n) @ (case read n of RData data \<Rightarrow> data | RErr e \<Rightarrow> []))"

definition room_after :: "http_env \<Rightarrow> string \<Rightarrow> nat \<Rightarrow> nat" where
  "room_after env a r =
     (case he_open env (c_str (document_name a)) of
        None \<Rightarrow> room_written r (length (concat error_page))
      | Some (n, read) \<Rightarrow> room_filled (room_written r (length (concat (ok_head n)))) n)"

lemma page_chars:
  "\<forall>s \<in> set (ok_head n). CHR 0x00 \<notin> set s" "\<forall>s \<in> set error_page. CHR 0x00 \<notin> set s"
  by (simp_all add: ok_head_def error_page_def error_html_def dec_no_char)

lemma write_file_ok:
  assumes "writable b r" "is_file f data" "fst f \<le> BlockSize"
  shows "\<exists>b'. write_file raw f b = Inr b' \<and> buf_ok b' \<and> flowing b' \<and> compact b' \<and> contents b' = contents b @ concat (ok_head (fst f)) @ data \<and>
    writeSize b' = room_filled (room_written r (length (concat (ok_head (fst f))))) (fst f)"
proof -
  obtain b1 where b1: "write_strings raw (ok_head (fst f)) b = Inr b1" "contents b1 = contents b @ concat (ok_head (fst f))"
      "writable b1 (room_written r (length (concat (ok_head (fst f)))))"
    using write_strings_writable [OF assms(1) page_chars(1)] by blast
  have s1: "buf_ok b1" "flowing b1" "compact b1" "\<not> drained b1"
    using b1(3) by (auto simp: writable_def stream_ok_def drained_def)
  obtain b2 where b2: "reserve raw (fst f) b1 = (True, b2)" "buf_ok b2" "contents b2 = contents b1" "fst f \<le> writeSize b2" "compact b2" "flowing b2"
    using reserve_room [OF s1(1) assms(3), of raw] s1 by blast
  have d: "length data = fst f" "snd f (writeSize b2) = RData data"
    using assms(2) b2(4) by (auto simp: is_file_def)
  note st = stored_ok [OF b2(2), of data]
  have "writeSize (stored data b2) = room_filled (writeSize b1) (fst f)"
    using reserve_writeSize [OF assms(3), of raw b1] b2(1,4) st(5) d(1) by (auto simp: writeSize_def room_filled_def)
  moreover have "write_file raw f b = Inr (stored data b2)"
    using b1(1) b2(1,4) d fill_stored [OF b2(2), of data] by (cases f) (simp add: write_file_def)
  ultimately show ?thesis
    using st d(1) b2 b1(2,3) by (auto simp: compact_def writable_def)
qed

section \<open>The counters\<close>

definition counters_ok :: "request_stats \<Rightarrow> bool" where
  "counters_ok rs \<longleftrightarrow> length (rs_counts rs) = nat (rs_num_threads rs) \<and> (\<forall>c \<in> set (rs_counts rs). length (rc_val c) = kNumSlots)"

lemma zero_loop_total:
  assumes "new < 10" "length v = 10"
  shows "\<exists>v'. zero_loop new c v = Some v' \<and> length v' = 10"
proof -
  define m where "m = (c + 1) mod 10"
  define d where "d = (new + (10 - m)) mod 10"
  have m: "m < 10"
    by (simp add: m_def)
  have "(c + 1 + d) mod 10 = (m + (new + (10 - m))) mod 10"
    unfolding d_def m_def by (simp only: mod_add_left_eq mod_add_right_eq)
  also have "\<dots> = (new + 10) mod 10"
    using m by simp
  also have "\<dots> = new"
    using assms(1) by simp
  finally show ?thesis
    using zero_loop_eq [of d c new v] assms(2) by (auto simp: d_def)
qed

lemma finish_counts_total:
  assumes "length (rc_val c) = 10"
  shows "\<exists>c'. finish_counts tps now c = Inr c' \<and> length (rc_val c') = 10"
proof -
  obtain v where "zero_loop (posForTick tps now) (rc_base_pos c) (rc_val c) = Some v" "length v = 10"
    using zero_loop_total [of "posForTick tps now" "rc_val c" "rc_base_pos c"] assms by (auto simp: posForTick_def)
  then show ?thesis
    using assms by (simp add: finish_counts_def Let_def)
qed

lemma finishedRequest_total:
  assumes "counters_ok rs" "0 \<le> me" "me < rs_num_threads rs"
  shows "\<exists>rs'. finishedRequest tps me now rs = Inr rs' \<and> counters_ok rs' \<and> rs_num_threads rs' = rs_num_threads rs"
proof -
  have i: "nat me < length (rs_counts rs)"
    using assms by (simp add: counters_ok_def)
  then obtain c where "finish_counts tps now (rs_counts rs ! nat me) = Inr c" "length (rc_val c) = 10"
    using finish_counts_total [of "rs_counts rs ! nat me" tps now] assms(1) unfolding counters_ok_def by (meson nth_mem)
  then show ?thesis
    using assms set_update_subset_insert [of "rs_counts rs" "nat me" c] by (auto simp: finishedRequest_def counters_ok_def)
qed

section \<open>One request\<close>

text \<open>A server connection that can take requests, with \<open>r\<close> bytes of room in the last chunk of its output.\<close>

definition serving :: "http_env \<Rightarrow> server_world \<Rightarrow> nat \<Rightarrow> bool" where
  "serving env w r \<longleftrightarrow> conn_ok w \<and> writable (cn_out (cx_conn w)) r \<and> readable (cn_in (cx_conn w)) \<and>
     counters_ok (sv_stats (hs_service (cx_app w))) \<and> 0 \<le> he_me env \<and> he_me env < rs_num_threads (sv_stats (hs_service (cx_app w)))"

text \<open>All that was sent or is waiting to be sent.\<close>

definition produced :: "'a conn_world \<Rightarrow> char list" where
  "produced w = so_sent (cx_sock w) @ contents (cn_out (cx_conn w))"

lemma write_page_ok:
  assumes "writable b r" "doc_ok env a"
  shows "\<exists>b'. (case he_open env (c_str (document_name a)) of
      Some f \<Rightarrow> write_file (he_raw env) f b | None \<Rightarrow> write_strings (he_raw env) error_page b) = Inr b' \<and>
    buf_ok b' \<and> flowing b' \<and> compact b' \<and> contents b' = contents b @ response_text env a \<and> writeSize b' = room_after env a r"
proof (cases "he_open env (c_str (document_name a))")
  case None
  then show ?thesis
    using write_strings_writable [OF assms(1) page_chars(2), of "he_raw env"]
    by (auto simp: response_text_def room_after_def writable_def stream_ok_def)
next
  case (Some f)
  then obtain data where "is_file f data" "fst f \<le> BlockSize"
    using assms(2) by (auto simp: doc_ok_def)
  then show ?thesis
    using write_file_ok [OF assms(1), of f data "he_raw env"] Some
    by (cases f) (auto simp: response_text_def room_after_def is_file_def)
qed

lemma write_document_ok:
  assumes "serving env w r" "doc_ok env (rq_address (hs_request (cx_app w)))"
  shows "\<exists>w'. write_document env w = Inr w' \<and> conn_ok w' \<and> compact (cn_out (cx_conn w')) \<and>
    writeSize (cn_out (cx_conn w')) = room_after env (rq_address (hs_request (cx_app w))) r \<and>
    produced w' = produced w @ response_text env (rq_address (hs_request (cx_app w))) \<and> cn_in (cx_conn w') = cn_in (cx_conn w) \<and>
    cn_writing (cx_conn w') = cn_writing (cx_conn w) \<and> cx_sock w' = cx_sock w \<and>
    counters_ok (sv_stats (hs_service (cx_app w'))) \<and>
    rs_num_threads (sv_stats (hs_service (cx_app w'))) = rs_num_threads (sv_stats (hs_service (cx_app w)))"
proof -
  let ?a = "rq_address (hs_request (cx_app w))" and ?out = "cn_out (cx_conn w)" and ?st = "sv_stats (hs_service (cx_app w))"
  obtain b where b: "(case he_open env (c_str (document_name ?a)) of
      Some f \<Rightarrow> write_file (he_raw env) f ?out | None \<Rightarrow> write_strings (he_raw env) error_page ?out) = Inr b"
    "buf_ok b" "flowing b" "compact b" "contents b = contents ?out @ response_text env ?a" "writeSize b = room_after env ?a r"
    using write_page_ok [of ?out r env ?a] assms by (auto simp: serving_def)
  obtain st where st: "finishedRequest (he_tps env) (he_me env) (he_ticks env (hs_clock (cx_app w))) ?st = Inr st"
      "counters_ok st" "rs_num_threads st = rs_num_threads ?st"
    using finishedRequest_total [of ?st "he_me env"] assms(1) by (auto simp: serving_def)
  define app where "app = (cx_app w)\<lparr>hs_request := (hs_request (cx_app w))\<lparr>rq_address := document_name ?a\<rparr>,
    hs_service := (hs_service (cx_app w))\<lparr>sv_stats := st\<rparr>, hs_clock := hs_clock (cx_app w) + 1\<rparr>"
  have eq: "write_document env w = Inr (set_out b (w\<lparr>cx_app := app\<rparr>))" "sv_stats (hs_service app) = st"
    using b(1) st(1)
    by (cases "he_open env (c_str (document_name ?a))", simp_all add: write_document_def upd_server_def app_def Let_def)
  have "conn_ok w"
    using assms(1) by (simp add: serving_def)
  then show ?thesis
    using b(2-6) st(2,3) eq by (simp add: set_out_def upd_conn_def conn_ok_def produced_def)
qed

lemma handle_document:
  assumes "serving env w r" "doc_ok env (rq_address (hs_request (cx_app w)))" "0 < room_after env (rq_address (hs_request (cx_app w))) r"
    and "rq_address (hs_request (cx_app w)) \<noteq> ''quit''" "rq_address (hs_request (cx_app w)) \<noteq> ''stats''"
  shows "\<exists>w'. handleRequest env w = Some (Inr (True, w')) \<and> serving env w' (room_after env (rq_address (hs_request (cx_app w))) r) \<and>
    produced w' = produced w @ response_text env (rq_address (hs_request (cx_app w))) \<and> cn_in (cx_conn w') = cn_in (cx_conn w) \<and>
    same_reads (cx_sock w) (cx_sock w')"
proof -
  let ?a = "rq_address (hs_request (cx_app w))"
  obtain w1 where w1: "write_document env w = Inr w1" "conn_ok w1" "compact (cn_out (cx_conn w1))"
      "writeSize (cn_out (cx_conn w1)) = room_after env ?a r" "produced w1 = produced w @ response_text env ?a"
      "cn_in (cx_conn w1) = cn_in (cx_conn w)" "counters_ok (sv_stats (hs_service (cx_app w1)))"
      "rs_num_threads (sv_stats (hs_service (cx_app w1))) = rs_num_threads (sv_stats (hs_service (cx_app w)))" "cx_sock w1 = cx_sock w"
    using write_document_ok [OF assms(1,2)] by blast
  have "\<exists>w2. startWrite w1 = Some (Inr w2) \<and> produced w2 = produced w1 \<and> cn_in (cx_conn w2) = cn_in (cx_conn w1) \<and> conn_ok w2 \<and> keeps w1 w2"
  proof (cases "cn_writing (cx_conn w1)")
    case True
    then show ?thesis
      using w1(2) by (simp add: startWrite_def keeps_def same_reads_def conn_ok_def)
  next
    case False
    then show ?thesis
      using startWrite_wrote [OF w1(2)] by (auto simp: sends_def produced_def)
  qed
  then obtain w2 where w2: "startWrite w1 = Some (Inr w2)" "produced w2 = produced w1" "cn_in (cx_conn w2) = cn_in (cx_conn w1)"
      "conn_ok w2" "keeps w1 w2"
    by blast
  have "writable (cn_out (cx_conn w2)) (room_after env ?a r)"
    using w2(4,5) w1(3,4) assms(3) by (simp add: writable_def stream_ok_def conn_ok_def keeps_def compact_def)
  then have "serving env w2 (room_after env ?a r)"
    using assms(1) w1 w2 by (simp add: serving_def keeps_def)
  moreover have "handleRequest env w = Some (Inr (True, w2))"
    using assms(4,5) w1(1) w2(1) by (simp add: handleRequest_def then_write_def)
  ultimately show ?thesis
    using w1(5,6,9) w2(2,3,5) by (auto simp: keeps_def)
qed

section \<open>All requests of the input\<close>

text \<open>No answer ends exactly at the end of a chunk of the output.\<close>

primrec fits :: "http_env \<Rightarrow> nat \<Rightarrow> string list \<Rightarrow> bool" where
  "fits env r [] \<longleftrightarrow> True"
| "fits env r (a # as) \<longleftrightarrow> doc_ok env a \<and> 0 < room_after env a r \<and> fits env (room_after env a r) as"

definition is_document :: "request \<times> string list \<Rightarrow> bool" where
  "is_document x \<longleftrightarrow> tokens (fst x) \<and> header_lines (snd x) \<and> rq_address (fst x) \<noteq> ''quit'' \<and> rq_address (fst x) \<noteq> ''stats''"

lemma serving_upd:
  assumes "serving env w r"
  shows "serving env (upd_server (\<lambda>hs. hs\<lparr>hs_request := rq\<rparr>) w) r"
    and "readable b \<Longrightarrow> serving env (set_in b (upd_server (\<lambda>hs. hs\<lparr>hs_request := rq\<rparr>) w)) r"
  using assms by (simp_all add: serving_def upd_server_def set_in_def upd_conn_def conn_ok_def)

lemma server_loop_request:
  assumes "serving env w r" "contents (cn_in (cx_conn w)) = request_text rq hs @ tail" "is_document (rq, hs)"
    and "doc_ok env (rq_address rq)" "0 < room_after env (rq_address rq) r"
  shows "\<exists>w'. server_loop env w = server_loop env w' \<and> serving env w' (room_after env (rq_address rq) r) \<and>
    contents (cn_in (cx_conn w')) = tail \<and> produced w' = produced w @ response_text env (rq_address rq) \<and>
    same_reads (cx_sock w) (cx_sock w')"
proof -
  let ?in = "cn_in (cx_conn w)" and ?w1 = "upd_server (\<lambda>hs. hs\<lparr>hs_request := rq\<rparr>) w"
  have i: "readable ?in" "tokens rq" "header_lines hs"
    using assms(1,3) by (simp_all add: serving_def is_document_def)
  obtain it it' where p: "buffer_begin ?in = Inr it" "parseRequest ?in it (request_clear (hs_request (cx_app w))) = Some (Inr 0, it', rq)"
      "it_bytes_read it' = length (request_text rq hs)"
    using request_parsed [OF i(1) assms(2) i(2,3)] by blast
  obtain b where b: "consume (it_bytes_read it') ?in = Inr b" "readable b" "contents b = tail"
    using readable_consume [OF i(1), of "it_bytes_read it'"] assms(2) p(3) by auto
  have "\<exists>w'. handleRequest env (set_in b ?w1) = Some (Inr (True, w')) \<and> serving env w' (room_after env (rq_address rq) r) \<and>
      produced w' = produced (set_in b ?w1) @ response_text env (rq_address rq) \<and> cn_in (cx_conn w') = b \<and>
      same_reads (cx_sock w) (cx_sock w')"
    using handle_document [OF serving_upd(2) [OF assms(1) b(2), of rq]] assms(3-5)
    by (simp add: upd_server_def set_in_def upd_conn_def is_document_def)
  then obtain w' where w': "handleRequest env (set_in b ?w1) = Some (Inr (True, w'))" "serving env w' (room_after env (rq_address rq) r)"
      "produced w' = produced (set_in b ?w1) @ response_text env (rq_address rq)" "cn_in (cx_conn w') = b"
      "same_reads (cx_sock w) (cx_sock w')"
    by blast
  have "cn_in (cx_conn ?w1) = ?in" "produced (set_in b ?w1) = produced w"
    by (simp_all add: upd_server_def set_in_def upd_conn_def produced_def)
  moreover have "server_loop env w = server_loop env w'"
    using p(1,2) b(1) w'(1) calculation(1) assms(1)
    by (subst server_loop.simps) (simp add: on_live_def serving_def conn_ok_def Let_def)
  ultimately show ?thesis
    using w' b(3) by auto
qed

text \<open>The room that is left after the answers to requests for \<open>as\<close>.\<close>

definition rooms :: "http_env \<Rightarrow> nat \<Rightarrow> string list \<Rightarrow> nat" where
  "rooms env r as = foldl (\<lambda>r a. room_after env a r) r as"

lemma fits_append: "fits env r (as @ bs) \<longleftrightarrow> fits env r as \<and> fits env (rooms env r as) bs"
  by (induction as arbitrary: r) (simp_all add: rooms_def)

lemma server_loop_pipeline:
  assumes "serving env w r" "contents (cn_in (cx_conn w)) = concat (map (\<lambda>(rq, hs). request_text rq hs) reqs) @ rest"
    and "\<forall>x \<in> set reqs. is_document x" "fits env r (map (rq_address \<circ> fst) reqs)"
    and "strict_prefix rest (request_text rq0 hs0)" "rest = [] \<or> last rest \<noteq> CR" "tokens rq0" "header_lines hs0"
  shows "\<exists>w'. server_loop env w = Some (Inr (True, w')) \<and> contents (cn_in (cx_conn w')) = rest \<and>
    produced w' = produced w @ concat (map (response_text env \<circ> rq_address \<circ> fst) reqs) \<and>
    serving env w' (rooms env r (map (rq_address \<circ> fst) reqs)) \<and> same_reads (cx_sock w) (cx_sock w')"
  using assms(1-4)
proof (induction reqs arbitrary: w r)
  case Nil
  let ?in = "cn_in (cx_conn w)"
  have "readable ?in" "contents ?in = rest"
    using Nil by (simp_all add: serving_def)
  then obtain it where it: "buffer_begin ?in = Inr it" "at_rest ?in (length rest) it rest"
    using at_rest_begin [of ?in] by auto
  obtain it' rq' where "parseRequest ?in it (request_clear (hs_request (cx_app w))) = Some (Inr 1, it', rq')"
    using request_unfinished [OF it(2) assms(5-8)] by blast
  then have "server_loop env w = Some (Inr (True, upd_server (\<lambda>hs. hs\<lparr>hs_request := rq'\<rparr>) w))"
    using it(1) Nil(1) by (subst server_loop.simps) (simp add: on_live_def serving_def conn_ok_def Let_def)
  then show ?case
    using Nil(2) serving_upd(1) [OF Nil(1), of rq'] by (simp add: upd_server_def produced_def rooms_def same_reads_def)
next
  case (Cons x reqs)
  obtain rq hs where x: "x = (rq, hs)"
    by (cases x)
  obtain w1 where w1: "server_loop env w = server_loop env w1" "serving env w1 (room_after env (rq_address rq) r)"
      "contents (cn_in (cx_conn w1)) = concat (map (\<lambda>(rq, hs). request_text rq hs) reqs) @ rest"
      "produced w1 = produced w @ response_text env (rq_address rq)" "same_reads (cx_sock w) (cx_sock w1)"
    using server_loop_request [OF Cons.prems(1), of rq hs] Cons.prems(2-4) x by auto
  then show ?case
    using Cons.IH [OF w1(2,3)] Cons.prems(3,4) x by (auto simp: rooms_def same_reads_def)
qed

section \<open>All responses of the input\<close>

text \<open>A response with its status line, header lines and body, and what the parser makes of it.\<close>

type_synonym message = "string \<times> string list \<times> string"

definition message_text :: "message \<Rightarrow> string" where
  "message_text = (\<lambda>(status, hs, body). status @ CRLF @ lines_text hs @ CRLF @ body)"

definition message_ok :: "message \<Rightarrow> bool" where
  "message_ok = (\<lambda>(status, hs, body). CR \<notin> set status \<and> header_lines hs \<and> announces hs (length body))"

definition message_response :: "message \<Rightarrow> response" where
  "message_response = (\<lambda>(status, hs, body). \<lparr>rs_statusLine = status, rs_headerRemainder = concat hs, rs_body = body\<rparr>)"

text \<open>Callbacks and responses are paired in order; responses without a callback are dropped.\<close>

definition deliver :: "(response \<Rightarrow> 'u \<Rightarrow> 'u) option list \<Rightarrow> response list \<Rightarrow> 'u \<Rightarrow> 'u" where
  "deliver cbs rs u = fold (\<lambda>(cb, r) u. case cb of None \<Rightarrow> u | Some f \<Rightarrow> f r u) (zip cbs rs) u"

lemma handleResponse_delivers:
  "fst (handleResponse r w)" "cx_conn (snd (handleResponse r w)) = cx_conn w" "cx_sock (snd (handleResponse r w)) = cx_sock w"
  "cx_im (snd (handleResponse r w)) = cx_im w"
  "hc_response_cbs (cx_app (snd (handleResponse r w))) = drop 1 (hc_response_cbs (cx_app w))"
  "hc_user (cx_app (snd (handleResponse r w))) = deliver (hc_response_cbs (cx_app w)) [r] (hc_user (cx_app w))"
  by (auto simp: handleResponse_def upd_client_def deliver_def Let_def split: list.splits option.splits)

lemma deliver_Cons: "deliver cbs (r # rs) u = deliver (drop 1 cbs) rs (deliver cbs [r] u)"
  by (cases cbs) (simp_all add: deliver_def)

lemma stale_eob:
  assumes "at_rest b N it s" "eob b' it"
  shows "s = []"
  using it_budget_pos [of b it] assms by (auto simp: at_rest_def eob_def split: if_splits)

text \<open>
  An input that holds no complete response: a part of a status line, header lines without the empty one behind them, or a
  body that is too short.
\<close>

definition unfinished :: "string \<Rightarrow> bool" where
  "unfinished s \<longleftrightarrow> CR \<notin> set s \<or>
     (\<exists>status hs part n. s = status @ CRLF @ lines_text hs @ part \<and> CR \<notin> set status \<and> header_lines hs \<and>
        lines_length hs 0 = Inr n \<and> CR \<notin> set part) \<or>
     (\<exists>status hs body n. s = message_text (status, hs, body) \<and> CR \<notin> set status \<and> header_lines hs \<and>
        lines_length hs 0 = Inr n \<and> length body < n)"

lemma client_loop_waits:
  assumes "readable (cn_in (cx_conn w))" "unfinished (contents (cn_in (cx_conn w)))"
  shows "client_loop w = Some (Inr (True, w))"
proof -
  let ?in = "cn_in (cx_conn w)"
  have "\<exists>it it' r'. buffer_begin ?in = Inr it \<and> parseResponse ?in it blank_response = Some (Inr 1, it', r')"
  proof (cases "CR \<notin> set (contents ?in)")
    case True
    obtain it where it: "buffer_begin ?in = Inr it" "at_rest ?in (length (contents ?in)) it (contents ?in)"
      using at_rest_begin [OF assms(1)] by blast
    obtain it' res where "parseLine ?in it [] = Some (Some IncompleteInput, it', res)"
      using parseLine_short [OF it(2) True] by blast
    then show ?thesis
      using it(1) by (simp add: parseResponse_def into_field_def response_clear_def return_code_def)
  next
    case False
    then consider (cut) status hs part n where "contents ?in = status @ [CR, LF] @ lines_text hs @ part"
        "CR \<notin> set status" "header_lines hs" "lines_length hs 0 = Inr n" "CR \<notin> set part"
      | (body) status hs body n where "contents ?in = status @ [CR, LF] @ lines_text hs @ [CR, LF] @ body"
        "CR \<notin> set status" "header_lines hs" "lines_length hs 0 = Inr n" "length body < n"
      using assms(2) unfolding unfinished_def message_text_def by auto
    then show ?thesis
    proof cases
      case cut
      then show ?thesis
        using response_cut [OF assms(1) cut, of blank_response] by blast
    next
      case body
      then show ?thesis
        using response_parsed [OF assms(1) body(1-4), of blank_response] by auto
    qed
  qed
  then obtain it it' r' where "buffer_begin ?in = Inr it" "parseResponse ?in it blank_response = Some (Inr 1, it', r')"
    by blast
  then show ?thesis
    by (subst client_loop.simps) simp
qed

lemma client_loop_message:
  assumes "readable (cn_in (cx_conn w))" "contents (cn_in (cx_conn w)) = message_text m @ tail" "message_ok m"
  shows "\<exists>w'. client_loop w = client_loop w' \<and> readable (cn_in (cx_conn w')) \<and> cx_sock w' = cx_sock w \<and> conn_ok w' = conn_ok w \<and> contents (cn_in (cx_conn w')) = tail \<and>
    hc_response_cbs (cx_app w') = drop 1 (hc_response_cbs (cx_app w)) \<and>
    hc_user (cx_app w') = deliver (hc_response_cbs (cx_app w)) [message_response m] (hc_user (cx_app w))"
proof -
  obtain status hs body where m: "m = (status, hs, body)"
    by (cases m)
  let ?in = "cn_in (cx_conn w)"
  have c: "contents ?in = status @ [CR, LF] @ lines_text hs @ [CR, LF] @ (body @ tail)" "CR \<notin> set status" "header_lines hs"
      "lines_length hs 0 = Inr (length body)"
    using assms(2,3) m announced_length by (simp_all add: message_text_def message_ok_def)
  obtain it it' where p: "buffer_begin ?in = Inr it" "parseResponse ?in it blank_response = Some (Inr 0, it', message_response m)"
      "at_rest ?in (length (contents ?in)) it' tail"
    using response_parsed [OF assms(1) c, of blank_response] m by (auto simp: message_response_def)
  have n: "it_bytes_read it' + length tail = length (contents ?in)"
    using p(3) by (simp add: at_rest_def)
  obtain b where b: "consume (it_bytes_read it') ?in = Inr b" "readable b" "contents b = tail"
    using readable_consume [OF assms(1), of "it_bytes_read it'"] n assms(2) by auto
  define w' where "w' = snd (handleResponse (message_response m) (set_in b w))"
  note w' = handleResponse_delivers [of "message_response m" "set_in b w", folded w'_def]
  have h: "handleResponse (message_response m) (set_in b w) = (True, w')"
    using w'(1) by (simp add: w'_def prod_eq_iff)
  have i: "cn_in (cx_conn w') = b" "cx_app (set_in b w) = cx_app w"
    using w'(2) by (simp_all add: set_in_def upd_conn_def)
  have so: "cx_sock w' = cx_sock w" "conn_ok w' = conn_ok w"
    using w'(2-4) by (simp_all add: set_in_def upd_conn_def conn_ok_def)
  have "client_loop w = (if eob b it' then Some (Inr (True, w')) else client_loop w')"
    using p(1,2) b(1) h by (subst client_loop.simps) simp
  moreover have "client_loop w' = Some (Inr (True, w'))" if "eob b it'"
    using client_loop_waits [of w'] stale_eob [OF p(3) that] i(1) b(2,3) by (simp add: unfinished_def)
  ultimately have "client_loop w = client_loop w'"
    by simp
  then show ?thesis
    using w'(5,6) i so b(2,3) by auto
qed

lemma client_loop_all:
  assumes "readable (cn_in (cx_conn w))" "contents (cn_in (cx_conn w)) = concat (map message_text ms) @ rest"
    and "\<forall>m \<in> set ms. message_ok m" "unfinished rest"
  shows "\<exists>w'. client_loop w = Some (Inr (True, w')) \<and> readable (cn_in (cx_conn w')) \<and> cx_sock w' = cx_sock w \<and> conn_ok w' = conn_ok w \<and> contents (cn_in (cx_conn w')) = rest \<and>
    hc_response_cbs (cx_app w') = drop (length ms) (hc_response_cbs (cx_app w)) \<and>
    hc_user (cx_app w') = deliver (hc_response_cbs (cx_app w)) (map message_response ms) (hc_user (cx_app w))"
  using assms
proof (induction ms arbitrary: w)
  case Nil
  then show ?case
    using client_loop_waits [of w] by (simp add: deliver_def)
next
  case (Cons m ms)
  obtain w1 where w1: "client_loop w = client_loop w1" "readable (cn_in (cx_conn w1))" "cx_sock w1 = cx_sock w" "conn_ok w1 = conn_ok w"
      "contents (cn_in (cx_conn w1)) = concat (map message_text ms) @ rest"
      "hc_response_cbs (cx_app w1) = drop 1 (hc_response_cbs (cx_app w))"
      "hc_user (cx_app w1) = deliver (hc_response_cbs (cx_app w)) [message_response m] (hc_user (cx_app w))"
    using client_loop_message [of w m "concat (map message_text ms) @ rest"] Cons.prems by auto
  then show ?case
    using Cons.IH [of w1] Cons.prems(3,4) deliver_Cons [of "hc_response_cbs (cx_app w)" "message_response m" "map message_response ms" "hc_user (cx_app w)"]
    by simp
qed

section \<open>What the server sends is what the client reads\<close>

definition ok_lines :: "nat \<Rightarrow> string list" where
  "ok_lines n =
     [''Date: Wed, 28 Oct 2009 15:24:11 GMT'', ''Server: Lab02a'', ''Accept-Ranges: bytes'', ''Content-Length: '' @ dec n,
      ''Content-Type: text/html'']"

lemma ok_lines_announce:
  assumes "n < 2 ^ 64"
  shows "announces (ok_lines n) n"
proof -
  let ?pre = "[''Date: Wed, 28 Oct 2009 15:24:11 GMT'', ''Server: Lab02a'', ''Accept-Ranges: bytes'']"
  have "ok_lines n = ?pre @ (''Content-Length:'' @ CHR '' '' # dec n) # [''Content-Type: text/html'']"
      "silent ?pre" "silent [''Content-Type: text/html'']"
    by (simp_all add: ok_lines_def silent_def)
  then show ?thesis
    using assms unfolding announces_def by blast
qed

lemma file_message:
  assumes "he_open env (c_str (document_name a)) = Some f" "is_file f data" "length data < 2 ^ 64"
  shows "response_text env a = message_text (''HTTP/1.1 200 OK'', ok_lines (length data), data)"
    and "message_ok (''HTTP/1.1 200 OK'', ok_lines (length data), data)"
proof -
  show "response_text env a = message_text (''HTTP/1.1 200 OK'', ok_lines (length data), data)"
    using assms(1,2) by (cases f) (simp add: response_text_def is_file_def ok_head_def message_text_def ok_lines_def)
  show "message_ok (''HTTP/1.1 200 OK'', ok_lines (length data), data)"
    using ok_lines_announce [OF assms(3)] dec_no_char [of CR "length data"] by (simp add: message_ok_def) (simp add: ok_lines_def)
qed

section \<open>Stopping\<close>

text \<open>A blocking connect on a stopped service waits for a notification that nobody sends.\<close>

lemma connect_when_stopped: "service_stopped sv \<Longrightarrow> service_connect go raw1 raw2 so others sv im = Inl Diverge"
  by (simp add: service_connect_def asyncConnect_def nt_wait_def new_notification_def)

text \<open>
  On a stopped service the accept callback returns at once, so that the loop of an acceptor whose listening socket keeps failing
  never ends.
\<close>

lemma accept_spins:
  assumes "doAccept accepts cb i w = Some y"
  shows "\<not> ((\<forall>k. accepts k = Inl e) \<and> e \<notin> {EAGAIN, EINTR, ECONNABORTED} \<and> service_stopped (sw_service w) \<and>
    cb = acceptConnection env raw1 raw2 read_cb write_cb so)"
proof (rule doAccept.raw_induct [where P = "\<lambda>accepts cb i w y. \<not> ((\<forall>k. accepts k = Inl e) \<and>
    e \<notin> {EAGAIN, EINTR, ECONNABORTED} \<and> service_stopped (sw_service w) \<and> cb = acceptConnection env raw1 raw2 read_cb write_cb so)",
    OF _ assms], goal_cases)
  case (1 f accepts cb i w y)
  show ?case
  proof
    assume a: "(\<forall>k. accepts k = Inl e) \<and> e \<notin> {EAGAIN, EINTR, ECONNABORTED} \<and> service_stopped (sw_service w) \<and>
      cb = acceptConnection env raw1 raw2 read_cb write_cb so"
    then have s: "socketAccept accepts (sw_accepts w) = Some (Inl e, sw_accepts w + 1)"
      by (subst socketAccept.simps) simp
    let ?w = "w\<lparr>sw_accepts := sw_accepts w + 1\<rparr>"
    have "cb (- 1) ?w = Inr ?w"
      using a by (simp add: acceptConnection_def)
    then have "f accepts cb i ?w = Some y"
      using 1(2) s a by (auto simp: Let_def split: if_splits)
    then show False
      using 1(1) [of accepts cb i ?w y] a by simp
  qed
qed

text \<open>An \<open>accept\<close> that fails stops the service, which closes the listening socket, and the loop goes on without end.\<close>

lemma accept_error_never_returns:
  assumes "\<forall>k. accepts k = Inl e" "e \<notin> {EAGAIN, EINTR, ECONNABORTED}" "ac_accept_cb (sv_acceptors (sw_service w) ! i) \<noteq> NULL"
    and "acceptConnection env raw1 raw2 read_cb write_cb so (- 1) (w\<lparr>sw_accepts := sw_accepts w + 1\<rparr>) = Inr w'"
  shows "doAccept accepts (acceptConnection env raw1 raw2 read_cb write_cb so) i w = None"
proof -
  have "socketAccept accepts (sw_accepts w) = Some (Inl e, sw_accepts w + 1)"
    using assms(1,2) by (subst socketAccept.simps) simp
  then have "doAccept accepts (acceptConnection env raw1 raw2 read_cb write_cb so) i w =
      doAccept accepts (acceptConnection env raw1 raw2 read_cb write_cb so) i w'"
    using assms(2-4) by (subst doAccept.simps) (simp add: Let_def)
  moreover have "service_stopped (sw_service w')"
    using assms(4) by (auto simp: acceptConnection_def service_stopped_def service_stop_def rbind_Inr_iff Let_def split: if_splits prod.splits)
  ultimately show ?thesis
    using accept_spins [of accepts "acceptConnection env raw1 raw2 read_cb write_cb so" i w' _ e env raw1 raw2 read_cb write_cb so] assms(1,2)
    by (cases "doAccept accepts (acceptConnection env raw1 raw2 read_cb write_cb so) i w'") auto
qed

section \<open>Concrete connections\<close>

text \<open>One file, one worker, and a connection that reads, with a request and the beginning of a second one in its input.\<close>

definition demo_env :: http_env where
  "demo_env = \<lparr>he_raw = (\<lambda>_ _. CHR 0x00), he_open = (\<lambda>a. if a = ''a'' then Some (2, \<lambda>_. RData ''hi'') else None), he_ticks = (\<lambda>_. 5),
     he_tps = 1000, he_me = 0, he_polls = id, he_works = id\<rparr>"

definition demo_input :: string where
  "demo_input = request_text demo_request [''Host: x''] @ ''GET''"

definition demo_server :: server_world where
  "demo_server =
     (let raw = \<lambda>_ _. CHR 0x00; (c, im) = server_connection raw raw 5 1 2 (new_io_manager 1)
      in \<lparr>cx_conn = c\<lparr>cn_in := demo_buffer demo_input, cn_refs := 1\<rparr>, cx_sock = demo_socket, cx_im = im,
          cx_app = \<lparr>hs_request = demo_request, hs_service = fst (new_io_service 1), hs_clock = 0\<rparr>\<rparr>)"

lemma demo_server_serving: "serving demo_env demo_server BlockSize"
proof -
  have "length demo_input < BlockSize"
    by (simp add: demo_input_def request_text_def start_line_def demo_request_def BlockSize_def)
  note d = demo_buffer_facts [OF this]
  have "writeSize (new_buffer (\<lambda>_ _. CHR 0x00)) = BlockSize"
    by (simp add: new_buffer_def addChunk_def writeSize_def Let_def)
  then show ?thesis
    using d(1) stream_ok_new [of "\<lambda>_ _. CHR 0x00"] demo_socket_ok(1)
    by (auto simp: serving_def demo_server_def server_connection_def newDescriptor_def new_io_manager_def put_desc_def conn_ok_def
        writable_def readable_def stream_ok_def counters_ok_def new_io_service_def new_request_stats_def demo_env_def Let_def)
qed

lemma demo_server_in: "contents (cn_in (cx_conn demo_server)) = request_text demo_request [''Host: x''] @ ''GET''"
proof -
  have "length demo_input < BlockSize"
    by (simp add: demo_input_def request_text_def start_line_def demo_request_def BlockSize_def)
  from demo_buffer_facts(2) [OF this] show ?thesis
    by (simp add: demo_server_def server_connection_def newDescriptor_def Let_def demo_input_def)
qed

lemma demo_response: "response_text demo_env ''a'' = concat (ok_head 2) @ ''hi''"
  by (simp add: response_text_def demo_env_def document_name_def c_str_def)

lemma demo_fits: "fits demo_env BlockSize [''a'']"
proof -
  have o: "he_open demo_env (c_str (document_name ''a'')) = Some (2, \<lambda>_. RData ''hi'')"
    by (simp add: demo_env_def document_name_def c_str_def)
  have f: "is_file (2, \<lambda>_. RData ''hi'') ''hi''"
    by (simp add: is_file_def)
  have "length (dec 2) = 1"
    by (simp add: dec.simps [of 2])
  then have "length (concat (ok_head 2)) = 138"
    by (simp add: ok_head_def)
  then have "room_after demo_env ''a'' BlockSize = 3956"
    using o by (simp add: room_after_def room_written_def room_filled_def BlockSize_def)
  moreover have "doc_ok demo_env ''a''"
    using f o by (auto simp: doc_ok_def BlockSize_def)
  ultimately show ?thesis
    by simp
qed

text \<open>A client that waits for two responses and has one and a half; it collects the bodies.\<close>

definition demo_message :: message where
  "demo_message = (''OK'', [''Content-Length: 2''], ''hi'')"

definition demo_client :: "string list client_world" where
  "demo_client =
     \<lparr>cx_conn = (client_connection (\<lambda>_ _. CHR 0x00) (\<lambda>_ _. CHR 0x00))\<lparr>cn_in := demo_buffer (message_text demo_message @ ''HTTP'')\<rparr>,
      cx_sock = demo_socket, cx_im = new_io_manager 1,
      cx_app = \<lparr>hc_connect_cb = (\<lambda>_ u. u), hc_response_cbs = [Some (\<lambda>r u. u @ [rs_body r]), None], hc_user = []\<rparr>\<rparr>"

end
