(* ===== verification/Read_Loop.thy ===== *)
theory Read_Loop
  imports Connection Http_Parser
begin

text \<open>
  The loop of \<open>Connection::doRead\<close> over a \<open>readDone\<close> of a subclass: what the subclass promises about the bytes it is shown
  (the locale), and what then holds of a stream however the socket cuts it into reads.
\<close>

section \<open>Streams that arrive in pieces\<close>

definition stops :: "read_res \<Rightarrow> bool" where
  "stops res \<longleftrightarrow> (case res of RData data \<Rightarrow> data = [] | RErr e \<Rightarrow> e \<noteq> EINTR)"

text \<open>
  From its \<open>k\<close>-th \<open>read\<close> on the socket delivers the stream \<open>s\<close> and then stops.  A read may be interrupted, and returns
  at least a byte and at most what was asked for, which is never less than 1024; no read ends right behind a carriage return.
\<close>

inductive feeds :: "(nat \<Rightarrow> nat \<Rightarrow> read_res) \<Rightarrow> nat \<Rightarrow> string \<Rightarrow> bool" where
  feeds_end: "(\<And>n. 1024 \<le> n \<Longrightarrow> stops (rd k n)) \<Longrightarrow> feeds rd k []"
| feeds_interrupted: "(\<And>n. 1024 \<le> n \<Longrightarrow> rd k n = RErr EINTR) \<Longrightarrow> feeds rd (k + 1) s \<Longrightarrow> feeds rd k s"
| feeds_data: "(\<And>n. 1024 \<le> n \<Longrightarrow> \<exists>c later. s = c @ later \<and> c \<noteq> [] \<and> length c \<le> n \<and> last c \<noteq> CR \<and> rd k n = RData c \<and>
      feeds rd (k + 1) later) \<Longrightarrow> feeds rd k s"

text \<open>A socket that only ever stops because nothing more has arrived yet.\<close>

definition pauses :: "socket \<Rightarrow> bool" where
  "pauses so \<longleftrightarrow> (\<forall>k n. 1024 \<le> n \<longrightarrow> stops (so_read so k n) \<longrightarrow> so_read so k n = RErr EAGAIN)"

section \<open>The interface\<close>

text \<open>What the loop itself may change of a connection: the chunks of the input, the number of reads, further references.\<close>

definition alike :: "'a conn_world \<Rightarrow> 'a conn_world \<Rightarrow> bool" where
  "alike w w' \<longleftrightarrow> cx_app w' = cx_app w \<and> cn_out (cx_conn w') = cn_out (cx_conn w) \<and> cn_io_desc (cx_conn w') = cn_io_desc (cx_conn w) \<and>
     readable (cn_in (cx_conn w')) \<and> contents (cn_in (cx_conn w')) = contents (cn_in (cx_conn w)) \<and>
     so_write (cx_sock w') = so_write (cx_sock w) \<and> so_sent (cx_sock w') = so_sent (cx_sock w) \<and>
     dom (im_descs (cx_im w')) = dom (im_descs (cx_im w)) \<and> cn_alive (cx_conn w') = cn_alive (cx_conn w) \<and>
     cn_refs (cx_conn w) \<le> cn_refs (cx_conn w')"

text \<open>What even the deletion at the end of the loop leaves: the bytes on both sides and the state of the subclass.\<close>

definition retains :: "'a conn_world \<Rightarrow> 'a conn_world \<Rightarrow> bool" where
  "retains w w' \<longleftrightarrow> cx_app w' = cx_app w \<and> contents (cn_in (cx_conn w')) = contents (cn_in (cx_conn w)) \<and>
     cn_out (cx_conn w') = cn_out (cx_conn w) \<and> so_sent (cx_sock w') = so_sent (cx_sock w)"

lemma alike_trans: "alike w1 w2 \<Longrightarrow> alike w2 w3 \<Longrightarrow> alike w1 w3"
  by (auto simp: alike_def)

lemma alike_conn_ok:
  assumes "alike w w'" "conn_ok w"
  shows "conn_ok w'"
proof -
  have "dom (im_descs (cx_im w')) = dom (im_descs (cx_im w))"
    using assms by (simp add: alike_def)
  then have "im_descs (cx_im w') d \<noteq> None \<longleftrightarrow> im_descs (cx_im w) d \<noteq> None" for d
    by blast
  then show ?thesis
    using assms by (auto simp: alike_def conn_ok_def write_ok_def)
qed

definition with_in :: "buffer \<Rightarrow> 'a conn_world \<Rightarrow> 'a conn_world" where
  "with_in b w = upd_conn (\<lambda>c. c\<lparr>cn_in := b\<rparr>) w"

text \<open>
  A subclass that has taken \<open>j\<close> messages of a stream and still expects the bytes \<open>expect j\<close>, of which the input holds the
  first ones.  Shown further bytes, it takes the messages they complete.
\<close>

locale stream_reader =
  fixes readDone :: "'a conn_world \<Rightarrow> (bool \<times> 'a conn_world) result"
    and taken :: "nat \<Rightarrow> 'a conn_world \<Rightarrow> bool" and expect :: "nat \<Rightarrow> string"
  assumes taken_ok: "taken j w \<Longrightarrow> conn_ok w \<and> readable (cn_in (cx_conn w))"
    and taken_alike: "taken j w \<Longrightarrow> alike w w' \<Longrightarrow> taken j w'"
    and take_more: "taken j w \<Longrightarrow> readable b \<Longrightarrow> contents b = contents (cn_in (cx_conn w)) @ c \<Longrightarrow> c \<noteq> [] \<Longrightarrow> last c \<noteq> CR \<Longrightarrow>
      contents b @ later = expect j \<Longrightarrow>
      \<exists>w' i. readDone (with_in b w) = Inr (True, w') \<and> taken i w' \<and> contents (cn_in (cx_conn w')) @ later = expect i \<and>
        same_reads (cx_sock w) (cx_sock w')"
begin

text \<open>What the reserved buffer does with the state.\<close>

lemma reserved:
  assumes "taken j w"
  obtains b where "snd (reserve raw 1024 (cn_in (cx_conn w))) = b" "1024 \<le> writeSize b" "readable b"
    "contents b = contents (cn_in (cx_conn w))" "alike w (with_in b w)"
proof -
  have r: "readable (cn_in (cx_conn w))"
    using taken_ok [OF assms] by simp
  obtain b where "reserve raw 1024 (cn_in (cx_conn w)) = (True, b)" "1024 \<le> writeSize b" "readable b"
      "contents b = contents (cn_in (cx_conn w))"
    using reserve_room [of "cn_in (cx_conn w)" 1024 raw] r by (auto simp: readable_def BlockSize_def)
  then show ?thesis
    by (intro that [of b]) (simp_all add: alike_def with_in_def upd_conn_def)
qed

lemma alike_sock:
  assumes "alike w w'" "so_write so = so_write (cx_sock w)" "so_sent so = so_sent (cx_sock w)"
  shows "alike w (w'\<lparr>cx_sock := so\<rparr>)"
  using assms by (simp add: alike_def)

lemma ask_again:
  assumes "conn_ok w" "readable (cn_in (cx_conn w))"
  shows "\<exists>w'. on_desc readWhenReady (acquire w) = Inr w' \<and> alike w w' \<and> cn_refs (cx_conn w') = cn_refs (cx_conn w) + 1"
  using assms
  by (auto simp: conn_ok_def on_desc_def acquire_def upd_conn_def readWhenReady_def desc_at_def put_desc_def
      im_addTask_def alike_def Let_def)

lemma round_stops:
  assumes "taken j w" "\<And>n. 1024 \<le> n \<Longrightarrow> stops (so_read (cx_sock w) (so_reads (cx_sock w)) n)"
  shows "\<exists>w'. read_rounds raw readDone w = Some (Inr w') \<and> alike w w' \<and>
    (pauses (cx_sock w) \<longrightarrow> cn_refs (cx_conn w') = cn_refs (cx_conn w) + 1)"
proof -
  have al: "cn_alive (cx_conn w)"
    using taken_ok [OF assms(1)] by (simp add: conn_ok_def)
  obtain b where b: "snd (reserve raw 1024 (cn_in (cx_conn w))) = b" "1024 \<le> writeSize b" "readable b" "alike w (with_in b w)"
    using reserved [OF assms(1)] by metis
  define so where "so = (cx_sock w)\<lparr>so_reads := so_reads (cx_sock w) + 1\<rparr>"
  define res where "res = so_read (cx_sock w) (so_reads (cx_sock w)) (writeSize b)"
  have st: "stops res"
    using assms(2) [OF b(2)] by (simp add: res_def)
  then have so: "socketRead (writeSize b) (cx_sock w) = Some (res, so)"
    by (subst socketRead.simps) (auto simp: stops_def res_def so_def Let_def)
  let ?w = "(with_in b w)\<lparr>cx_sock := so\<rparr>"
  have a: "alike w ?w"
    using alike_sock [OF b(4)] by (simp add: so_def)
  obtain w' where w': "on_desc readWhenReady (acquire ?w) = Inr w'" "alike w w'" "cn_refs (cx_conn w') = cn_refs (cx_conn ?w) + 1"
    using ask_again [of ?w] taken_ok [OF taken_alike [OF assms(1) a]] alike_trans [OF a] by blast
  have "read_rounds raw readDone w = Some (Inr (if res = RErr EAGAIN then w' else ?w))"
    using st b(1) so w'(1) al by (subst read_rounds.simps) (auto simp: with_in_def upd_conn_def stops_def Let_def split: read_res.splits)
  moreover have "pauses (cx_sock w) \<Longrightarrow> res = RErr EAGAIN"
    using st b(2) by (auto simp: pauses_def res_def)
  moreover have "cn_refs (cx_conn ?w) = cn_refs (cx_conn w)"
    by (simp add: with_in_def upd_conn_def)
  ultimately show ?thesis
    using w'(2,3) a by auto
qed

lemma round_interrupted:
  assumes "taken j w" "\<And>n. 1024 \<le> n \<Longrightarrow> so_read (cx_sock w) (so_reads (cx_sock w)) n = RErr EINTR"
  shows "read_rounds raw readDone w = read_rounds raw readDone (w\<lparr>cx_sock := (cx_sock w)\<lparr>so_reads := so_reads (cx_sock w) + 1\<rparr>\<rparr>)"
proof -
  obtain b where b: "snd (reserve raw 1024 (cn_in (cx_conn w))) = b" "1024 \<le> writeSize b"
    using reserved [OF assms(1)] by metis
  have "socketRead (writeSize b) (cx_sock w) = socketRead (writeSize b) ((cx_sock w)\<lparr>so_reads := so_reads (cx_sock w) + 1\<rparr>)"
    using assms(2) [OF b(2)] by (subst socketRead.simps) (simp add: Let_def)
  moreover have "w\<lparr>cx_sock := so1, cx_conn := x, cx_sock := so2\<rparr> = w\<lparr>cx_conn := x, cx_sock := so2\<rparr>" for so1 so2 x
    by (cases w) simp
  ultimately show ?thesis
    using b(1) by (subst (1 2) read_rounds.simps) (simp add: upd_conn_def Let_def split: option.split prod.split)
qed

lemma round_data:
  assumes tk: "taken j w" and rd: "snd (reserve raw 1024 (cn_in (cx_conn w))) = b" "1024 \<le> writeSize b" "readable b"
      "contents b = contents (cn_in (cx_conn w))" "alike w (with_in b w)"
    and c: "so_read (cx_sock w) (so_reads (cx_sock w)) (writeSize b) = RData c" "c \<noteq> []" "length c \<le> writeSize b" "last c \<noteq> CR"
    and s: "contents (cn_in (cx_conn w)) @ c @ later = expect j"
  shows "\<exists>w' i. read_rounds raw readDone w = read_rounds raw readDone w' \<and> taken i w' \<and> contents (cn_in (cx_conn w')) @ later = expect i \<and>
    so_read (cx_sock w') = so_read (cx_sock w) \<and> so_reads (cx_sock w') = so_reads (cx_sock w) + 1"
proof -
  define so where "so = (cx_sock w)\<lparr>so_reads := so_reads (cx_sock w) + 1\<rparr>"
  have r: "socketRead (writeSize b) (cx_sock w) = Some (RData c, so)"
    using c(1) by (subst socketRead.simps) (simp add: so_def Let_def)
  let ?w = "(with_in b w)\<lparr>cx_sock := so\<rparr>"
  have "taken j ?w"
    using taken_alike [OF tk alike_sock [OF rd(5)]] by (simp add: so_def)
  moreover have b: "buf_ok b" "compact b" "flowing b"
    using rd(3) by (simp_all add: readable_def)
  note st = stored_ok [OF b(1) c(3)]
  have "readable (stored c b)" "contents (stored c b) = contents (cn_in (cx_conn ?w)) @ c"
    using st b by (simp_all add: readable_def compact_def with_in_def upd_conn_def)
  ultimately obtain w' i where w': "readDone (with_in (stored c b) ?w) = Inr (True, w')" "taken i w'"
      "contents (cn_in (cx_conn w')) @ later = expect i" "same_reads so (cx_sock w')"
    using take_more [of j ?w "stored c b" c later] c(2,4) s rd(4) by (auto simp: with_in_def upd_conn_def)
  have "rbind (poke c b) (\<lambda>b. rbind (advance (length c) b) (\<lambda>(_, b). Inr b)) = Inr (stored c b)"
    by (rule fill_stored [OF b(1) c(3)])
  then have "receive_bytes c ?w = Inr (with_in (stored c b) ?w)"
    by (auto simp: receive_bytes_def with_in_def upd_conn_def rbind_Inr_iff)
  then have "read_rounds raw readDone w = read_rounds raw readDone w'"
    using rd(1) r c(2) w'(1) taken_ok [OF tk] by (subst read_rounds.simps) (simp add: conn_ok_def with_in_def upd_conn_def Let_def)
  then show ?thesis
    using w'(2-4) by (auto simp: same_reads_def so_def)
qed

lemma rounds_feed:
  assumes "feeds rd k s" "taken j w" "contents (cn_in (cx_conn w)) @ s = expect j" "so_read (cx_sock w) = rd" "so_reads (cx_sock w) = k"
  shows "\<exists>w' w0 i. read_rounds raw readDone w = Some (Inr w') \<and> taken i w0 \<and> contents (cn_in (cx_conn w0)) = expect i \<and>
    alike w0 w' \<and> (pauses (cx_sock w) \<longrightarrow> cn_refs (cx_conn w') = cn_refs (cx_conn w0) + 1)"
  using assms
proof (induction arbitrary: j w rule: feeds.induct)
  case (feeds_end rd k)
  then have "\<exists>w'. read_rounds raw readDone w = Some (Inr w') \<and> alike w w' \<and>
    (pauses (cx_sock w) \<longrightarrow> cn_refs (cx_conn w') = cn_refs (cx_conn w) + 1)"
    using round_stops [OF feeds_end.prems(1)] by blast
  then show ?case
    using feeds_end.prems(1,2) by auto
next
  case (feeds_interrupted rd k s)
  let ?w = "w\<lparr>cx_sock := (cx_sock w)\<lparr>so_reads := so_reads (cx_sock w) + 1\<rparr>\<rparr>"
  have "read_rounds raw readDone w = read_rounds raw readDone ?w"
    using round_interrupted [OF feeds_interrupted.prems(1)] feeds_interrupted by blast
  moreover have "alike w ?w"
    using taken_ok [OF feeds_interrupted.prems(1)] by (simp add: alike_def)
  moreover have "pauses (cx_sock ?w) = pauses (cx_sock w)"
    by (simp add: pauses_def)
  ultimately show ?case
    using feeds_interrupted.IH [of j ?w] taken_alike [OF feeds_interrupted.prems(1)] feeds_interrupted.prems by simp
next
  case (feeds_data s rd k)
  obtain b where b: "snd (reserve raw 1024 (cn_in (cx_conn w))) = b" "1024 \<le> writeSize b" "readable b"
      "contents b = contents (cn_in (cx_conn w))" "alike w (with_in b w)"
    using reserved [OF feeds_data.prems(1)] by metis
  obtain c later where c: "s = c @ later" "c \<noteq> []" "length c \<le> writeSize b" "last c \<noteq> CR" "rd k (writeSize b) = RData c"
      and IH: "\<And>j w. taken j w \<Longrightarrow> contents (cn_in (cx_conn w)) @ later = expect j \<Longrightarrow> so_read (cx_sock w) = rd \<Longrightarrow> so_reads (cx_sock w) = k + 1 \<Longrightarrow>
        \<exists>w' w0 i. read_rounds raw readDone w = Some (Inr w') \<and> taken i w0 \<and> contents (cn_in (cx_conn w0)) = expect i \<and>
          alike w0 w' \<and> (pauses (cx_sock w) \<longrightarrow> cn_refs (cx_conn w') = cn_refs (cx_conn w0) + 1)"
    using feeds_data.IH [OF b(2)] by blast
  obtain w' i where w': "read_rounds raw readDone w = read_rounds raw readDone w'" "taken i w'"
    "contents (cn_in (cx_conn w')) @ later = expect i" "so_read (cx_sock w') = rd" "so_reads (cx_sock w') = k + 1"
    using round_data [OF feeds_data.prems(1) b, of c later] c feeds_data.prems(2-4) by auto
  then have "pauses (cx_sock w') = pauses (cx_sock w)"
    using feeds_data.prems(3) by (simp add: pauses_def)
  then show ?case
    using IH [OF w'(2-5)] w'(1) by simp
qed

lemma doRead_feed:
  assumes "taken j w" "feeds (so_read (cx_sock w)) (so_reads (cx_sock w)) s" "contents (cn_in (cx_conn w)) @ s = expect j"
  shows "\<exists>w' w0 i. doRead raw readDone w = Some (Inr w') \<and> taken i w0 \<and> contents (cn_in (cx_conn w0)) = expect i \<and>
    retains w0 w' \<and> (pauses (cx_sock w) \<longrightarrow> taken i w')"
proof -
  obtain w1 w0 i where w1: "read_rounds raw readDone w = Some (Inr w1)" "taken i w0" "contents (cn_in (cx_conn w0)) = expect i"
      "alike w0 w1" "pauses (cx_sock w) \<Longrightarrow> cn_refs (cx_conn w1) = cn_refs (cx_conn w0) + 1"
    using rounds_feed [OF assms(2,1,3) refl refl] by blast
  have ok: "conn_ok w0" "conn_ok w1" "readable (cn_in (cx_conn w1))"
    using taken_ok [OF w1(2)] alike_conn_ok [OF w1(4)] w1(4) by (auto simp: alike_def)
  obtain w2 where w2: "release w1 = Inr w2" "cn_out (cx_conn w2) = cn_out (cx_conn w1)" "cn_in (cx_conn w2) = cn_in (cx_conn w1)"
    "cx_sock w2 = cx_sock w1" "cx_app w2 = cx_app w1"
    "1 < cn_refs (cx_conn w1) \<longrightarrow> cx_conn w2 = (cx_conn w1)\<lparr>cn_refs := cn_refs (cx_conn w1) - 1\<rparr> \<and> cx_im w2 = cx_im w1"
    using release_ok [OF ok(2)] by blast
  have "retains w0 w2"
    using w1(4) w2 by (simp add: retains_def alike_def)
  moreover have "alike w0 w2" if "pauses (cx_sock w)"
    using w1(4) w1(5) [OF that] w2 ok(1) by (auto simp: alike_def conn_ok_def)
  ultimately show ?thesis
    using w1(1-3) w2(1) taken_alike [OF w1(2)] by (auto simp: doRead_def)
qed

end

end
