(* ===== verification/Http_Streaming.thy ===== *)
theory Http_Streaming
  imports Http_Serving Read_Loop
begin

text \<open>
  The two ends of an HTTP connection over their sockets: the read loop of \<open>Connection\<close> with the \<open>readDone\<close> of the server and
  of the client.  However the sockets cut the streams, except behind a carriage return, the server answers all requests, and the
  client's callbacks get all responses, in order.
\<close>

section \<open>Messages of a stream\<close>

text \<open>
  A stream that starts inside the message behind \<open>xs\<close> ends inside one of the messages of \<open>xs @ ys\<close>: some messages are
  complete, and what follows is a proper part of the next one.  \<open>last\<close> is the message that is not complete in the stream.
\<close>

lemma split_messages:
  assumes "p @ later = concat (map txt ms) @ rest" "strict_prefix rest (txt m0)" "\<forall>m \<in> set ms. txt m \<noteq> []"
  shows "\<exists>i part. i \<le> length ms \<and> p = concat (map txt (take i ms)) @ part \<and> strict_prefix part (txt ((ms @ [m0]) ! i)) \<and>
    part @ later = concat (map txt (drop i ms)) @ rest"
  using assms
proof (induction ms arbitrary: p)
  case Nil
  then have "strict_prefix p (txt m0)"
    by (metis append_Nil concat.simps(1) list.simps(8) prefixI prefix_order.le_less_trans)
  then show ?case
    using Nil by (intro exI [of _ 0] exI [of _ p]) simp
next
  case (Cons m ms)
  show ?case
  proof (cases "length p < length (txt m)")
    case True
    then obtain us where "p @ us = txt m"
      using Cons.prems(1) by (auto simp: append_eq_append_conv2)
    then have "strict_prefix p (txt m)"
      using True by (metis order_less_irrefl prefixI strict_prefixI)
    then show ?thesis
      using Cons.prems by (intro exI [of _ 0] exI [of _ p]) simp
  next
    case False
    then obtain p1 where p1: "p = txt m @ p1" "p1 @ later = concat (map txt ms) @ rest"
    proof -
      have "txt m @ concat (map txt ms) @ rest = p @ later"
        using Cons.prems(1) by simp
      then have "txt m = take (length (txt m)) p" and d: "concat (map txt ms) @ rest = drop (length (txt m)) p @ later"
        using False by (auto simp: append_eq_append_conv_if)
      then have "p = txt m @ drop (length (txt m)) p"
        by (metis append_take_drop_id)
      then show ?thesis
        using that d by metis
    qed
    obtain i part where "i \<le> length ms" "p1 = concat (map txt (take i ms)) @ part" "strict_prefix part (txt ((ms @ [m0]) ! i))"
        "part @ later = concat (map txt (drop i ms)) @ rest"
      using Cons.IH [OF p1(2)] Cons.prems(2,3) by auto
    then show ?thesis
      using p1(1) by (intro exI [of _ "Suc i"] exI [of _ part]) simp
  qed
qed

text \<open>A proper part of the next message is everything that is still expected only when no complete message is left.\<close>

lemma all_taken:
  assumes "part = concat (map txt (drop j ms)) @ rest" "strict_prefix part (txt ((ms @ [m0]) ! j))" "j \<le> length ms"
  shows "j = length ms \<and> part = rest"
proof (rule ccontr)
  assume "\<not> ?thesis"
  then have j: "j < length ms"
    using assms by (cases "j = length ms") auto
  then have "drop j ms = ms ! j # drop (Suc j) ms"
    by (simp add: Cons_nth_drop_Suc)
  then have "length (txt (ms ! j)) \<le> length part"
    using assms(1) by simp
  moreover have "length part < length (txt (ms ! j))"
    using assms(2) j prefix_length_less by (fastforce simp: nth_append)
  ultimately show False
    by simp
qed

text \<open>What is still expected of a stream of which \<open>j\<close> messages were taken.\<close>

definition expected :: "('m \<Rightarrow> string) \<Rightarrow> 'm list \<Rightarrow> string \<Rightarrow> nat \<Rightarrow> string" where
  "expected txt ms rest j = concat (map txt (drop j ms)) @ rest"

text \<open>Bytes that arrive complete some of the messages, and leave a proper part of the next one.\<close>

lemma messages_arrive:
  assumes "\<forall>m \<in> set ms. txt m \<noteq> []" "strict_prefix rest (txt m0)" "j \<le> length ms" "s @ later = expected txt ms rest j"
  obtains i part where "j + i \<le> length ms" "s = concat (map txt (take i (drop j ms))) @ part"
    "strict_prefix part (txt ((ms @ [m0]) ! (j + i)))" "part @ later = expected txt ms rest (j + i)"
proof -
  have "\<forall>m \<in> set (drop j ms). txt m \<noteq> []"
    using assms(1) by (auto dest: in_set_dropD)
  moreover have "s @ later = concat (map txt (drop j ms)) @ rest"
    using assms(4) by (simp add: expected_def)
  ultimately obtain i part where i: "i \<le> length (drop j ms)" "s = concat (map txt (take i (drop j ms))) @ part"
      "strict_prefix part (txt ((drop j ms @ [m0]) ! i))" "part @ later = concat (map txt (drop i (drop j ms))) @ rest"
    using split_messages [of s later "txt" "drop j ms" rest m0] assms(2) by blast
  have "(drop j ms @ [m0]) ! i = (ms @ [m0]) ! (j + i)"
    using i(1) assms(3) by (cases "i < length (drop j ms)") (auto simp: nth_append)
  then show ?thesis
    using that [of i part] i assms(3) by (simp add: expected_def add.commute)
qed

lemma strict_prefix_empty: "t \<noteq> [] \<Longrightarrow> strict_prefix [] t"
  by (cases t) simp_all

lemma last_of_part:
  assumes "p @ c = q @ part" "c \<noteq> []" "last c \<noteq> CR"
  shows "part = [] \<or> last part \<noteq> CR"
  using assms by (metis last_appendR)

section \<open>The server\<close>

definition req_text :: "request \<times> string list \<Rightarrow> string" where
  "req_text = (\<lambda>(rq, hs). request_text rq hs)"

lemma req_text_nonempty: "req_text x \<noteq> []"
  by (simp add: req_text_def request_text_def case_prod_unfold)

definition req_ok :: "request \<times> string list \<Rightarrow> bool" where
  "req_ok x \<longleftrightarrow> tokens (fst x) \<and> header_lines (snd x)"

definition answers :: "http_env \<Rightarrow> (request \<times> string list) list \<Rightarrow> string" where
  "answers env reqs = concat (map (response_text env \<circ> rq_address \<circ> fst) reqs)"

text \<open>A list of requests for documents, with one that is not complete behind it.\<close>

definition request_stream :: "http_env \<Rightarrow> nat \<Rightarrow> (request \<times> string list) list \<Rightarrow> request \<times> string list \<Rightarrow> string \<Rightarrow> bool" where
  "request_stream env r reqs x0 rest \<longleftrightarrow> (\<forall>x \<in> set reqs. is_document x) \<and> fits env r (map (rq_address \<circ> fst) reqs) \<and> req_ok x0 \<and>
     strict_prefix rest (req_text x0)"

definition server_taken ::
    "http_env \<Rightarrow> nat \<Rightarrow> (request \<times> string list) list \<Rightarrow> request \<times> string list \<Rightarrow> string \<Rightarrow> string \<Rightarrow> nat \<Rightarrow> server_world \<Rightarrow> bool" where
  "server_taken env r reqs x0 rest sent j w \<longleftrightarrow> request_stream env r reqs x0 rest \<and> j \<le> length reqs \<and>
     serving env w (rooms env r (map (rq_address \<circ> fst) (take j reqs))) \<and> produced w = sent @ answers env (take j reqs) \<and>
     strict_prefix (contents (cn_in (cx_conn w))) (req_text ((reqs @ [x0]) ! j))"

lemma serving_alike:
  assumes "serving env w r" "alike w w'"
  shows "serving env w' r"
  using assms alike_conn_ok [OF assms(2)] by (auto simp: serving_def alike_def)

lemma serving_in:
  assumes "serving env w r" "readable b"
  shows "serving env (with_in b w) r"
  using assms by (simp add: serving_def with_in_def upd_conn_def conn_ok_def)

lemma rooms_append: "rooms env r (as @ bs) = rooms env (rooms env r as) bs"
  by (simp add: rooms_def)

lemma next_request:
  assumes "request_stream env r reqs x0 rest" "j + i \<le> length reqs"
  shows "tokens (fst ((reqs @ [x0]) ! (j + i)))" "header_lines (snd ((reqs @ [x0]) ! (j + i)))"
proof -
  have "req_ok ((reqs @ [x0]) ! (j + i))"
  proof (cases "j + i < length reqs")
    case True
    then have "is_document (reqs ! (j + i))"
      using assms(1) by (simp add: request_stream_def)
    then show ?thesis
      using True by (simp add: nth_append req_ok_def is_document_def)
  next
    case False
    then show ?thesis
      using assms by (simp add: nth_append request_stream_def)
  qed
  then show "tokens (fst ((reqs @ [x0]) ! (j + i)))" "header_lines (snd ((reqs @ [x0]) ! (j + i)))"
    by (simp_all add: req_ok_def)
qed

lemma next_fits:
  assumes "request_stream env r reqs x0 rest"
  shows "fits env (rooms env r (map (rq_address \<circ> fst) (take j reqs))) (map (rq_address \<circ> fst) (take i (drop j reqs)))"
proof -
  let ?as = "map (rq_address \<circ> fst) reqs"
  have "fits env r (take j ?as @ take i (drop j ?as) @ drop i (drop j ?as))"
    using assms by (simp only: append_take_drop_id request_stream_def)
  then show ?thesis
    by (simp only: fits_append take_map drop_map)
qed

lemma server_takes_more:
  assumes tk: "server_taken env r reqs x0 rest sent j w" and b: "readable b" "contents b = contents (cn_in (cx_conn w)) @ c"
    and c: "c \<noteq> []" "last c \<noteq> CR" "contents b @ later = expected req_text reqs rest j"
  shows "\<exists>w' i. server_readDone env (with_in b w) = Inr (True, w') \<and> server_taken env r reqs x0 rest sent i w' \<and>
    contents (cn_in (cx_conn w')) @ later = expected req_text reqs rest i \<and> same_reads (cx_sock w) (cx_sock w')"
proof -
  let ?r = "rooms env r (map (rq_address \<circ> fst) (take j reqs))"
  have rs: "request_stream env r reqs x0 rest" and j: "j \<le> length reqs" and sv: "serving env w ?r"
      and pw: "produced w = sent @ answers env (take j reqs)"
    using tk by (simp_all add: server_taken_def)
  obtain i part where i: "j + i \<le> length reqs" "contents b = concat (map req_text (take i (drop j reqs))) @ part"
      "strict_prefix part (req_text ((reqs @ [x0]) ! (j + i)))" "part @ later = expected req_text reqs rest (j + i)"
    using messages_arrive [OF _ _ j c(3), of x0] rs req_text_nonempty unfolding request_stream_def by blast
  let ?new = "take i (drop j reqs)" and ?x = "(reqs @ [x0]) ! (j + i)"
  have part: "part = [] \<or> last part \<noteq> CR"
    by (rule last_of_part [OF _ c(1,2)]) (use i(2) b(2) in simp)
  have doc: "\<forall>x \<in> set ?new. is_document x"
    using rs by (auto simp: request_stream_def dest: in_set_takeD in_set_dropD)
  have ws: "contents (cn_in (cx_conn (with_in b w))) = concat (map (\<lambda>(rq, hs). request_text rq hs) ?new) @ part"
      and pf: "strict_prefix part (request_text (fst ?x) (snd ?x))" and so: "cx_sock (with_in b w) = cx_sock w"
      and pb: "produced (with_in b w) = produced w"
    using i(2,3) by (simp_all add: with_in_def upd_conn_def req_text_def case_prod_unfold produced_def)
  obtain w' where w': "server_loop env (with_in b w) = Some (Inr (True, w'))" "contents (cn_in (cx_conn w')) = part"
      "produced w' = produced (with_in b w) @ answers env ?new"
      "serving env w' (rooms env ?r (map (rq_address \<circ> fst) ?new))" "same_reads (cx_sock (with_in b w)) (cx_sock w')"
    using server_loop_pipeline [OF serving_in [OF sv b(1)] ws doc next_fits [OF rs] pf part next_request [OF rs i(1)]]
    unfolding answers_def by blast
  have "answers env (take (j + i) reqs) = answers env (take j reqs) @ answers env ?new"
      "rooms env r (map (rq_address \<circ> fst) (take (j + i) reqs)) = rooms env ?r (map (rq_address \<circ> fst) ?new)"
    by (simp_all only: take_add map_append answers_def concat_append rooms_append)
  then have "server_taken env r reqs x0 rest sent (j + i) w'"
    using rs i(1,3) w'(2-4) pw pb by (simp add: server_taken_def)
  then show ?thesis
    using w'(1,2,5) so i(4) by (auto simp: server_readDone_def)
qed

interpretation server: stream_reader "server_readDone env" "server_taken env r reqs x0 rest sent" "expected req_text reqs rest"
  for env r reqs x0 rest sent
proof (unfold_locales, goal_cases)
  case (1 j w)
  then show ?case
    by (simp add: server_taken_def serving_def)
next
  case (2 j w w')
  then show ?case
    using serving_alike by (auto simp: server_taken_def produced_def alike_def)
next
  case (3 j w b c later)
  then show ?case
    by (rule server_takes_more)
qed

lemma server_reads_all:
  assumes "serving env w r" "request_stream env r reqs x0 rest"
    and "feeds (so_read (cx_sock w)) (so_reads (cx_sock w)) s" "contents (cn_in (cx_conn w)) @ s = concat (map req_text reqs) @ rest"
    and "strict_prefix (contents (cn_in (cx_conn w))) (req_text ((reqs @ [x0]) ! 0))"
  shows "\<exists>w'. doRead raw (server_readDone env) w = Some (Inr w') \<and> contents (cn_in (cx_conn w')) = rest \<and>
    produced w' = produced w @ answers env reqs \<and>
    (pauses (cx_sock w) \<longrightarrow> serving env w' (rooms env r (map (rq_address \<circ> fst) reqs)))"
proof -
  have "server_taken env r reqs x0 rest (produced w) 0 w"
    using assms(1,2,5) by (simp add: server_taken_def answers_def rooms_def)
  moreover have "contents (cn_in (cx_conn w)) @ s = expected req_text reqs rest 0"
    using assms(4) by (simp add: expected_def)
  ultimately obtain w' w0 j where w': "doRead raw (server_readDone env) w = Some (Inr w')"
      "server_taken env r reqs x0 rest (produced w) j w0" "contents (cn_in (cx_conn w0)) = expected req_text reqs rest j"
      "retains w0 w'" "pauses (cx_sock w) \<longrightarrow> server_taken env r reqs x0 rest (produced w) j w'"
    using server.doRead_feed assms(3) by blast
  then have j: "j = length reqs" "contents (cn_in (cx_conn w0)) = rest"
    using all_taken [of "contents (cn_in (cx_conn w0))" req_text j reqs rest x0] by (simp_all add: expected_def server_taken_def)
  have "produced w' = produced w0" "contents (cn_in (cx_conn w')) = rest"
    using w'(4) j(2) by (simp_all add: retains_def produced_def)
  then show ?thesis
    using w'(1,2,5) j(1) by (simp add: server_taken_def)
qed

text \<open>
  C6: Let a stream of requests for documents, not for \<open>quit\<close> or \<open>stats\<close>, arrive in any reads, some of them interrupted,
  of which none ends right behind a carriage return; let the documents be files of at most one block or missing, and no answer end
  exactly at the end of a chunk of the output.  Then \<open>doRead\<close> of a server connection that is referred to returns with all
  complete requests answered: their responses, files with their headers or error pages, were appended to what the connection
  sends, in the order of the requests, and the beginning of a further request is kept in the input.  When the socket stops only
  because nothing more has arrived, the connection still exists and can serve the next stream; any other stop gives up the
  reference of the read.  (A read that ends in a carriage return is judged by a byte that was not received, and an answer that
  fills a chunk stalls the next one.)
\<close>

theorem server_answers_stream:
  assumes "serving env w r" "request_stream env r reqs x0 rest"
    and "feeds (so_read (cx_sock w)) (so_reads (cx_sock w)) s" "contents (cn_in (cx_conn w)) @ s = concat (map req_text reqs) @ rest"
    and "strict_prefix (contents (cn_in (cx_conn w))) (req_text ((reqs @ [x0]) ! 0))"
  shows "\<exists>w'. doRead raw (server_readDone env) w = Some (Inr w') \<and> contents (cn_in (cx_conn w')) = rest \<and>
    produced w' = produced w @ answers env reqs \<and>
    (pauses (cx_sock w) \<longrightarrow> serving env w' (rooms env r (map (rq_address \<circ> fst) reqs)))"
  using server_reads_all [OF assms] by blast

section \<open>The client\<close>

text \<open>A proper part of a message that does not end in a carriage return is unfinished.\<close>

lemma line_part:
  assumes "prefix p (w @ CR # LF # t)" "CR \<notin> set w" "p = [] \<or> last p \<noteq> CR"
  shows "CR \<notin> set p \<or> (\<exists>q. p = w @ CR # LF # q \<and> prefix q t \<and> (q = [] \<or> last q \<noteq> CR))"
proof -
  consider "prefix p w" | u where "p = w @ u" "prefix u (CR # LF # t)"
    using assms(1) by (auto simp: prefix_append)
  then show ?thesis
  proof cases
    case 1
    then show ?thesis
      using assms(2) set_mono_prefix by blast
  next
    case 2
    then show ?thesis
      using assms(2,3) by (auto simp: prefix_Cons split: if_splits)
  qed
qed

lemma headers_part:
  assumes "prefix p (lines_text hs @ CR # LF # t)" "header_lines hs" "p = [] \<or> last p \<noteq> CR"
  shows "(\<exists>hs1 hs2 part. hs = hs1 @ hs2 \<and> p = lines_text hs1 @ part \<and> CR \<notin> set part) \<or>
    (\<exists>q. p = lines_text hs @ CR # LF # q \<and> prefix q t)"
  using assms
proof (induction hs arbitrary: p)
  case Nil
  then show ?case
    using line_part [of p "[]" t] by (auto intro: exI [of _ "[]"])
next
  case (Cons h hs)
  consider "CR \<notin> set p" | q where "p = h @ CR # LF # q" "prefix q (lines_text hs @ CR # LF # t)" "q = [] \<or> last q \<noteq> CR"
    using line_part [of p h "lines_text hs @ CR # LF # t"] Cons.prems by auto
  then show ?case
  proof cases
    case 1
    then show ?thesis
      by (intro disjI1 exI [of _ "[]"] exI [of _ "h # hs"] exI [of _ p]) simp
  next
    case 2
    have "header_lines hs"
      using Cons.prems(2) by simp
    from Cons.IH [OF 2(2) this 2(3)] show ?thesis
    proof
      assume "\<exists>hs1 hs2 part. hs = hs1 @ hs2 \<and> q = lines_text hs1 @ part \<and> CR \<notin> set part"
      then obtain hs1 hs2 part where "hs = hs1 @ hs2" "q = lines_text hs1 @ part" "CR \<notin> set part"
        by blast
      then show ?thesis
        using 2(1) by (intro disjI1 exI [of _ "h # hs1"] exI [of _ hs2] exI [of _ part]) simp
    qed (use 2(1) in auto)
  qed
qed

lemma lines_length_part: "lines_length (hs1 @ hs2) n = Inr k \<Longrightarrow> \<exists>k1. lines_length hs1 n = Inr k1"
  by (induction hs1 arbitrary: n) (auto simp: rbind_Inr_iff)

lemma message_part:
  assumes "message_ok m" "strict_prefix p (message_text m)" "p = [] \<or> last p \<noteq> CR"
  shows "unfinished p"
proof -
  obtain status hs body where m: "m = (status, hs, body)"
    by (cases m)
  have ok: "CR \<notin> set status" "header_lines hs" "lines_length hs 0 = Inr (length body)"
    using assms(1) announced_length by (simp_all add: m message_ok_def)
  have "prefix p (status @ CR # LF # (lines_text hs @ CR # LF # body))"
    using assms(2) by (simp add: m message_text_def strict_prefix_def)
  then consider "CR \<notin> set p" | q where "p = status @ CR # LF # q" "prefix q (lines_text hs @ CR # LF # body)" "q = [] \<or> last q \<noteq> CR"
    using line_part [OF _ ok(1) assms(3)] by blast
  then show ?thesis
  proof cases
    case 2
    from headers_part [OF 2(2) ok(2) 2(3)] show ?thesis
    proof
      assume "\<exists>hs1 hs2 part. hs = hs1 @ hs2 \<and> q = lines_text hs1 @ part \<and> CR \<notin> set part"
      then obtain hs1 hs2 part where h: "hs = hs1 @ hs2" "q = lines_text hs1 @ part" "CR \<notin> set part"
        by blast
      moreover have "header_lines hs1"
        using ok(2) h(1) by (simp add: header_lines_def)
      ultimately show ?thesis
        using 2(1) ok(1) lines_length_part [of hs1 hs2 0] ok(3) unfolding unfinished_def by fastforce
    next
      assume "\<exists>b. q = lines_text hs @ CR # LF # b \<and> prefix b body"
      then obtain b where b: "q = lines_text hs @ CR # LF # b" "prefix b body"
        by blast
      then have "length b < length body"
        using assms(2) 2(1) by (auto simp: m message_text_def strict_prefix_def prefix_def)
      then show ?thesis
        using 2(1) b(1) ok unfolding unfinished_def message_text_def by (intro disjI2) auto
    qed
  qed (simp add: unfinished_def)
qed

text \<open>Responses with one that is not complete behind them.\<close>

definition message_stream :: "message list \<Rightarrow> message \<Rightarrow> string \<Rightarrow> bool" where
  "message_stream ms m0 rest \<longleftrightarrow> (\<forall>m \<in> set ms. message_ok m) \<and> message_ok m0 \<and> strict_prefix rest (message_text m0)"

definition client_taken ::
    "message list \<Rightarrow> message \<Rightarrow> string \<Rightarrow> (response \<Rightarrow> 'u \<Rightarrow> 'u) option list \<Rightarrow> 'u \<Rightarrow> nat \<Rightarrow> 'u client_world \<Rightarrow> bool" where
  "client_taken ms m0 rest cbs u j w \<longleftrightarrow> message_stream ms m0 rest \<and> j \<le> length ms \<and> conn_ok w \<and> readable (cn_in (cx_conn w)) \<and>
     hc_response_cbs (cx_app w) = drop j cbs \<and> hc_user (cx_app w) = deliver cbs (map message_response (take j ms)) u \<and>
     strict_prefix (contents (cn_in (cx_conn w))) (message_text ((ms @ [m0]) ! j))"

lemma message_text_nonempty: "message_text m \<noteq> []"
  by (simp add: message_text_def case_prod_unfold)

lemma deliver_append: "deliver cbs (xs @ ys) u = deliver (drop (length xs) cbs) ys (deliver cbs xs u)"
proof (induction xs arbitrary: cbs u)
  case Nil
  then show ?case
    by (simp add: deliver_def)
next
  case (Cons x xs)
  show ?case
    using Cons [of "drop 1 cbs" "deliver cbs [x] u"] deliver_Cons [of cbs x "xs @ ys" u] deliver_Cons [of cbs x xs u] by simp
qed

lemma next_message:
  assumes "message_stream ms m0 rest" "j \<le> length ms"
  shows "message_ok ((ms @ [m0]) ! j)"
  using assms by (cases "j = length ms") (simp_all add: message_stream_def nth_append)

lemma client_takes_more:
  assumes tk: "client_taken ms m0 rest cbs u j w" and b: "readable b" "contents b = contents (cn_in (cx_conn w)) @ c"
    and c: "c \<noteq> []" "last c \<noteq> CR" "contents b @ later = expected message_text ms rest j"
  shows "\<exists>w' i. client_readDone (with_in b w) = Inr (True, w') \<and> client_taken ms m0 rest cbs u i w' \<and>
    contents (cn_in (cx_conn w')) @ later = expected message_text ms rest i \<and> same_reads (cx_sock w) (cx_sock w')"
proof -
  have st: "message_stream ms m0 rest" and j: "j \<le> length ms" and ok: "conn_ok w"
      and cbs: "hc_response_cbs (cx_app w) = drop j cbs" "hc_user (cx_app w) = deliver cbs (map message_response (take j ms)) u"
    using tk by (simp_all add: client_taken_def)
  obtain i part where i: "j + i \<le> length ms" "contents b = concat (map message_text (take i (drop j ms))) @ part"
      "strict_prefix part (message_text ((ms @ [m0]) ! (j + i)))" "part @ later = expected message_text ms rest (j + i)"
    using messages_arrive [OF _ _ j c(3), of m0] st message_text_nonempty unfolding message_stream_def by blast
  let ?new = "take i (drop j ms)"
  have "part = [] \<or> last part \<noteq> CR"
    by (rule last_of_part [OF _ c(1,2)]) (use i(2) b(2) in simp)
  then have part: "unfinished part"
    using message_part next_message [OF st i(1)] i(3) by blast
  have new: "\<forall>m \<in> set ?new. message_ok m"
    using st by (auto simp: message_stream_def dest: in_set_takeD in_set_dropD)
  have wb: "readable (cn_in (cx_conn (with_in b w)))" "contents (cn_in (cx_conn (with_in b w))) = concat (map message_text ?new) @ part"
      "conn_ok (with_in b w)" "cx_app (with_in b w) = cx_app w" "cx_sock (with_in b w) = cx_sock w"
    using b(1) i(2) ok by (simp_all add: with_in_def upd_conn_def conn_ok_def)
  obtain w' where w': "client_loop (with_in b w) = Some (Inr (True, w'))" "readable (cn_in (cx_conn w'))" "cx_sock w' = cx_sock w"
      "conn_ok w'" "contents (cn_in (cx_conn w')) = part" "hc_response_cbs (cx_app w') = drop (length ?new) (drop j cbs)"
      "hc_user (cx_app w') = deliver (drop j cbs) (map message_response ?new) (hc_user (cx_app w))"
    using client_loop_all [OF wb(1,2) new part] wb(3-5) cbs(1) by metis
  have len: "length ?new = i" "length (map message_response (take j ms)) = j"
    using i(1) j by simp_all
  have "map message_response (take (j + i) ms) = map message_response (take j ms) @ map message_response ?new"
    by (simp only: take_add map_append)
  then have "hc_user (cx_app w') = deliver cbs (map message_response (take (j + i) ms)) u"
    using w'(7) cbs(2) len(2) by (simp only: deliver_append)
  moreover have "hc_response_cbs (cx_app w') = drop (j + i) cbs"
    using w'(6) len(1) by (simp add: add.commute)
  ultimately have "client_taken ms m0 rest cbs u (j + i) w'"
    using st i(1,3) w'(2,4,5) by (simp add: client_taken_def)
  then show ?thesis
    using w'(1,3,5) i(4) by (auto simp: client_readDone_def same_reads_def)
qed

interpretation client: stream_reader client_readDone "client_taken ms m0 rest cbs u" "expected message_text ms rest"
  for ms m0 rest cbs u
proof (unfold_locales, goal_cases)
  case (1 j w)
  then show ?case
    by (simp add: client_taken_def)
next
  case (2 j w w')
  then show ?case
    using alike_conn_ok [of w w'] by (auto simp: client_taken_def alike_def)
next
  case (3 j w b c later)
  then show ?case
    by (rule client_takes_more)
qed

lemma client_reads_all:
  assumes "conn_ok w" "readable (cn_in (cx_conn w))" "message_stream ms m0 rest"
    and "feeds (so_read (cx_sock w)) (so_reads (cx_sock w)) s" "contents (cn_in (cx_conn w)) @ s = concat (map message_text ms) @ rest"
    and "strict_prefix (contents (cn_in (cx_conn w))) (message_text ((ms @ [m0]) ! 0))"
  shows "\<exists>w'. doRead raw client_readDone w = Some (Inr w') \<and> contents (cn_in (cx_conn w')) = rest \<and>
    hc_response_cbs (cx_app w') = drop (length ms) (hc_response_cbs (cx_app w)) \<and>
    hc_user (cx_app w') = deliver (hc_response_cbs (cx_app w)) (map message_response ms) (hc_user (cx_app w)) \<and>
    (pauses (cx_sock w) \<longrightarrow> conn_ok w' \<and> readable (cn_in (cx_conn w')))"
proof -
  let ?cbs = "hc_response_cbs (cx_app w)" and ?u = "hc_user (cx_app w)"
  have "client_taken ms m0 rest ?cbs ?u 0 w"
    using assms(1-3,6) by (simp add: client_taken_def deliver_def)
  moreover have "contents (cn_in (cx_conn w)) @ s = expected message_text ms rest 0"
    using assms(5) by (simp add: expected_def)
  ultimately obtain w' w0 j where w': "doRead raw client_readDone w = Some (Inr w')" "client_taken ms m0 rest ?cbs ?u j w0"
      "contents (cn_in (cx_conn w0)) = expected message_text ms rest j" "retains w0 w'"
      "pauses (cx_sock w) \<longrightarrow> client_taken ms m0 rest ?cbs ?u j w'"
    using client.doRead_feed [OF _ assms(4), of ms m0 rest ?cbs ?u 0 raw] by blast
  then have j: "j = length ms" "contents (cn_in (cx_conn w0)) = rest"
    using all_taken [of "contents (cn_in (cx_conn w0))" message_text j ms rest m0] by (simp_all add: expected_def client_taken_def)
  have "cx_app w' = cx_app w0" "contents (cn_in (cx_conn w')) = rest"
    using w'(4) j(2) by (simp_all add: retains_def)
  then show ?thesis
    using w'(1,2,5) j(1) by (simp add: client_taken_def)
qed

text \<open>
  C7: Let a stream of responses arrive in any reads, some of them interrupted, of which none ends right behind a carriage return;
  each response announces its body by a single \<open>Content-Length:\<close> line in decimal, or has none.  Then \<open>doRead\<close> of a client
  connection that is referred to returns after giving every complete response, in order, to the callback of its request; the
  callbacks of the requests that are not yet answered and the beginning of the next response are kept.  When the socket stops
  only because nothing more has arrived, the connection still exists and can read on.
\<close>

theorem client_delivers_stream:
  assumes "conn_ok w" "readable (cn_in (cx_conn w))" "message_stream ms m0 rest"
    and "feeds (so_read (cx_sock w)) (so_reads (cx_sock w)) s" "contents (cn_in (cx_conn w)) @ s = concat (map message_text ms) @ rest"
    and "strict_prefix (contents (cn_in (cx_conn w))) (message_text ((ms @ [m0]) ! 0))"
  shows "\<exists>w'. doRead raw client_readDone w = Some (Inr w') \<and> contents (cn_in (cx_conn w')) = rest \<and>
    hc_response_cbs (cx_app w') = drop (length ms) (hc_response_cbs (cx_app w)) \<and>
    hc_user (cx_app w') = deliver (hc_response_cbs (cx_app w)) (map message_response ms) (hc_user (cx_app w)) \<and>
    (pauses (cx_sock w) \<longrightarrow> conn_ok w' \<and> readable (cn_in (cx_conn w')))"
  using client_reads_all [OF assms] by blast

section \<open>The properties on concrete sockets\<close>

text \<open>A socket whose first read is interrupted and that then delivers the given pieces.\<close>

definition pieces :: "char list list \<Rightarrow> nat \<Rightarrow> nat \<Rightarrow> read_res" where
  "pieces cs k n = (if k = 0 then RErr EINTR else if k \<le> length cs then RData (cs ! (k - 1)) else RErr EAGAIN)"

lemma feeds_pieces:
  assumes "\<forall>c \<in> set cs. c \<noteq> [] \<and> length c \<le> 1024 \<and> last c \<noteq> CR"
  shows "feeds (pieces cs) 0 (concat cs)"
proof -
  have "feeds (pieces cs) (Suc k) (concat (drop k cs))" if "k \<le> length cs" for k
    using that
  proof (induction "length cs - k" arbitrary: k)
    case 0
    then show ?case
      by (simp add: feeds_end pieces_def stops_def)
  next
    case (Suc x)
    then have k: "k < length cs"
      by simp
    have "feeds (pieces cs) (Suc (Suc k)) (concat (drop (Suc k) cs))"
      using Suc.hyps(1) [of "Suc k"] Suc.hyps(2) k by simp
    moreover have "cs ! k \<in> set cs" "drop k cs = cs ! k # drop (Suc k) cs"
      using k by (simp_all add: Cons_nth_drop_Suc)
    moreover have l: "length (cs ! k) \<le> 1024"
      using k assms by simp
    ultimately have "concat (drop k cs) = cs ! k @ concat (drop (Suc k) cs) \<and> cs ! k \<noteq> [] \<and> length (cs ! k) \<le> n \<and> last (cs ! k) \<noteq> CR \<and>
        pieces cs (Suc k) n = RData (cs ! k) \<and> feeds (pieces cs) (Suc k + 1) (concat (drop (Suc k) cs))" if "1024 \<le> n" for n
      using k assms le_trans [OF l that] by (auto simp: pieces_def)
    then show ?case
      by - (rule feeds_data, blast)
  qed
  from this [of 0] show ?thesis
    by - (rule feeds_interrupted, simp_all add: pieces_def)
qed

lemma pauses_pieces:
  assumes "so_read so = pieces cs" "\<forall>c \<in> set cs. c \<noteq> []"
  shows "pauses so"
  unfolding pauses_def
proof (intro allI impI)
  fix k n
  assume "stops (so_read so k n)"
  then have st: "stops (pieces cs k n)"
    by (simp add: assms(1))
  have "cs ! (k - 1) \<noteq> []" if "k \<noteq> 0" "k \<le> length cs"
    using that assms(2) by simp
  then show "so_read so k n = RErr EAGAIN"
    using st by (auto simp: assms(1) pieces_def stops_def split: if_splits)
qed

text \<open>A server to which a request and the beginning of a second one come in two pieces.\<close>

definition demo_streaming :: server_world where
  "demo_streaming = (set_in (new_buffer (\<lambda>_ _. CHR 0x00)) demo_server)
     \<lparr>cx_sock := demo_socket\<lparr>so_read := pieces [take 7 demo_input, drop 7 demo_input]\<rparr>\<rparr>"

lemma demo_streaming_facts:
  "serving demo_env demo_streaming BlockSize" "contents (cn_in (cx_conn demo_streaming)) = []" "produced demo_streaming = []"
  "feeds (so_read (cx_sock demo_streaming)) (so_reads (cx_sock demo_streaming)) demo_input" "pauses (cx_sock demo_streaming)"
proof -
  have n: "stream_ok (new_buffer (\<lambda>_ _. CHR 0x00))" "contents (new_buffer (\<lambda>_ _. CHR 0x00)) = []"
    using stream_ok_new new_buffer_ok(4) by blast+
  show "serving demo_env demo_streaming BlockSize"
    using demo_server_serving stream_ok_readable [OF n(1)] demo_socket_ok(1)
    by (simp add: demo_streaming_def serving_def set_in_def upd_conn_def conn_ok_def write_ok_def)
  show "contents (cn_in (cx_conn demo_streaming)) = []"
    using n(2) by (simp add: demo_streaming_def set_in_def upd_conn_def)
  show "produced demo_streaming = []"
    using n(2) by (simp add: demo_streaming_def set_in_def upd_conn_def produced_def demo_server_def server_connection_def newDescriptor_def
        demo_socket_def Let_def)
  have p: "\<forall>c \<in> set [take 7 demo_input, drop 7 demo_input]. c \<noteq> [] \<and> length c \<le> 1024 \<and> last c \<noteq> CR"
    by (simp add: demo_input_def request_text_def start_line_def demo_request_def)
  show "pauses (cx_sock demo_streaming)"
    by (rule pauses_pieces [of _ "[take 7 demo_input, drop 7 demo_input]"]) (use p in \<open>simp_all add: demo_streaming_def\<close>)
  from feeds_pieces [OF p] show "feeds (so_read (cx_sock demo_streaming)) (so_reads (cx_sock demo_streaming)) demo_input"
    by (simp add: demo_streaming_def demo_socket_def)
qed

theorem server_answers_stream_witness:
  "\<exists>w'. doRead (\<lambda>_ _. CHR 0x00) (server_readDone demo_env) demo_streaming = Some (Inr w') \<and> contents (cn_in (cx_conn w')) = ''GET'' \<and>
     produced w' = concat (ok_head 2) @ ''hi'' \<and> cn_alive (cx_conn w')"
proof -
  let ?x = "(demo_request, [''Host: x''])"
  have a: "rq_address demo_request = ''a''"
    by (simp add: demo_request_def)
  have t: "req_text ?x = request_text demo_request [''Host: x'']" "strict_prefix ''GET'' (req_text ?x)"
    by (simp_all add: req_text_def request_text_def start_line_def demo_request_def)
  then have "request_stream demo_env BlockSize [?x] ?x ''GET''"
    using demo_request_facts demo_fits by (simp add: request_stream_def is_document_def req_ok_def a)
  moreover have "demo_input = concat (map req_text [?x]) @ ''GET''"
    using t(1) by (simp add: demo_input_def)
  moreover have "strict_prefix [] (req_text (([?x] @ [?x]) ! 0))"
    by (rule strict_prefix_empty [OF req_text_nonempty])
  ultimately show ?thesis
    using server_answers_stream [OF demo_streaming_facts(1) _ demo_streaming_facts(4), of "[?x]" ?x "''GET''" "\<lambda>_ _. CHR 0x00"]
      demo_streaming_facts(2,3,5) demo_response by (auto simp: answers_def a serving_def conn_ok_def)
qed

text \<open>A client to which a response and the beginning of a second one come in two pieces.\<close>

definition demo_waiting :: "string list client_world" where
  "demo_waiting =
     (let raw = \<lambda>_ _. CHR 0x00; (c, im) = server_connection raw raw 5 1 2 (new_io_manager 1)
      in \<lparr>cx_conn = c\<lparr>cn_refs := 1\<rparr>,
          cx_sock = demo_socket\<lparr>so_read := pieces [take 7 (message_text demo_message), drop 7 (message_text demo_message) @ ''O'']\<rparr>,
          cx_im = im, cx_app = cx_app demo_client\<rparr>)"

lemma demo_waiting_facts:
  "conn_ok demo_waiting" "readable (cn_in (cx_conn demo_waiting))" "contents (cn_in (cx_conn demo_waiting)) = []"
  "feeds (so_read (cx_sock demo_waiting)) (so_reads (cx_sock demo_waiting)) (message_text demo_message @ ''O'')"
  "cx_app demo_waiting = cx_app demo_client"
proof -
  have n: "stream_ok (new_buffer (\<lambda>_ _. CHR 0x00))" "contents (new_buffer (\<lambda>_ _. CHR 0x00)) = []"
    using stream_ok_new new_buffer_ok(4) by blast+
  then show "conn_ok demo_waiting" "readable (cn_in (cx_conn demo_waiting))" "contents (cn_in (cx_conn demo_waiting)) = []"
      "cx_app demo_waiting = cx_app demo_client"
    using demo_socket_ok(1)
    by (auto simp: demo_waiting_def server_connection_def newDescriptor_def new_io_manager_def put_desc_def conn_ok_def
        write_ok_def stream_ok_def readable_def Let_def)
  have "\<forall>c \<in> set [take 7 (message_text demo_message), drop 7 (message_text demo_message) @ ''O'']. c \<noteq> [] \<and> length c \<le> 1024 \<and> last c \<noteq> CR"
    by (simp add: message_text_def demo_message_def)
  from feeds_pieces [OF this]
  have "feeds (pieces [take 7 (message_text demo_message), drop 7 (message_text demo_message) @ ''O'']) 0
      (take 7 (message_text demo_message) @ drop 7 (message_text demo_message) @ ''O'')"
    by (simp only: concat.simps append_Nil2)
  moreover have "cx_sock demo_waiting = demo_socket\<lparr>so_read := pieces [take 7 (message_text demo_message), drop 7 (message_text demo_message) @ ''O'']\<rparr>"
    by (simp add: demo_waiting_def server_connection_def newDescriptor_def Let_def)
  ultimately show "feeds (so_read (cx_sock demo_waiting)) (so_reads (cx_sock demo_waiting)) (message_text demo_message @ ''O'')"
    by (simp add: demo_socket_def append_assoc [symmetric] del: append_assoc)
qed

lemma demo_message_ok: "message_ok demo_message"
  using two_bytes by (simp add: message_ok_def demo_message_def numeral_2_eq_2)

theorem client_delivers_stream_witness:
  "\<exists>w'. doRead (\<lambda>_ _. CHR 0x00) client_readDone demo_waiting = Some (Inr w') \<and> contents (cn_in (cx_conn w')) = ''O'' \<and>
     hc_response_cbs (cx_app w') = [None] \<and> hc_user (cx_app w') = [''hi'']"
proof -
  have "strict_prefix ''O'' (message_text demo_message)"
    by (simp add: message_text_def demo_message_def)
  then have ms: "message_stream [demo_message] demo_message ''O''"
    using demo_message_ok by (simp add: message_stream_def)
  have "contents (cn_in (cx_conn demo_waiting)) @ message_text demo_message @ ''O'' = concat (map message_text [demo_message]) @ ''O''"
      "strict_prefix (contents (cn_in (cx_conn demo_waiting))) (message_text (([demo_message] @ [demo_message]) ! 0))"
    using demo_waiting_facts(3) strict_prefix_empty [OF message_text_nonempty] by simp_all
  note d = client_delivers_stream [OF demo_waiting_facts(1,2) ms demo_waiting_facts(4) this, of "\<lambda>_ _. CHR 0x00"]
  have "deliver (hc_response_cbs (cx_app demo_client)) (map message_response [demo_message]) (hc_user (cx_app demo_client)) = [''hi'']"
      "drop (length [demo_message]) (hc_response_cbs (cx_app demo_client)) = [None]"
    by (simp_all add: demo_client_def deliver_def message_response_def demo_message_def)
  then show ?thesis
    using d unfolding demo_waiting_facts(5) by auto
qed

end
