(* ===== verification/Param_Map.thy ===== *)
theory Param_Map
  imports Prelude
begin

text \<open>
  Command-line parameters (\<open>param_map.cpp\<close>): two maps from names to values and to descriptions, filled by declarations and
  then by arguments of the form \<open>--name=value\<close>.
\<close>

section \<open>Operations\<close>

record param_map =
  pm_key_to_value :: "string \<rightharpoonup> string"
  pm_key_to_description :: "string \<rightharpoonup> string"
  pm_program_name :: string

text \<open>\<open>insert\<close> keeps an entry that is there already.\<close>

definition addParam :: "string \<Rightarrow> string \<Rightarrow> string \<Rightarrow> param_map \<Rightarrow> bool \<times> param_map" where
  "addParam param default_string description pm =
     (case pm_key_to_value pm param of
        None \<Rightarrow>
          (let pm = pm\<lparr>pm_key_to_value := (pm_key_to_value pm)(param \<mapsto> default_string)\<rparr>
           in (True,
               if pm_key_to_description pm param = None
               then pm\<lparr>pm_key_to_description := (pm_key_to_description pm)(param \<mapsto> description)\<rparr> else pm))
      | Some _ \<Rightarrow> (False, pm))"

definition new_param_map :: param_map where
  "new_param_map =
     snd (addParam ''help'' [] ''prints the command usage message''
       \<lparr>pm_key_to_value = Map.empty, pm_key_to_description = Map.empty, pm_program_name = []\<rparr>)"

definition getParam :: "string \<Rightarrow> param_map \<Rightarrow> string option" where
  "getParam param pm = pm_key_to_value pm param"

text \<open>\<open>string::find\<close>\<close>

fun str_find :: "string \<Rightarrow> string \<Rightarrow> nat option" where
  "str_find pat [] = (if pat = [] then Some 0 else None)"
| "str_find pat (c # s) = (if take (length pat) (c # s) = pat then Some 0 else map_option Suc (str_find pat s))"

text \<open>One argument; \<^const>\<open>None\<close> is a return of false.\<close>

definition parse_arg :: "string \<Rightarrow> param_map \<Rightarrow> param_map option" where
  "parse_arg param pm =
     (if str_find ''--'' param \<noteq> Some 0 then None
      else
        let pos = str_find ''='' param in
        if pos = Some 2 then None
        else
          let (name, value) =
                (case pos of None \<Rightarrow> (drop 2 param, []) | Some p \<Rightarrow> (take (p - 2) (drop 2 param), drop (p + 1) param))
          in if name = ''help'' then None else Some (pm\<lparr>pm_key_to_value := (pm_key_to_value pm)(name \<mapsto> value)\<rparr>))"

primrec parse_args :: "string list \<Rightarrow> param_map \<Rightarrow> bool \<times> param_map" where
  "parse_args [] pm = (True, pm)"
| "parse_args (a # as) pm = (case parse_arg a pm of None \<Rightarrow> (False, pm) | Some pm \<Rightarrow> parse_args as pm)"

definition parseArgv :: "string \<Rightarrow> string list \<Rightarrow> param_map \<Rightarrow> bool \<times> param_map" where
  "parseArgv program args pm = parse_args args (pm\<lparr>pm_program_name := program\<rparr>)"

text \<open>The order in which the maps are traversed is given by the two lists of keys.\<close>

definition printUsage :: "string list \<Rightarrow> string list \<Rightarrow> param_map \<Rightarrow> string" where
  "printUsage keys described pm =
     ''Usage: '' @ pm_program_name pm @ '' '' @
     concat (map (\<lambda>k. ''--'' @ k @ ''=['' @ the (pm_key_to_value pm k) @ ''] '') keys) @ [CHR 0x0A] @
     ''where '' @ [CHR 0x0A] @
     concat (map (\<lambda>k. ''  '' @ k @ '': '' @ the (pm_key_to_description pm k) @ [CHR 0x0A]) described)"

section \<open>Writing and reading arguments\<close>

text \<open>The text of an argument with or without a value.\<close>

definition arg_text :: "string \<times> string option \<Rightarrow> string" where
  "arg_text x = ''--'' @ fst x @ (case snd x of None \<Rightarrow> [] | Some v \<Rightarrow> CHR ''='' # v)"

definition param_name :: "string \<Rightarrow> bool" where
  "param_name n \<longleftrightarrow> n \<noteq> [] \<and> n \<noteq> ''help'' \<and> CHR ''='' \<notin> set n"

lemma str_find_char:
  "str_find [c] s = (if c \<in> set s then Some (length (takeWhile (\<lambda>x. x \<noteq> c) s)) else None)"
  by (induction s) auto

lemma takeWhile_before: "c \<notin> set n \<Longrightarrow> takeWhile (\<lambda>x. x \<noteq> c) (n @ c # v) = n"
  by (induction n) auto

lemma parse_arg_text:
  assumes "param_name (fst x)"
  shows "parse_arg (arg_text x) pm =
    Some (pm\<lparr>pm_key_to_value := (pm_key_to_value pm)(fst x \<mapsto> (case snd x of None \<Rightarrow> [] | Some v \<Rightarrow> v))\<rparr>)"
proof -
  have n: "fst x \<noteq> []" "fst x \<noteq> ''help''" "CHR ''='' \<notin> set (fst x)"
    using assms by (simp_all add: param_name_def)
  show ?thesis
  proof (cases "snd x")
    case None
    then show ?thesis
      using n by (simp add: parse_arg_def arg_text_def str_find_char [of "CHR ''=''"])
  next
    case (Some v)
    then show ?thesis
      using n takeWhile_before [of "CHR ''=''" "fst x" v]
      by (simp add: parse_arg_def arg_text_def str_find_char [of "CHR ''=''"])
  qed
qed

lemma parse_args_text:
  assumes "\<forall>x \<in> set ps. param_name (fst x)"
  shows "parse_args (map arg_text ps) pm =
    (True, pm\<lparr>pm_key_to_value := pm_key_to_value pm ++ map_of (rev (map (\<lambda>(n, v). (n, case v of None \<Rightarrow> [] | Some v \<Rightarrow> v)) ps))\<rparr>)"
  using assms
proof (induction ps arbitrary: pm)
  case (Cons x ps)
  then show ?case
    by (cases x) (simp add: parse_arg_text)
qed simp

text \<open>
  C15: Arguments written as \<open>--name=value\<close> or \<open>--name\<close>, with names that are not empty, have no equals sign and are not
  \<open>help\<close> (which prints the usage), parse: afterwards every parameter that was given has the value that
  was given last, empty without a value, and every other parameter has the value it had.
\<close>

theorem args_roundtrip:
  assumes "\<forall>x \<in> set ps. param_name (fst x)"
  shows "\<exists>pm'. parseArgv program (map arg_text ps) pm = (True, pm') \<and>
    (\<forall>k. getParam k pm' = (case map_of (rev ps) k of None \<Rightarrow> getParam k pm | Some None \<Rightarrow> Some [] | Some (Some v) \<Rightarrow> Some v))"
proof -
  have "map_of (rev (map (\<lambda>(n, v). (n, f v)) ps)) k = map_option f (map_of (rev ps) k)" for f :: "string option \<Rightarrow> string" and k
    using map_of_map [of f "rev ps"] by (simp add: rev_map comp_def)
  then show ?thesis
    by (auto simp: parseArgv_def parse_args_text [OF assms] getParam_def map_add_def split: option.splits)
qed

theorem args_roundtrip_witness:
  "\<exists>pm'. parseArgv ''prog'' [''--port=80'', ''--fast'', ''--port=8080''] new_param_map = (True, pm') \<and>
     getParam ''port'' pm' = Some ''8080'' \<and> getParam ''fast'' pm' = Some [] \<and> getParam ''help'' pm' = Some []"
proof -
  let ?ps = "[(''port'', Some ''80''), (''fast'', None), (''port'', Some ''8080'')]"
  have t: "map arg_text ?ps = [''--port=80'', ''--fast'', ''--port=8080'']"
    by (simp add: arg_text_def)
  have "\<forall>x \<in> set ?ps. param_name (fst x)"
    by (simp add: param_name_def)
  from args_roundtrip [OF this, of "''prog''" new_param_map]
  obtain pm' where pm': "parseArgv ''prog'' (map arg_text ?ps) new_param_map = (True, pm')"
      "\<And>k. getParam k pm' = (case map_of (rev ?ps) k of None \<Rightarrow> getParam k new_param_map | Some None \<Rightarrow> Some [] | Some (Some v) \<Rightarrow> Some v)"
    by blast
  have "getParam ''help'' new_param_map = Some []"
    by (simp add: getParam_def new_param_map_def addParam_def)
  then show ?thesis
    using pm' unfolding t by (intro exI [of _ pm']) simp
qed

text \<open>A malformed argument ends the parsing; what was given before it is kept.\<close>

lemma parse_args_stops:
  assumes "\<forall>x \<in> set ps. param_name (fst x)" "\<And>pm. parse_arg bad pm = None"
  shows "parse_args (map arg_text ps @ bad # as) pm = (False, snd (parse_args (map arg_text ps) pm))"
  using assms(1)
proof (induction ps arbitrary: pm)
  case (Cons x ps)
  then show ?case
    by (simp add: parse_arg_text)
qed (simp add: assms(2))

text \<open>An argument that does not start with two dashes, one without a name, and \<open>--help\<close> are malformed.\<close>

lemma bad_args: "parse_arg ''x'' pm = None" "parse_arg ''--=1'' pm = None" "parse_arg ''--help'' pm = None" "parse_arg ''--help=1'' pm = None"
  by (simp_all add: parse_arg_def)

text \<open>Two dashes alone are taken for a parameter with the empty name.\<close>

lemma nameless_arg: "parse_arg ''--'' pm = Some (pm\<lparr>pm_key_to_value := (pm_key_to_value pm)([] \<mapsto> [])\<rparr>)"
  by (simp add: parse_arg_def)

end
