(* ===== verification/Memtest.thy ===== *)
theory Memtest
  imports Byte_Memory
begin

text \<open>
  The memory test (\<open>memtest_binsmgr.cpp\<close>): bins that are allocated and released at random, with marks in their bytes.  The
  allocator under test is a parameter, and so is whether the checks are compiled in (\<open>TEST > 0\<close>).
\<close>

section \<open>Marks\<close>

definition mark64 :: "addr \<Rightarrow> nat \<Rightarrow> 64 word" where
  "mark64 ptr i = (let j = (of_nat ptr :: 64 word) XOR of_nat i in j XOR drop_bit 8 j)"

function init_loop :: "addr \<Rightarrow> nat \<Rightarrow> nat \<Rightarrow> mem \<Rightarrow> mem" where
  "init_loop ptr n i m = (if i < n then init_loop ptr n (i + 2047) (m(ptr + i := ucast (mark64 ptr i))) else m)"
  by pat_completeness auto
termination
  by (relation "measure (\<lambda>(ptr, n, i, m). n - i)") auto

definition mem_init :: "addr \<Rightarrow> nat \<Rightarrow> mem \<Rightarrow> mem" where
  "mem_init ptr n m =
     (if n = 0 then m
      else (let m = init_loop ptr n 0 m in m(ptr + (n - 1) := ucast (mark64 ptr (n - 1)))))"

definition bad_mark :: "addr \<Rightarrow> nat \<Rightarrow> mem \<Rightarrow> bool" where
  "bad_mark ptr i m \<longleftrightarrow> (ucast (m (ptr + i)) :: 64 word) \<noteq> mark64 ptr i AND 0xFF"

function check_loop :: "addr \<Rightarrow> nat \<Rightarrow> nat \<Rightarrow> mem \<Rightarrow> bool" where
  "check_loop ptr n i m \<longleftrightarrow> (if i < n then bad_mark ptr i m \<or> check_loop ptr n (i + 2047) m else False)"
  by pat_completeness auto
termination
  by (relation "measure (\<lambda>(ptr, n, i, m). n - i)") auto

declare init_loop.simps [simp del] check_loop.simps [simp del]

definition mem_check :: "addr \<Rightarrow> nat \<Rightarrow> mem \<Rightarrow> nat" where
  "mem_check ptr n m =
     (if n = 0 then 0 else if check_loop ptr n 0 m then 1 else if bad_mark ptr (n - 1) m then 2 else 0)"

section \<open>Zeros\<close>

fun zero_bytes :: "addr \<Rightarrow> nat \<Rightarrow> mem \<Rightarrow> int" where
  "zero_bytes p n m = (if n > 0 then if m p \<noteq> 0 then - 1 else zero_bytes (p + 1) (n - 1) m else 0)"

function zero_check :: "addr \<Rightarrow> nat \<Rightarrow> mem \<Rightarrow> int" where
  "zero_check p n m =
     (if n \<ge> 4 then if load32 m p \<noteq> 0 then - 1 else zero_check (p + 4) (n - 4) m else zero_bytes p n m)"
  by pat_completeness auto
termination
  by (relation "measure (\<lambda>(p, n, m). n)") auto

declare zero_bytes.simps [simp del] zero_check.simps [simp del]

section \<open>Random numbers\<close>

definition rng :: "64 word \<Rightarrow> 32 word \<times> 64 word" where
  "rng rnd_seed =
     (let c = 7319936632422683443;
          rnd_seed = rnd_seed + c;
          x = rnd_seed;
          x = x XOR drop_bit 32 x;
          x = x * c;
          x = x XOR drop_bit 32 x;
          x = x * c;
          x = x XOR drop_bit 32 x
      in (ucast x, rnd_seed))"

section \<open>Bins\<close>

record bin =
  bn_ptr :: addr
  bn_binsize :: nat

text \<open>The allocator under test, on states that hold the memory.\<close>

record 'st test_allocator =
  al_malloc :: "nat \<Rightarrow> 'st \<Rightarrow> (addr \<times> 'st) result"
  al_calloc :: "nat \<Rightarrow> nat \<Rightarrow> 'st \<Rightarrow> (addr \<times> 'st) result"
  al_memalign :: "nat \<Rightarrow> nat \<Rightarrow> 'st \<Rightarrow> (addr \<times> 'st) result"
  al_realloc :: "addr \<Rightarrow> nat \<Rightarrow> 'st \<Rightarrow> (addr \<times> 'st) result"
  al_free :: "addr \<Rightarrow> 'st \<Rightarrow> 'st result"
  al_mem :: "'st \<Rightarrow> mem"
  al_put :: "mem \<Rightarrow> 'st \<Rightarrow> 'st"

definition release_bin :: "'st test_allocator \<Rightarrow> bin \<Rightarrow> 'st \<Rightarrow> 'st result" where
  "release_bin al b st = (if bn_binsize b > 0 then al_free al (bn_ptr b) st else Inr st)"

definition corrupt :: "bool \<Rightarrow> 'st test_allocator \<Rightarrow> bin \<Rightarrow> 'st \<Rightarrow> bool" where
  "corrupt test al b st \<longleftrightarrow> test \<and> mem_check (bn_ptr b) (bn_binsize b) (al_mem al st) \<noteq> 0"

definition BinAlloc :: "bool \<Rightarrow> 'st test_allocator \<Rightarrow> nat \<Rightarrow> 32 word \<Rightarrow> bin \<Rightarrow> 'st \<Rightarrow> (bin \<times> 'st) result" where
  "BinAlloc test al allocsize randnum abin st =
     (if corrupt test al abin st then Inl Fatal
      else
        let r = unat randnum mod 1024 in
        rbind
          (if r < 4 then rbind (release_bin al abin st) (al_memalign al (4 * 2 ^ r) allocsize)
           else if r < 20 then
             rbind (rbind (release_bin al abin st) (al_calloc al allocsize 1)) (\<lambda>(p, st).
               if test \<and> zero_check p allocsize (al_mem al st) \<noteq> 0 then Inl Fatal else Inr (p, st))
           else if r < 100 \<and> bn_binsize abin < 2000 then
             al_realloc al (if bn_binsize abin = 0 then NULL else bn_ptr abin) allocsize st
           else rbind (release_bin al abin st) (al_malloc al allocsize))
          (\<lambda>(p, st).
            if p = NULL then Inl Fatal
            else Inr (\<lparr>bn_ptr = p, bn_binsize = allocsize\<rparr>, if test then al_put al (mem_init p allocsize (al_mem al st)) st else st)))"

definition BinFree :: "bool \<Rightarrow> 'st test_allocator \<Rightarrow> bin \<Rightarrow> 'st \<Rightarrow> (bin \<times> 'st) result" where
  "BinFree test al abin st =
     (if bn_binsize abin = 0 then Inr (abin, st)
      else if corrupt test al abin st then Inl Fatal
      else rbind (al_free al (bn_ptr abin) st) (\<lambda>st. Inr (abin\<lparr>bn_binsize := 0\<rparr>, st)))"

record 'st memtest =
  mt_maxperbin :: nat
  mt_num_bins :: nat
  mt_imax :: nat
  mt_seed :: "64 word"
  mt_bins :: "bin list"
  mt_st :: 'st

text \<open>The constructor; \<open>imax\<close> is a \<open>uint32_t\<close> and the seed is computed on \<open>size_t\<close>.\<close>

definition new_memtest :: "64 word \<Rightarrow> 64 word \<Rightarrow> 32 word \<Rightarrow> 32 word \<Rightarrow> 'st \<Rightarrow> 'st memtest" where
  "new_memtest perbinsize numbins imax seed st =
     \<lparr>mt_maxperbin = unat perbinsize, mt_num_bins = unat numbins, mt_imax = unat imax,
      mt_seed = (ucast imax * perbinsize + scast seed) XOR numbins,
      mt_bins = replicate (unat numbins) \<lparr>bn_ptr = NULL, bn_binsize = 0\<rparr>, mt_st = st\<rparr>"

definition draw :: "'st memtest \<Rightarrow> 32 word \<times> 'st memtest" where
  "draw t = (let (x, s) = rng (mt_seed t) in (x, t\<lparr>mt_seed := s\<rparr>))"

definition random :: "nat \<Rightarrow> 'st memtest \<Rightarrow> nat \<times> 'st memtest" where
  "random s t = (let (x, t) = draw t in (unat x mod s, t))"

text \<open>
  An operation on the bin with index \<open>b\<close>.  The order in which the two random numbers of an allocation are drawn is not fixed by
  the language; \<open>ltr\<close> tells whether the compiler evaluates arguments from left to right.
\<close>

definition on_bin :: "nat \<Rightarrow> (bin \<Rightarrow> 'st \<Rightarrow> (bin \<times> 'st) result) \<Rightarrow> 'st memtest \<Rightarrow> 'st memtest result" where
  "on_bin b f t =
     (if b < length (mt_bins t)
      then rbind (f (mt_bins t ! b) (mt_st t)) (\<lambda>(c, st). Inr (t\<lparr>mt_bins := (mt_bins t)[b := c], mt_st := st\<rparr>))
      else Inl BadAddress)"

definition alloc_random :: "bool \<Rightarrow> bool \<Rightarrow> 'st test_allocator \<Rightarrow> nat \<Rightarrow> 'st memtest \<Rightarrow> 'st memtest result" where
  "alloc_random ltr test al b t =
     (if ltr then
        let (s, t) = random (mt_maxperbin t) t; (x, t) = draw t
        in on_bin b (BinAlloc test al (s + 1) x) t
      else
        let (x, t) = draw t; (s, t) = random (mt_maxperbin t) t
        in on_bin b (BinAlloc test al (s + 1) x) t)"

text \<open>The first round goes over all bins; the rounds of the second one do a number of releases and of allocations each.\<close>

primrec first_round :: "bool \<Rightarrow> bool \<Rightarrow> 'st test_allocator \<Rightarrow> nat list \<Rightarrow> 'st memtest \<Rightarrow> 'st memtest result" where
  "first_round ltr test al [] t = Inr t"
| "first_round ltr test al (b # bs) t =
     (let (x, t) = random 2 t
      in rbind (if x = 0 then alloc_random ltr test al b t else Inr t) (first_round ltr test al bs))"

primrec free_some :: "bool \<Rightarrow> 'st test_allocator \<Rightarrow> nat \<Rightarrow> 'st memtest \<Rightarrow> 'st memtest result" where
  "free_some test al 0 t = Inr t"
| "free_some test al (Suc j) t =
     (let (b, t) = random (mt_num_bins t) t in rbind (on_bin b (BinFree test al) t) (free_some test al j))"

primrec alloc_some :: "bool \<Rightarrow> bool \<Rightarrow> 'st test_allocator \<Rightarrow> nat \<Rightarrow> 'st memtest \<Rightarrow> 'st memtest result" where
  "alloc_some ltr test al 0 t = Inr t"
| "alloc_some ltr test al (Suc j) t =
     (let (b, t) = random (mt_num_bins t) t in rbind (alloc_random ltr test al b t) (alloc_some ltr test al j))"

partial_function (option) second_round ::
    "bool \<Rightarrow> bool \<Rightarrow> 'st test_allocator \<Rightarrow> nat \<Rightarrow> nat \<Rightarrow> 'st memtest \<Rightarrow> 'st memtest result option" where
  "second_round ltr test al i actions t =
     (if i \<le> mt_imax t then
        case free_some test al actions t of
          Inl e \<Rightarrow> Some (Inl e)
        | Inr t \<Rightarrow>
            (let i = i + actions; (actions, t) = random 30 t
             in case alloc_some ltr test al actions t of
                  Inl e \<Rightarrow> Some (Inl e)
                | Inr t \<Rightarrow> second_round ltr test al (i + actions) actions t)
      else Some (Inr t))"

primrec free_all :: "bool \<Rightarrow> 'st test_allocator \<Rightarrow> nat list \<Rightarrow> 'st memtest \<Rightarrow> 'st memtest result" where
  "free_all test al [] t = Inr t"
| "free_all test al (b # bs) t = rbind (on_bin b (BinFree test al) t) (free_all test al bs)"

definition MallocTest :: "bool \<Rightarrow> bool \<Rightarrow> 'st test_allocator \<Rightarrow> 'st memtest \<Rightarrow> 'st memtest result" where
  "MallocTest ltr test al t =
     rbind (first_round ltr test al [0..<mt_num_bins t] t) (\<lambda>t.
       let (actions, t) = random 30 t in
       rbind (rbind (of_opt (second_round ltr test al 0 actions t)) id) (\<lambda>t.
         rbind (free_all test al [0..<mt_num_bins t] t) (\<lambda>t. Inr (t\<lparr>mt_seed := mt_seed t + 1\<rparr>))))"

section \<open>The checks are exact\<close>

text \<open>The positions that carry marks in an object of \<open>n\<close> bytes.\<close>

definition marked :: "nat \<Rightarrow> nat \<Rightarrow> bool" where
  "marked n i \<longleftrightarrow> i < n \<and> (i mod 2047 = 0 \<or> i = n - 1)"

lemma low_byte: "(ucast b :: 64 word) = x AND 0xFF \<longleftrightarrow> b = ucast x" for b :: byte and x :: "64 word"
proof -
  have "x AND 0xFF = take_bit 8 x"
    by (simp add: take_bit_eq_mask mask_eq_exp_minus_1)
  then have "unat (x AND 0xFF) = unat x mod 256"
    by (simp add: take_bit_eq_mod unat_mod)
  moreover have "unat (ucast b :: 64 word) = unat b"
    using unsigned_less [of b, where 'a = nat] by (simp add: unsigned_ucast_eq take_bit_eq_mod)
  moreover have "unat (ucast x :: byte) = unat x mod 256"
    by (simp add: unsigned_ucast_eq take_bit_eq_mod)
  ultimately show ?thesis
    by (simp add: word_unat_eq_iff)
qed

lemma bad_mark_iff: "bad_mark ptr i m \<longleftrightarrow> m (ptr + i) \<noteq> ucast (mark64 ptr i)"
  by (simp add: bad_mark_def low_byte)

definition loop_hits :: "nat \<Rightarrow> nat \<Rightarrow> nat \<Rightarrow> bool" where
  "loop_hits i n k \<longleftrightarrow> i \<le> k \<and> k < n \<and> k mod 2047 = i mod 2047"

lemma loop_hits_step: "loop_hits i n k \<longleftrightarrow> i < n \<and> (k = i \<or> loop_hits (i + 2047) n k)"
proof -
  have "i + 2047 \<le> k" if "i \<le> k" "k \<noteq> i" "k mod 2047 = i mod 2047"
  proof -
    have "2047 dvd k - i"
      using that(1,3) mod_eq_dvd_iff_nat [of i k 2047] by simp
    then show ?thesis
      using that(1,2) by (auto dest: dvd_imp_le)
  qed
  then show ?thesis
    by (auto simp: loop_hits_def)
qed

lemma check_loop_iff: "check_loop ptr n i m \<longleftrightarrow> (\<exists>k. loop_hits i n k \<and> bad_mark ptr k m)"
proof (induction ptr n i m rule: check_loop.induct)
  case (1 ptr n i m)
  then show ?case
    by (subst check_loop.simps, subst loop_hits_step) auto
qed

lemma init_loop_at: "init_loop ptr n i m (ptr + j) = (if loop_hits i n j then ucast (mark64 ptr j) else m (ptr + j))"
proof (induction ptr n i m rule: init_loop.induct)
  case (1 ptr n i m)
  show ?case
  proof (cases "i < n")
    case True
    have "init_loop ptr n i m (ptr + j) = init_loop ptr n (i + 2047) (m(ptr + i := ucast (mark64 ptr i))) (ptr + j)"
      using True by (subst init_loop.simps) simp
    then show ?thesis
      unfolding 1 [OF True] using True by (simp add: loop_hits_step [of i n j])
  next
    case False
    then show ?thesis
      by (subst init_loop.simps) (auto simp: loop_hits_def)
  qed
qed

lemma marked_hits: "marked n i \<longleftrightarrow> n \<noteq> 0 \<and> (loop_hits 0 n i \<or> i = n - 1)"
  by (auto simp: marked_def loop_hits_def)

lemma mem_check_marks: "mem_check ptr n m = 0 \<longleftrightarrow> (\<forall>i. marked n i \<longrightarrow> m (ptr + i) = ucast (mark64 ptr i))"
  unfolding marked_hits mem_check_def check_loop_iff bad_mark_iff by auto

lemma mem_init_marks:
  assumes "marked n i"
  shows "mem_init ptr n m (ptr + i) = ucast (mark64 ptr i)"
proof (cases "i = n - 1")
  case True
  then show ?thesis
    using assms by (simp add: mem_init_def marked_hits Let_def)
next
  case False
  then have "ptr + i \<noteq> ptr + (n - 1)"
    by simp
  then show ?thesis
    using assms False init_loop_at [of ptr n 0 m i] by (simp only: mem_init_def marked_hits Let_def fun_upd_apply if_False) simp
qed

text \<open>
  C13: The check of a bin finds exactly the changes of its marked bytes: it passes on a later memory if and only if every
  marked byte is as \<open>mem_init\<close> left it.
\<close>

theorem mem_check_exact:
  "mem_check ptr n m' = 0 \<longleftrightarrow> (\<forall>i. marked n i \<longrightarrow> m' (ptr + i) = mem_init ptr n m (ptr + i))"
  using mem_init_marks by (auto simp: mem_check_marks)

theorem mem_check_exact_witness:
  "mem_check 4096 3 (mem_init 4096 3 (\<lambda>_. 0)) = 0 \<and>
   mem_check 4096 3 ((mem_init 4096 3 (\<lambda>_. 0))(4098 := mem_init 4096 3 (\<lambda>_. 0) 4098 + 1)) \<noteq> 0"
proof -
  have "marked 3 2"
    by (simp add: marked_def)
  then have "mem_check 4096 3 ((mem_init 4096 3 (\<lambda>_. 0))(4098 := mem_init 4096 3 (\<lambda>_. 0) 4098 + 1)) \<noteq> 0"
    unfolding mem_check_exact [of 4096 3 _ "\<lambda>_. 0"] by (auto intro!: exI [of _ 2])
  moreover have "mem_check 4096 3 (mem_init 4096 3 (\<lambda>_. 0)) = 0"
    unfolding mem_check_exact [of 4096 3 _ "\<lambda>_. 0"] by simp
  ultimately show ?thesis
    by simp
qed

text \<open>The zero check reads words and then bytes; it passes exactly on zeros.\<close>

lemma bytes_word_zero: "length bs = 4 \<Longrightarrow> (bytes_word bs :: 32 word) = 0 \<longleftrightarrow> (\<forall>i<4. bs ! i = 0)"
proof
  assume l: "length bs = 4" and z: "(bytes_word bs :: 32 word) = 0"
  show "\<forall>i<4. bs ! i = 0"
  proof (intro allI impI)
    fix i :: nat assume "i < 4"
    show "bs ! i = 0"
    proof (rule bit_word_eqI)
      fix k :: nat assume "k < LENGTH(8)"
      then show "bit (bs ! i) k = bit (0 :: byte) k"
        using z l \<open>i < 4\<close> bit_bytes_word [of bs "8 * i + k", where 'a = 32] by simp
    qed
  qed
next
  assume "length bs = 4" "\<forall>i<4. bs ! i = 0"
  then show "(bytes_word bs :: 32 word) = 0"
    by (intro bit_word_eqI) (simp add: bit_bytes_word)
qed

lemma zero_bytes_eq: "zero_bytes p n m = (if \<forall>i<n. m (p + i) = 0 then 0 else - 1)"
proof (induction n arbitrary: p)
  case (Suc n)
  have "(\<forall>i<Suc n. m (p + i) = 0) \<longleftrightarrow> m p = 0 \<and> (\<forall>i<n. m (p + 1 + i) = 0)"
    by (auto simp: less_Suc_eq_0_disj)
  then show ?case
    using Suc.IH [of "p + 1"] by (subst zero_bytes.simps) simp
qed (simp add: zero_bytes.simps)

lemma zero_check_eq: "zero_check p n m = (if \<forall>i<n. m (p + i) = 0 then 0 else - 1)"
proof (induction p n m rule: zero_check.induct)
  case (1 p n m)
  show ?case
  proof (cases "4 \<le> n")
    case True
    have w: "load32 m p = 0 \<longleftrightarrow> (\<forall>i<4. m (p + i) = 0)"
      using bytes_word_zero [of "read_bytes m p 4"] by (simp add: load32_def read_bytes_def)
    have "(\<forall>i<n. m (p + i) = 0) \<longleftrightarrow> (\<forall>i<4. m (p + i) = 0) \<and> (\<forall>i<n - 4. m (p + 4 + i) = 0)"
    proof (intro iffI conjI allI impI)
      fix i assume "(\<forall>i<4. m (p + i) = 0) \<and> (\<forall>i<n - 4. m (p + 4 + i) = 0)" "i < n"
      then show "m (p + i) = 0"
        using True by (cases "i < 4") (auto dest: spec [of _ "i - 4"])
    next
      fix i assume "\<forall>i<n. m (p + i) = 0" "i < n - 4"
      then show "m (p + 4 + i) = 0"
        by (auto simp: add.assoc)
    qed (use True in auto)
    then show ?thesis
      using True w 1 by (subst zero_check.simps) simp
  qed (simp add: zero_check.simps zero_bytes_eq)
qed

end
