(* ===== verification/Memtest_Heap.thy ===== *)
theory Memtest_Heap
  imports Memtest One_Layer_Correct
begin

text \<open>
  The memory test on an allocator: what the test relies on (the locale), that its checks then never fail, and the one-layer
  allocator as the allocator under test.
\<close>

section \<open>Marks and other objects\<close>

lemma mem_check_same:
  assumes "same_on {p..<p + n} m m'"
  shows "mem_check p n m' = 0 \<longleftrightarrow> mem_check p n m = 0"
proof -
  have "m' (p + i) = m (p + i)" if "marked n i" for i
    using assms that by (simp add: same_on_def marked_def)
  then show ?thesis
    by (simp add: mem_check_marks)
qed

lemma init_loop_outside: "a \<notin> {p..<p + n} \<Longrightarrow> init_loop p n i m a = m a"
proof (induction p n i m rule: init_loop.induct)
  case (1 p n i m)
  have "init_loop p n (i + 2047) (m(p + i := ucast (mark64 p i))) a = m a" if "i < n"
    using 1(1) [OF that 1(2)] 1(2) that by (auto simp: fun_upd_def)
  then show ?case
    by (subst init_loop.simps) simp
qed

lemma mem_init_own:
  "mem_check p n (mem_init p n m) = 0" "same_on (- {p..<p + n}) m (mem_init p n m)"
proof -
  show "mem_check p n (mem_init p n m) = 0"
    using mem_init_marks by (simp add: mem_check_marks)
  show "same_on (- {p..<p + n}) m (mem_init p n m)"
    using init_loop_outside by (auto simp: same_on_def mem_init_def Let_def)
qed

section \<open>The interface\<close>

text \<open>The objects \<open>P\<close> keep their size and their bytes.\<close>

definition undisturbed :: "('st \<Rightarrow> mem) \<Rightarrow> ('st \<Rightarrow> addr \<Rightarrow> nat) \<Rightarrow> addr set \<Rightarrow> 'st \<Rightarrow> 'st \<Rightarrow> bool" where
  "undisturbed mem extent P st st' \<longleftrightarrow>
     (\<forall>p \<in> P. extent st' p = extent st p \<and> same_on {p..<p + extent st p} (mem st) (mem st'))"

text \<open>
  \<open>live st P\<close>: the objects of the heap are those at the addresses \<open>P\<close>; \<open>extent st p\<close> is the number of bytes that may be used at
  \<open>p\<close>; \<open>room st n\<close>: an object of \<open>n\<close> bytes can be had.
\<close>

locale test_heap =
  fixes al :: "'st test_allocator" and live :: "'st \<Rightarrow> addr set \<Rightarrow> bool" and extent :: "'st \<Rightarrow> addr \<Rightarrow> nat" and room :: "'st \<Rightarrow> nat \<Rightarrow> bool"
  assumes mem_put: "al_mem al (al_put al m st) = m"
    and live_apart: "live st P \<Longrightarrow> p \<in> P \<Longrightarrow> q \<in> P \<Longrightarrow> p \<noteq> q \<Longrightarrow> {p..<p + extent st p} \<inter> {q..<q + extent st q} = {}"
    and live_nonnull: "live st P \<Longrightarrow> NULL \<notin> P"
    and put_live: "live st P \<Longrightarrow> p \<in> P \<Longrightarrow> same_on (- {p..<p + extent st p}) (al_mem al st) m \<Longrightarrow>
      live (al_put al m st) P \<and> (\<forall>q \<in> P. extent (al_put al m st) q = extent st q)"
    and malloc_gives: "live st P \<Longrightarrow> 0 < n \<Longrightarrow> room st n \<Longrightarrow>
      \<exists>p st'. al_malloc al n st = Inr (p, st') \<and> p \<notin> P \<and> live st' (insert p P) \<and> n \<le> extent st' p \<and> undisturbed (al_mem al) extent P st st'"
    and realloc_null_gives: "live st P \<Longrightarrow> 0 < n \<Longrightarrow> room st n \<Longrightarrow>
      \<exists>p st'. al_realloc al NULL n st = Inr (p, st') \<and> p \<notin> P \<and> live st' (insert p P) \<and> n \<le> extent st' p \<and> undisturbed (al_mem al) extent P st st'"
    and realloc_gives: "live st (insert p P) \<Longrightarrow> p \<notin> P \<Longrightarrow> 0 < n \<Longrightarrow> room st n \<Longrightarrow>
      \<exists>q st'. al_realloc al p n st = Inr (q, st') \<and> q \<notin> P \<and> live st' (insert q P) \<and> n \<le> extent st' q \<and> undisturbed (al_mem al) extent P st st'"
    and free_takes: "live st (insert p P) \<Longrightarrow> p \<notin> P \<Longrightarrow>
      \<exists>st'. al_free al p st = Inr st' \<and> live st' P \<and> undisturbed (al_mem al) extent P st st' \<and> (\<forall>n. room st n \<longrightarrow> room st' n)"

text \<open>The bins that hold an object, and the objects of all bins but the \<open>i\<close>-th.\<close>

definition filled :: "bin list \<Rightarrow> nat set" where
  "filled bs = {j. j < length bs \<and> 0 < bn_binsize (bs ! j)}"

definition objects_but :: "nat \<Rightarrow> bin list \<Rightarrow> addr set" where
  "objects_but i bs = (\<lambda>j. bn_ptr (bs ! j)) ` (filled bs - {i})"

definition bin_ok :: "('st \<Rightarrow> mem) \<Rightarrow> ('st \<Rightarrow> addr \<Rightarrow> nat) \<Rightarrow> 'st \<Rightarrow> bin \<Rightarrow> bool" where
  "bin_ok mem extent st b \<longleftrightarrow> bn_binsize b \<le> extent st (bn_ptr b) \<and> mem_check (bn_ptr b) (bn_binsize b) (mem st) = 0"

text \<open>The bins other than the \<open>i\<close>-th have objects of their own, with their marks in order.\<close>

definition others_ok :: "('st \<Rightarrow> mem) \<Rightarrow> ('st \<Rightarrow> addr \<Rightarrow> nat) \<Rightarrow> nat \<Rightarrow> bin list \<Rightarrow> 'st \<Rightarrow> bool" where
  "others_ok mem extent i bs st \<longleftrightarrow> inj_on (\<lambda>j. bn_ptr (bs ! j)) (filled bs - {i}) \<and> (\<forall>j \<in> filled bs - {i}. bin_ok mem extent st (bs ! j))"

definition bins_ok :: "('st \<Rightarrow> mem) \<Rightarrow> ('st \<Rightarrow> addr set \<Rightarrow> bool) \<Rightarrow> ('st \<Rightarrow> addr \<Rightarrow> nat) \<Rightarrow> bin list \<Rightarrow> 'st \<Rightarrow> bool" where
  "bins_ok mem live extent bs st \<longleftrightarrow> live st ((\<lambda>j. bn_ptr (bs ! j)) ` filled bs) \<and> inj_on (\<lambda>j. bn_ptr (bs ! j)) (filled bs) \<and>
     (\<forall>j \<in> filled bs. bin_ok mem extent st (bs ! j))"

lemma filled_update: "i < length bs \<Longrightarrow> filled (bs[i := c]) = (if 0 < bn_binsize c then insert i (filled bs) else filled bs - {i})"
  by (auto simp: filled_def nth_list_update)

lemma others_ok_undisturbed:
  assumes "others_ok mem extent i bs st" "undisturbed mem extent (objects_but i bs) st st'"
  shows "others_ok mem extent i bs st'"
proof -
  have "bin_ok mem extent st' (bs ! j)" if j: "j \<in> filled bs - {i}" for j
  proof -
    let ?p = "bn_ptr (bs ! j)" and ?n = "bn_binsize (bs ! j)"
    have ok: "?n \<le> extent st ?p" "mem_check ?p ?n (mem st) = 0"
      using assms(1) j by (auto simp: others_ok_def bin_ok_def)
    have "?p \<in> objects_but i bs"
      using j by (auto simp: objects_but_def)
    then have u: "extent st' ?p = extent st ?p" "same_on {?p..<?p + extent st ?p} (mem st) (mem st')"
      using assms(2) by (auto simp: undisturbed_def)
    have "same_on {?p..<?p + ?n} (mem st) (mem st')"
      using u(2) ok(1) by (auto simp: same_on_def)
    then show ?thesis
      using mem_check_same ok u(1) by (simp add: bin_ok_def)
  qed
  then show ?thesis
    using assms(1) by (simp add: others_ok_def)
qed

lemma undisturbed_trans:
  "undisturbed mem extent P st1 st2 \<Longrightarrow> undisturbed mem extent P st2 st3 \<Longrightarrow> undisturbed mem extent P st1 st3"
  by (auto simp: undisturbed_def same_on_def)

lemma bins_split:
  assumes "bins_ok mem live extent bs st" "i < length bs"
  shows "others_ok mem extent i bs st"
    and "bn_binsize (bs ! i) = 0 \<Longrightarrow> live st (objects_but i bs)"
    and "0 < bn_binsize (bs ! i) \<Longrightarrow> live st (insert (bn_ptr (bs ! i)) (objects_but i bs)) \<and> bn_ptr (bs ! i) \<notin> objects_but i bs"
    and "0 < bn_binsize (bs ! i) \<Longrightarrow> bin_ok mem extent st (bs ! i)"
proof -
  have b: "live st ((\<lambda>j. bn_ptr (bs ! j)) ` filled bs)" "inj_on (\<lambda>j. bn_ptr (bs ! j)) (filled bs)"
      "\<forall>j \<in> filled bs. bin_ok mem extent st (bs ! j)"
    using assms(1) by (simp_all add: bins_ok_def)
  show "others_ok mem extent i bs st"
    using b(2,3) by (auto simp: others_ok_def intro: inj_on_subset)
  show "live st (objects_but i bs)" if "bn_binsize (bs ! i) = 0"
  proof -
    have "filled bs - {i} = filled bs"
      using that by (auto simp: filled_def)
    then show ?thesis
      using b(1) by (simp add: objects_but_def)
  qed
  assume "0 < bn_binsize (bs ! i)"
  then have i: "i \<in> filled bs"
    using assms(2) by (simp add: filled_def)
  then show "bin_ok mem extent st (bs ! i)"
    using b(3) by blast
  have "(\<lambda>j. bn_ptr (bs ! j)) ` filled bs = insert (bn_ptr (bs ! i)) (objects_but i bs)"
    using i by (auto simp: objects_but_def)
  moreover have "bn_ptr (bs ! i) \<notin> objects_but i bs"
    using b(2) i unfolding objects_but_def inj_on_def by blast
  ultimately show "live st (insert (bn_ptr (bs ! i)) (objects_but i bs)) \<and> bn_ptr (bs ! i) \<notin> objects_but i bs"
    using b(1) by simp
qed

lemma objects_update: "i < length bs \<Longrightarrow> (\<lambda>j. bn_ptr (bs[i := c] ! j)) ` (filled bs - {i}) = objects_but i bs"
  by (auto simp: objects_but_def intro!: image_cong)

lemma others_replaced:
  assumes "i < length bs" "others_ok mem extent i bs st"
  shows "inj_on (\<lambda>j. bn_ptr (bs[i := c] ! j)) (filled bs - {i})" "j \<in> filled bs - {i} \<Longrightarrow> bin_ok mem extent st (bs[i := c] ! j)"
proof -
  show "inj_on (\<lambda>j. bn_ptr (bs[i := c] ! j)) (filled bs - {i})"
    using assms(2) unfolding others_ok_def inj_on_def by (metis DiffE insertI1 nth_list_update_neq)
  show "bin_ok mem extent st (bs[i := c] ! j)" if "j \<in> filled bs - {i}"
    using assms(2) that by (auto simp: others_ok_def)
qed

text \<open>The bins after the \<open>i\<close>-th one was emptied or got a new object.\<close>

lemma bins_emptied:
  assumes "i < length bs" "others_ok mem extent i bs st" "live st (objects_but i bs)" "bn_binsize c = 0"
  shows "bins_ok mem live extent (bs[i := c]) st"
  using assms objects_update [OF assms(1), of c] others_replaced(1) [OF assms(1,2), of c] others_replaced(2) [OF assms(1,2), of _ c]
  by (simp add: bins_ok_def filled_update)

lemma bins_filled:
  assumes "i < length bs" "others_ok mem extent i bs st" "live st (insert (bn_ptr c) (objects_but i bs))" "bn_ptr c \<notin> objects_but i bs"
    and "bin_ok mem extent st c" "0 < bn_binsize c"
  shows "bins_ok mem live extent (bs[i := c]) st"
proof -
  let ?f = "\<lambda>j. bn_ptr (bs[i := c] ! j)"
  have f: "filled (bs[i := c]) = insert i (filled bs - {i})" "?f ` (filled bs - {i}) = objects_but i bs" "?f i = bn_ptr c"
    using assms(1,6) objects_update [OF assms(1), of c] by (auto simp: filled_update)
  have "?f ` filled (bs[i := c]) = insert (bn_ptr c) (objects_but i bs)"
    unfolding f(1) image_insert f(2,3) ..
  moreover have "inj_on ?f (insert i (filled bs - {i}))"
    unfolding inj_on_insert Diff_idemp f(2,3) using others_replaced(1) [OF assms(1,2), of c] assms(4) by blast
  moreover have "\<forall>j \<in> filled (bs[i := c]). bin_ok mem extent st (bs[i := c] ! j)"
    unfolding f(1) using assms(1,2,5) by (auto simp: others_ok_def nth_list_update)
  ultimately show ?thesis
    using assms(3) f(1) by (simp add: bins_ok_def)
qed

section \<open>The operations of the test\<close>

context test_heap
begin

lemma released:
  assumes "bins_ok (al_mem al) live extent bs st" "i < length bs"
  shows "\<exists>st'. release_bin al (bs ! i) st = Inr st' \<and> live st' (objects_but i bs) \<and> others_ok (al_mem al) extent i bs st' \<and>
    (\<forall>n. room st n \<longrightarrow> room st' n)"
proof (cases "0 < bn_binsize (bs ! i)")
  case True
  note b = bins_split(1) [OF assms] bins_split(3) [OF assms True]
  obtain st' where "al_free al (bn_ptr (bs ! i)) st = Inr st'" "live st' (objects_but i bs)"
      "undisturbed (al_mem al) extent (objects_but i bs) st st'" "\<forall>n. room st n \<longrightarrow> room st' n"
    using free_takes b(2) by blast
  then show ?thesis
    using True others_ok_undisturbed [OF b(1)] by (simp add: release_bin_def)
next
  case False
  then show ?thesis
    using bins_split(1,2) [OF assms] by (simp add: release_bin_def)
qed

lemma not_corrupt:
  assumes "bins_ok (al_mem al) live extent bs st" "i < length bs"
  shows "\<not> corrupt test al (bs ! i) st"
  using bins_split(4) [OF assms] by (cases "bn_binsize (bs ! i) = 0") (simp_all add: corrupt_def bin_ok_def mem_check_def)

lemma marked_new:
  assumes "i < length bs" "others_ok (al_mem al) extent i bs st" "live st (insert q (objects_but i bs))" "q \<notin> objects_but i bs"
    and "n \<le> extent st q" "0 < n"
  shows "bins_ok (al_mem al) live extent (bs[i := \<lparr>bn_ptr = q, bn_binsize = n\<rparr>]) (al_put al (mem_init q n (al_mem al st)) st)"
proof -
  let ?m = "mem_init q n (al_mem al st)" and ?P = "objects_but i bs"
  have own: "same_on (- {q..<q + extent st q}) (al_mem al st) ?m"
    using mem_init_own(2) [of q n "al_mem al st"] assms(5) by (auto simp: same_on_def)
  then have put: "live (al_put al ?m st) (insert q ?P)" "\<forall>p \<in> insert q ?P. extent (al_put al ?m st) p = extent st p"
    using put_live [OF assms(3)] by blast+
  have "same_on {p..<p + extent st p} (al_mem al st) ?m" if "p \<in> ?P" for p
  proof -
    have "{q..<q + extent st q} \<inter> {p..<p + extent st p} = {}"
      using live_apart [OF assms(3), of q p] that assms(4) by blast
    then have "{p..<p + extent st p} \<subseteq> - {q..<q + extent st q}"
      by blast
    then show ?thesis
      using own unfolding same_on_def by blast
  qed
  then have "undisturbed (al_mem al) extent ?P st (al_put al ?m st)"
    using put(2) by (simp add: undisturbed_def mem_put)
  moreover have "bin_ok (al_mem al) extent (al_put al ?m st) \<lparr>bn_ptr = q, bn_binsize = n\<rparr>"
    using put(2) assms(5) mem_init_own(1) by (simp add: bin_ok_def mem_put)
  ultimately show ?thesis
    using bins_filled [OF assms(1) others_ok_undisturbed [OF assms(2)], of _ live "\<lparr>bn_ptr = q, bn_binsize = n\<rparr>"] put(1) assms(4,6) by simp
qed

lemma BinFree_ok:
  assumes "bins_ok (al_mem al) live extent bs st" "i < length bs"
  shows "\<exists>c st'. BinFree test al (bs ! i) st = Inr (c, st') \<and> bins_ok (al_mem al) live extent (bs[i := c]) st' \<and> bn_binsize c = 0"
proof (cases "bn_binsize (bs ! i) = 0")
  case True
  then show ?thesis
    using assms by (simp add: BinFree_def)
next
  case False
  obtain st' where r: "release_bin al (bs ! i) st = Inr st'" "live st' (objects_but i bs)" "others_ok (al_mem al) extent i bs st'"
    using released [OF assms] by blast
  have "bins_ok (al_mem al) live extent (bs[i := (bs ! i)\<lparr>bn_binsize := 0\<rparr>]) st'"
    by (rule bins_emptied [where live = live, OF assms(2) r(3,2)]) simp
  then show ?thesis
    using r(1) False not_corrupt [OF assms] by (simp add: BinFree_def release_bin_def)
qed

text \<open>The new object of a bin, from \<open>malloc\<close> after a release or from \<open>realloc\<close>.\<close>

lemma new_object:
  assumes "bins_ok (al_mem al) live extent bs st" "i < length bs" "0 < n" "room st n"
  shows "\<exists>q st'. (if r < (100 :: nat) \<and> bn_binsize (bs ! i) < 2000
       then al_realloc al (if bn_binsize (bs ! i) = 0 then NULL else bn_ptr (bs ! i)) n st
       else rbind (release_bin al (bs ! i) st) (al_malloc al n)) = Inr (q, st') \<and>
    live st' (insert q (objects_but i bs)) \<and> q \<notin> objects_but i bs \<and> n \<le> extent st' q \<and> others_ok (al_mem al) extent i bs st'"
proof (cases "r < (100 :: nat) \<and> bn_binsize (bs ! i) < 2000")
  case True
  note b = bins_split [OF assms(1,2)]
  have "\<exists>q st'. al_realloc al (if bn_binsize (bs ! i) = 0 then NULL else bn_ptr (bs ! i)) n st = Inr (q, st') \<and> q \<notin> objects_but i bs \<and>
      live st' (insert q (objects_but i bs)) \<and> n \<le> extent st' q \<and> undisturbed (al_mem al) extent (objects_but i bs) st st'"
    using realloc_null_gives [OF b(2) assms(3,4)] realloc_gives [OF _ _ assms(3,4)] b(3) by (cases "bn_binsize (bs ! i) = 0") simp_all
  then show ?thesis
    unfolding if_P [OF True] using others_ok_undisturbed [OF b(1)] by blast
next
  case False
  obtain st1 where st1: "release_bin al (bs ! i) st = Inr st1" "live st1 (objects_but i bs)" "others_ok (al_mem al) extent i bs st1" "room st1 n"
    using released [OF assms(1,2)] assms(4) by blast
  then show ?thesis
    unfolding if_not_P [OF False] st1(1) rbind_simps using malloc_gives [OF st1(2) assms(3) st1(4)] others_ok_undisturbed [OF st1(3)] by blast
qed

lemma BinAlloc_ok:
  assumes "bins_ok (al_mem al) live extent bs st" "i < length bs" "0 < n" "room st n" "20 \<le> unat rnd mod 1024"
  shows "\<exists>c st'. BinAlloc True al n rnd (bs ! i) st = Inr (c, st') \<and> bins_ok (al_mem al) live extent (bs[i := c]) st'"
proof -
  let ?r = "unat rnd mod 1024"
  obtain q st1 where q: "(if ?r < 100 \<and> bn_binsize (bs ! i) < 2000
       then al_realloc al (if bn_binsize (bs ! i) = 0 then NULL else bn_ptr (bs ! i)) n st
       else rbind (release_bin al (bs ! i) st) (al_malloc al n)) = Inr (q, st1)"
      "live st1 (insert q (objects_but i bs))" "q \<notin> objects_but i bs" "n \<le> extent st1 q" "others_ok (al_mem al) extent i bs st1"
    using new_object [OF assms(1-4), of ?r] by blast
  have "q \<noteq> NULL"
    using live_nonnull [OF q(2)] by auto
  moreover have "\<not> ?r < 4" "\<not> ?r < 20"
    using assms(5) by simp_all
  ultimately have "BinAlloc True al n rnd (bs ! i) st =
      Inr (\<lparr>bn_ptr = q, bn_binsize = n\<rparr>, al_put al (mem_init q n (al_mem al st1)) st1)"
    using not_corrupt [OF assms(1,2), of True] q(1) by (simp add: BinAlloc_def Let_def)
  then show ?thesis
    using marked_new [OF assms(2) q(5,2,3,4) assms(3)] by blast
qed

text \<open>The operations on a bin of the test, and the release of all bins at its end.\<close>

lemma on_bin_ok:
  assumes "bins_ok (al_mem al) live extent (mt_bins t) (mt_st t)" "b < length (mt_bins t)"
  shows "\<exists>t'. on_bin b (BinFree test al) t = Inr t' \<and> bins_ok (al_mem al) live extent (mt_bins t') (mt_st t') \<and>
      length (mt_bins t') = length (mt_bins t) \<and> (\<forall>j < length (mt_bins t). bn_binsize (mt_bins t' ! j) = (if j = b then 0 else bn_binsize (mt_bins t ! j)))"
    and "0 < n \<Longrightarrow> room (mt_st t) n \<Longrightarrow> 20 \<le> unat rnd mod 1024 \<Longrightarrow>
      \<exists>t'. on_bin b (BinAlloc True al n rnd) t = Inr t' \<and> bins_ok (al_mem al) live extent (mt_bins t') (mt_st t')"
proof -
  obtain c st where "BinFree test al (mt_bins t ! b) (mt_st t) = Inr (c, st)" "bins_ok (al_mem al) live extent ((mt_bins t)[b := c]) st"
      "bn_binsize c = 0"
    using BinFree_ok [OF assms] by blast
  then show "\<exists>t'. on_bin b (BinFree test al) t = Inr t' \<and> bins_ok (al_mem al) live extent (mt_bins t') (mt_st t') \<and>
      length (mt_bins t') = length (mt_bins t) \<and> (\<forall>j < length (mt_bins t). bn_binsize (mt_bins t' ! j) = (if j = b then 0 else bn_binsize (mt_bins t ! j)))"
    using assms(2) by (simp add: on_bin_def)
  show "\<exists>t'. on_bin b (BinAlloc True al n rnd) t = Inr t' \<and> bins_ok (al_mem al) live extent (mt_bins t') (mt_st t')"
    if n: "0 < n" "room (mt_st t) n" "20 \<le> unat rnd mod 1024"
  proof -
    obtain c st where "BinAlloc True al n rnd (mt_bins t ! b) (mt_st t) = Inr (c, st)" "bins_ok (al_mem al) live extent ((mt_bins t)[b := c]) st"
      using BinAlloc_ok [OF assms n] by blast
    then show ?thesis
      using assms(2) by (simp add: on_bin_def)
  qed
qed

lemma free_all_ok:
  assumes "bins_ok (al_mem al) live extent (mt_bins t) (mt_st t)" "set js \<subseteq> {..<length (mt_bins t)}"
  shows "\<exists>t'. free_all test al js t = Inr t' \<and> bins_ok (al_mem al) live extent (mt_bins t') (mt_st t') \<and>
    length (mt_bins t') = length (mt_bins t) \<and>
    (\<forall>j < length (mt_bins t). bn_binsize (mt_bins t' ! j) = (if j \<in> set js then 0 else bn_binsize (mt_bins t ! j)))"
  using assms
proof (induction js arbitrary: t)
  case (Cons b js)
  obtain t1 where t1: "on_bin b (BinFree test al) t = Inr t1" "bins_ok (al_mem al) live extent (mt_bins t1) (mt_st t1)"
      "length (mt_bins t1) = length (mt_bins t)"
      "\<forall>j < length (mt_bins t). bn_binsize (mt_bins t1 ! j) = (if j = b then 0 else bn_binsize (mt_bins t ! j))"
    using on_bin_ok(1) [OF Cons.prems(1), of b test] Cons.prems(2) by auto
  obtain t' where "free_all test al js t1 = Inr t'" "bins_ok (al_mem al) live extent (mt_bins t') (mt_st t')"
      "length (mt_bins t') = length (mt_bins t1)"
      "\<forall>j < length (mt_bins t1). bn_binsize (mt_bins t' ! j) = (if j \<in> set js then 0 else bn_binsize (mt_bins t1 ! j))"
    using Cons.IH [OF t1(2)] t1(3) Cons.prems(2) by auto
  then show ?case
    using t1 by auto
qed simp

lemma all_released:
  assumes "bins_ok (al_mem al) live extent (mt_bins t) (mt_st t)"
  shows "\<exists>t'. free_all test al [0..<length (mt_bins t)] t = Inr t' \<and> live (mt_st t') {}"
proof -
  have "set [0..<length (mt_bins t)] \<subseteq> {..<length (mt_bins t)}"
    by auto
  from free_all_ok [OF assms this, of test] obtain t' where t': "free_all test al [0..<length (mt_bins t)] t = Inr t'"
      "bins_ok (al_mem al) live extent (mt_bins t') (mt_st t')" "length (mt_bins t') = length (mt_bins t)"
      "\<forall>j < length (mt_bins t). bn_binsize (mt_bins t' ! j) = 0"
    by auto
  then have "filled (mt_bins t') = {}"
    by (auto simp: filled_def)
  then show ?thesis
    using t'(1,2) by (auto simp: bins_ok_def)
qed

end

section \<open>The one-layer allocator under test\<close>

text \<open>The allocator defines neither \<open>calloc\<close> nor \<open>memalign\<close>, which stay those of the C library and are arguments.\<close>

definition tested1 ::
    "(nat \<Rightarrow> nat \<Rightarrow> state1 \<Rightarrow> (addr \<times> state1) result) \<Rightarrow> (nat \<Rightarrow> nat \<Rightarrow> state1 \<Rightarrow> (addr \<times> state1) result) \<Rightarrow> state1 test_allocator" where
  "tested1 calloc memalign =
     \<lparr>al_malloc = (\<lambda>n. malloc (of_nat n)), al_calloc = calloc, al_memalign = memalign, al_realloc = (\<lambda>p n. realloc p (of_nat n)),
      al_free = free, al_mem = (\<lambda>st. p_mem (fst st)), al_put = put_mem1\<rparr>"

definition live1 :: "state1 \<Rightarrow> addr set \<Rightarrow> bool" where
  "live1 st P \<longleftrightarrow> (\<exists>A. inv1 st A \<and> P = (\<lambda>h. 16 + h) ` A)"

definition extent1 :: "state1 \<Rightarrow> addr \<Rightarrow> nat" where
  "extent1 st p = bsize (p_mem (fst st)) (p - 16) - 32"

definition bin_room1 :: "state1 \<Rightarrow> nat \<Rightarrow> bool" where
  "bin_room1 st n \<longleftrightarrow> n < 2 ^ 33 \<and> room1 st (of_nat n)"

lemma tested1_simps [simp]:
  "al_malloc (tested1 calloc memalign) n = malloc (of_nat n)" "al_realloc (tested1 calloc memalign) p n = realloc p (of_nat n)"
  "al_free (tested1 calloc memalign) = free" "al_mem (tested1 calloc memalign) st = p_mem (fst st)"
  "al_put (tested1 calloc memalign) = put_mem1"
  by (simp_all add: tested1_def)

lemma tested1_mem: "al_mem (tested1 calloc memalign) = (\<lambda>st. p_mem (fst st))"
  by (simp add: tested1_def)

lemma inv1_bsize: "inv1 st A \<Longrightarrow> h \<in> A \<Longrightarrow> 48 \<le> bsize (p_mem (fst st)) h"
  using inv1_blocks [of "fst st" "snd st" A] by (simp add: blocks_ok_def region_ok_def)

lemma user_extent: "inv1 st A \<Longrightarrow> h \<in> A \<Longrightarrow> {16 + h..<16 + h + extent1 st (16 + h)} = user_bytes (p_mem (fst st)) h"
  using inv1_bsize [of st A h] by (simp add: extent1_def user_bytes_def)

lemma same_on_extents:
  assumes "inv1 st B" "A \<subseteq> B" "\<And>h. h \<in> A \<Longrightarrow> same_on (block (p_mem (fst st)) h) (p_mem (fst st)) (p_mem (fst st'))"
  shows "undisturbed (\<lambda>st. p_mem (fst st)) extent1 ((\<lambda>h. 16 + h) ` A) st st'"
proof -
  have "extent1 st' (16 + h) = extent1 st (16 + h) \<and>
      same_on {16 + h..<16 + h + extent1 st (16 + h)} (p_mem (fst st)) (p_mem (fst st'))" if h: "h \<in> A" for h
  proof
    have hB: "h \<in> B"
      using h assms(2) by blast
    show "extent1 st' (16 + h) = extent1 st (16 + h)"
      using block_same(1) [OF assms(3) [OF h]] inv1_bsize [OF assms(1) hB] by (simp add: extent1_def)
    show "same_on {16 + h..<16 + h + extent1 st (16 + h)} (p_mem (fst st)) (p_mem (fst st'))"
      unfolding user_extent [OF assms(1) hB] using assms(3) [OF h] by (auto simp: same_on_def block_def user_bytes_def)
  qed
  then show ?thesis
    by (auto simp: undisturbed_def)
qed

lemma undisturbed_calls:
  "undisturbed (\<lambda>st. p_mem (fst st)) extent1 P st (p, f a) = undisturbed (\<lambda>st. p_mem (fst st)) extent1 P st (p, a)"
  "extent1 (p, f a) = extent1 (p, a)"
  by (auto simp: undisturbed_def extent1_def)

text \<open>An object from \<open>allocateObject\<close>, as the test sees it.\<close>

lemma allocateObject_gives:
  assumes "inv1 (p, a) A" "0 < n" "bin_room1 (p, a) n"
  shows "\<exists>h p' a'. allocateObject (of_nat n) (p, a) = Inr (16 + h, p', a') \<and> h \<notin> A \<and> inv1 (p', a') (insert h A) \<and>
    n \<le> extent1 (p', a') (16 + h) \<and> undisturbed (\<lambda>st. p_mem (fst st)) extent1 ((\<lambda>h. 16 + h) ` A) (p, a) (p', a')"
proof -
  have n: "unat (of_nat n :: size_t) = n" and r: "room1 (p, a) (of_nat n)"
    using assms(3) by (auto simp: bin_room1_def unat_of_nat)
  obtain h t p' a' where al: "allocateObject (of_nat n) (p, a) = Inr (16 + h, p', a')" "inv1 (p', a') (insert h A)" "h \<notin> A"
      "bsize (p_mem p') h = t" "n + 32 \<le> t" "\<And>b. b \<in> A \<Longrightarrow> same_on (block (p_mem p) b) (p_mem p) (p_mem p')"
    by (rule allocateObject_correct [OF assms(1) r]) (use n total_size_ge [of "of_nat n"] assms(3) in \<open>auto simp: bin_room1_def\<close>)
  then show ?thesis
    using same_on_extents [OF assms(1) subset_refl, of "(p', a')"] by (auto simp: extent1_def)
qed

lemma live1_calls: "live1 (p, increaseMallocCalls a) P = live1 (p, a) P" "live1 (p, increaseFreeCalls a) P = live1 (p, a) P"
    "live1 (p, increaseReallocCalls a) P = live1 (p, a) P"
  by (simp_all add: live1_def inv1_def increaseMallocCalls_def increaseFreeCalls_def increaseReallocCalls_def)

lemma live1_image: "live1 st ((\<lambda>h. 16 + h) ` A) \<longleftrightarrow> inv1 st A"
proof -
  have "A = B" if "(\<lambda>h. 16 + h) ` A = (\<lambda>h :: nat. 16 + h) ` B" for B
    using that by (simp only: inj_image_eq_iff [of "\<lambda>h :: nat. 16 + h"] inj_def add_left_cancel simp_thms)
  then show ?thesis
    by (auto simp: live1_def)
qed

lemma live1_insert: "live1 st (insert (16 + h) ((\<lambda>h. 16 + h) ` A)) \<longleftrightarrow> inv1 st (insert h A)"
  using live1_image [of st "insert h A"] by simp

lemma live1_member:
  assumes "live1 st (insert p P)" "p \<notin> P"
  obtains h A where "p = 16 + h" "P = (\<lambda>h. 16 + h) ` A" "h \<notin> A" "inv1 st (insert h A)"
proof -
  obtain B where B: "inv1 st B" "insert p P = (\<lambda>h. 16 + h) ` B"
    using assms(1) by (auto simp: live1_def)
  then obtain h where h: "p = 16 + h" "h \<in> B"
    by auto
  have "P = insert p P - {p}"
    using assms(2) by blast
  also have "\<dots> = (\<lambda>h. 16 + h) ` B - (\<lambda>h. 16 + h) ` {h}"
    using B(2) h(1) by simp
  also have "\<dots> = (\<lambda>h. 16 + h) ` (B - {h})"
    by (subst image_set_diff) (simp_all add: inj_def)
  finally have "P = (\<lambda>h. 16 + h) ` (B - {h})" .
  moreover have "insert h (B - {h}) = B"
    using h(2) by blast
  ultimately show ?thesis
    using that [of h "B - {h}"] h(1) B(1) by simp
qed

lemma malloc_gives1:
  assumes "live1 st P" "0 < n" "bin_room1 st n"
  shows "\<exists>p st'. malloc (of_nat n) st = Inr (p, st') \<and> p \<notin> P \<and> live1 st' (insert p P) \<and> n \<le> extent1 st' p \<and>
    undisturbed (\<lambda>st. p_mem (fst st)) extent1 P st st'"
proof -
  obtain A p a where st: "st = (p, a)" "inv1 (p, a) A" "P = (\<lambda>h. 16 + h) ` A"
    using assms(1) by (cases st) (auto simp: live1_def)
  obtain h p' a' where al: "allocateObject (of_nat n) (p, a) = Inr (16 + h, p', a')" "h \<notin> A" "inv1 (p', a') (insert h A)"
      "n \<le> extent1 (p', a') (16 + h)" "undisturbed (\<lambda>st. p_mem (fst st)) extent1 P (p, a) (p', a')"
    using allocateObject_gives [OF st(2) assms(2)] assms(3) st(1,3) by blast
  have "(of_nat n :: size_t) > 0"
    using assms(2,3) by (auto simp: bin_room1_def word_gt_0 word_unat_eq_iff unat_of_nat)
  then have "malloc (of_nat n) st = Inr (16 + h, p', increaseMallocCalls a')"
    using al(1) by (simp add: malloc_def st(1))
  then show ?thesis
    using al(2-5) undisturbed_calls [where f = increaseMallocCalls] live1_calls(1) [of p' a'] live1_insert [of _ h A] st(1,3)
    by (auto intro!: exI [of _ "16 + h"])
qed

lemma realloc_null_gives1:
  assumes "live1 st P" "0 < n" "bin_room1 st n"
  shows "\<exists>p st'. realloc NULL (of_nat n) st = Inr (p, st') \<and> p \<notin> P \<and> live1 st' (insert p P) \<and> n \<le> extent1 st' p \<and>
    undisturbed (\<lambda>st. p_mem (fst st)) extent1 P st st'"
proof -
  obtain A p a where st: "st = (p, a)" "inv1 (p, increaseReallocCalls a) A" "P = (\<lambda>h. 16 + h) ` A"
    using assms(1) by (cases st) (auto simp: live1_def inv1_def increaseReallocCalls_def)
  have "bin_room1 (p, increaseReallocCalls a) n"
    using assms(3) by (simp add: st(1) bin_room1_def room1_def increaseReallocCalls_def)
  from allocateObject_gives [OF st(2) assms(2) this]
  obtain h p' a' where al: "allocateObject (of_nat n) (p, increaseReallocCalls a) = Inr (16 + h, p', a')" "h \<notin> A"
      "inv1 (p', a') (insert h A)" "n \<le> extent1 (p', a') (16 + h)"
      "undisturbed (\<lambda>st. p_mem (fst st)) extent1 P (p, increaseReallocCalls a) (p', a')"
    using st(3) by blast
  have "realloc NULL (of_nat n) st = Inr (16 + h, p', a')"
    using al(1) by (simp add: realloc_def st(1))
  moreover have "undisturbed (\<lambda>st. p_mem (fst st)) extent1 P st (p', a')"
    using al(5) by (simp add: st(1) undisturbed_def extent1_def)
  ultimately show ?thesis
    using al(2-4) live1_insert [of "(p', a')" h A] st(3) by (auto intro!: exI [of _ "16 + h"])
qed

lemma realloc_gives1:
  assumes "live1 st (insert p P)" "p \<notin> P" "0 < n" "bin_room1 st n"
  shows "\<exists>q st'. realloc p (of_nat n) st = Inr (q, st') \<and> q \<notin> P \<and> live1 st' (insert q P) \<and> n \<le> extent1 st' q \<and>
    undisturbed (\<lambda>st. p_mem (fst st)) extent1 P st st'"
proof -
  obtain h A where h: "p = 16 + h" "P = (\<lambda>h. 16 + h) ` A" "h \<notin> A" "inv1 st (insert h A)"
    using live1_member [OF assms(1,2)] by blast
  obtain pr a where st: "st = (pr, a)"
    by (cases st)
  have n: "unat (of_nat n :: size_t) = n" and r: "room1 (pr, a) (of_nat n)" and sz: "unat (of_nat n :: size_t) + 39 < 2 ^ 64"
    using assms(4) by (auto simp: st bin_room1_def unat_of_nat)
  have A: "insert h A - {h} = A"
    using h(3) by blast
  have iv: "inv1 (pr, a) (insert h A)"
    using h(4) by (simp add: st)
  obtain h2 p' a' where re: "realloc (16 + h) (of_nat n) (pr, a) = Inr (16 + h2, p', a')" "inv1 (p', a') (insert h2 A)" "h2 \<notin> insert h A"
      "n + 32 \<le> bsize (p_mem p') h2" "\<And>b. b \<in> A \<Longrightarrow> same_on (block (p_mem pr) b) (p_mem pr) (p_mem p')"
    by (rule realloc_live [OF iv insertI1 r sz, unfolded A n]) (use n in auto)
  have "undisturbed (\<lambda>st. p_mem (fst st)) extent1 P st (p', a')"
    unfolding h(2) st using same_on_extents [OF iv subset_insertI, of "(p', a')"] re(5) by simp
  then show ?thesis
    using re live1_insert [of "(p', a')" h2 A] h(1,2) st by (auto simp: extent1_def intro!: exI [of _ "16 + h2"])
qed

lemma free_takes1:
  assumes "live1 st (insert p P)" "p \<notin> P"
  shows "\<exists>st'. free p st = Inr st' \<and> live1 st' P \<and> undisturbed (\<lambda>st. p_mem (fst st)) extent1 P st st' \<and>
    (\<forall>n. bin_room1 st n \<longrightarrow> bin_room1 st' n)"
proof -
  obtain h A where h: "p = 16 + h" "P = (\<lambda>h. 16 + h) ` A" "h \<notin> A" "inv1 st (insert h A)"
    using live1_member [OF assms] by blast
  obtain pr a where st: "st = (pr, a)"
    by (cases st)
  have iv: "inv1 (pr, increaseFreeCalls a) (insert h A)"
    using h(4) by (simp add: st inv1_def increaseFreeCalls_def)
  have A: "insert h A - {h} = A"
    using h(3) by blast
  obtain p' a' where fr: "freeObject (16 + h) (pr, increaseFreeCalls a) = Inr (p', a')" "inv1 (p', a') A"
      "p_os p' = p_os pr" "a_heapSize a' = a_heapSize (increaseFreeCalls a)"
      "\<And>b. b \<in> A \<Longrightarrow> same_on (block (p_mem pr) b) (p_mem pr) (p_mem p')"
    using freeObject_correct [OF iv insertI1] unfolding A by metis
  have "undisturbed (\<lambda>st. p_mem (fst st)) extent1 P st (p', a')"
    unfolding h(2) using same_on_extents [OF h(4) subset_insertI, of "(p', a')"] fr(5) by (simp add: st)
  moreover have "\<forall>n. bin_room1 st n \<longrightarrow> bin_room1 (p', a') n"
    using fr(3,4) by (simp add: st bin_room1_def room1_def increaseFreeCalls_def)
  moreover have "free p st = Inr (p', a')"
    using fr(1) by (simp add: free_def h(1) st)
  ultimately show ?thesis
    using fr(2) live1_image [of _ A] h(2) by auto
qed

lemma put_live1:
  assumes "live1 st P" "p \<in> P" "same_on (- {p..<p + extent1 st p}) (p_mem (fst st)) m"
  shows "live1 (put_mem1 m st) P \<and> (\<forall>q \<in> P. extent1 (put_mem1 m st) q = extent1 st q)"
proof -
  obtain A h where A: "inv1 st A" "P = (\<lambda>h. 16 + h) ` A" and h: "h \<in> A" "p = 16 + h"
    using assms(1,2) by (auto simp: live1_def)
  obtain pr a where st: "st = (pr, a)"
    by (cases st)
  have "same_on (- user_bytes (p_mem pr) h) (p_mem pr) m"
    using assms(3) unfolding h(2) user_extent [OF A(1) h(1)] by (simp add: st)
  note w = user_write_inv1 [OF A(1) [unfolded st] h(1) this]
  then have "extent1 (put_mem1 m st) q = extent1 st q" if "q \<in> P" for q
    using that by (auto simp: A(2) extent1_def put_mem1_def st)
  moreover have "live1 (put_mem1 m st) P"
    using w(1) unfolding A(2) live1_image by (simp add: put_mem1_def st)
  ultimately show ?thesis
    by blast
qed

lemma live1_apart:
  assumes "live1 st P" "p \<in> P" "q \<in> P" "p \<noteq> q"
  shows "{p..<p + extent1 st p} \<inter> {q..<q + extent1 st q} = {}"
proof -
  obtain A x y where A: "inv1 st A" and x: "x \<in> A" "p = 16 + x" and y: "y \<in> A" "q = 16 + y"
    using assms by (auto simp: live1_def)
  have "blocks_ok (p_mem (fst st)) A"
    using inv1_blocks [of "fst st" "snd st" A] A by simp
  then have "x + bsize (p_mem (fst st)) x \<le> y \<or> y + bsize (p_mem (fst st)) y \<le> x"
    using x y assms(4) by (simp add: blocks_ok_def)
  then show ?thesis
    unfolding x(2) y(2) user_extent [OF A x(1)] user_extent [OF A y(1)] by (auto simp: user_bytes_def)
qed

interpretation heap1: test_heap "tested1 calloc memalign" live1 extent1 bin_room1 for calloc memalign
proof (unfold_locales, goal_cases)
  case (1 m st)
  then show ?case
    by (simp add: put_mem1_def)
next
  case (2 st P p q)
  then show ?case
    by (rule live1_apart)
next
  case (3 st P)
  then show ?case
    by (auto simp: live1_def)
next
  case (4 st P p m)
  then show ?case
    using put_live1 by simp
next
  case (5 st P n)
  then show ?case
    unfolding tested1_mem tested1_simps by (rule malloc_gives1)
next
  case (6 st P n)
  then show ?case
    unfolding tested1_mem tested1_simps by (rule realloc_null_gives1)
next
  case (7 st p P n)
  then show ?case
    unfolding tested1_mem tested1_simps by (rule realloc_gives1)
next
  case (8 st p P)
  then show ?case
    unfolding tested1_mem tested1_simps by (rule free_takes1)
qed

text \<open>
  The states of the test on the one-layer allocator: from a booted process with empty bins, by releases and allocations of bins
  in any order with any random numbers, as long as there is room for the objects and \<open>memalign\<close> and \<open>calloc\<close> are not used.
\<close>

inductive tested_states ::
    "(nat \<Rightarrow> nat \<Rightarrow> state1 \<Rightarrow> (addr \<times> state1) result) \<Rightarrow> (nat \<Rightarrow> nat \<Rightarrow> state1 \<Rightarrow> (addr \<times> state1) result) \<Rightarrow> state1 memtest \<Rightarrow> bool"
  for calloc memalign where
  test_start: "booted p \<Longrightarrow> tested_states calloc memalign (new_memtest perbinsize numbins imax seed (p, TheAllocator))"
| test_draw: "tested_states calloc memalign t \<Longrightarrow> tested_states calloc memalign (t\<lparr>mt_seed := s\<rparr>)"
| test_free: "tested_states calloc memalign t \<Longrightarrow> b < length (mt_bins t) \<Longrightarrow>
    on_bin b (BinFree True (tested1 calloc memalign)) t = Inr t' \<Longrightarrow> tested_states calloc memalign t'"
| test_alloc: "tested_states calloc memalign t \<Longrightarrow> b < length (mt_bins t) \<Longrightarrow> 0 < n \<Longrightarrow> bin_room1 (mt_st t) n \<Longrightarrow> 20 \<le> unat rnd mod 1024 \<Longrightarrow>
    on_bin b (BinAlloc True (tested1 calloc memalign) n rnd) t = Inr t' \<Longrightarrow> tested_states calloc memalign t'"

lemma tested_states_ok:
  "tested_states calloc memalign t \<Longrightarrow> bins_ok (\<lambda>st. p_mem (fst st)) live1 extent1 (mt_bins t) (mt_st t)"
proof (induction rule: tested_states.induct)
  case (test_start p perbinsize numbins imax seed)
  have "filled (replicate k \<lparr>bn_ptr = NULL, bn_binsize = 0\<rparr>) = {}" for k
    by (simp add: filled_def)
  then show ?case
    using boot_inv1 [OF test_start] by (simp add: new_memtest_def bins_ok_def live1_def)
next
  case (test_free t b t')
  then show ?case
    using heap1.on_bin_ok(1) [of calloc memalign t b True] by (auto simp: tested1_mem)
next
  case (test_alloc t b n rnd t')
  then show ?case
    using heap1.on_bin_ok(2) [of calloc memalign t b n rnd] by (auto simp: tested1_mem)
qed simp

text \<open>
  C21: On the one-layer allocator no check of the memory test ever fails and no call of it faults: in every state of the test a
  bin can be released, and filled with an object of any size for which there is room by \<open>realloc\<close>, or by \<open>free\<close> and
  \<open>malloc\<close>; at the end all bins can be released, and the heap is in order without a live object.
\<close>

theorem memtest_passes:
  assumes "tested_states calloc memalign t" "b < length (mt_bins t)"
  shows "(\<exists>t'. on_bin b (BinFree True (tested1 calloc memalign)) t = Inr t') \<and>
    (\<forall>n rnd. 0 < n \<and> bin_room1 (mt_st t) n \<and> 20 \<le> unat rnd mod 1024 \<longrightarrow>
       (\<exists>t'. on_bin b (BinAlloc True (tested1 calloc memalign) n rnd) t = Inr t')) \<and>
    (\<exists>t'. free_all True (tested1 calloc memalign) [0..<length (mt_bins t)] t = Inr t' \<and> inv1 (mt_st t') {})"
proof -
  let ?al = "tested1 calloc memalign"
  have ok: "bins_ok (al_mem ?al) live1 extent1 (mt_bins t) (mt_st t)"
    using tested_states_ok [OF assms(1)] by (simp add: tested1_mem)
  have "\<exists>t'. free_all True ?al [0..<length (mt_bins t)] t = Inr t' \<and> inv1 (mt_st t') {}"
    using heap1.all_released [OF ok, of True] live1_image [of _ "{}"] by simp
  then show ?thesis
    using heap1.on_bin_ok [OF ok assms(2)] by blast
qed

theorem memtest_passes_witness:
  "let al = tested1 (\<lambda>_ _ _. Inl Fatal) (\<lambda>_ _ _. Inl Fatal); t = new_memtest 1000 2 5 7 (demo_process, TheAllocator)
   in \<exists>t1 t2. on_bin 0 (BinAlloc True al 100 50) t = Inr t1 \<and> on_bin 0 (BinFree True al) t1 = Inr t2"
proof -
  let ?c = "\<lambda>_ _ _. Inl Fatal" and ?t = "new_memtest 1000 2 5 7 (demo_process, TheAllocator)"
  have t: "tested_states ?c ?c ?t" "0 < length (mt_bins ?t)"
    by (rule test_start [OF booted_demo]) (simp add: new_memtest_def)
  have r: "bin_room1 (mt_st ?t) 100" "20 \<le> unat (50 :: 32 word) mod 1024"
    using room1_demo(1) by (simp_all add: bin_room1_def new_memtest_def)
  then obtain t1 where t1: "on_bin 0 (BinAlloc True (tested1 ?c ?c) 100 50) ?t = Inr t1"
    using memtest_passes [OF t] by force
  then have "tested_states ?c ?c t1" "0 < length (mt_bins t1)"
    using test_alloc [OF t _ r t1] t(2) by (auto simp: on_bin_def rbind_Inr_iff)
  from memtest_passes [OF this] t1 show ?thesis
    by (simp add: Let_def)
qed

end
