(* ===== verification/Locks.thy ===== *)
theory Locks
  imports Barrier
begin

text \<open>
  The wrappers of the pthread mutex, condition variable and reader-writer lock (\<open>lock.hpp\<close>) with what POSIX says of the calls
  they make, and the class \<open>Notification\<close> over them as a step relation.
\<close>

section \<open>Mutex and condition variable\<close>

record mutex =
  m_owner :: "tid option"

definition new_mutex :: mutex where
  "new_mutex = \<lparr>m_owner = None\<rparr>"

text \<open>\<open>lock\<close> waits (\<^const>\<open>None\<close>) while another thread is the owner; a scoped lock locks in its constructor and unlocks in its destructor.\<close>

definition mutex_lock :: "tid \<Rightarrow> mutex \<Rightarrow> mutex option" where
  "mutex_lock t m = (if m_owner m = None then Some (m\<lparr>m_owner := Some t\<rparr>) else None)"

definition mutex_unlock :: "mutex \<Rightarrow> mutex" where
  "mutex_unlock m = m\<lparr>m_owner := None\<rparr>"

record condition_var =
  cv_asleep :: "tid set"

definition new_condition_var :: condition_var where
  "new_condition_var = \<lparr>cv_asleep = {}\<rparr>"

text \<open>
  \<open>wait\<close> puts the thread to sleep and releases the mutex in one step; \<open>signal\<close> wakes one of the threads, if there are any, and
  \<open>signalAll\<close> all of them.  A woken thread has to lock the mutex again.
\<close>

definition cv_wait :: "tid \<Rightarrow> condition_var \<Rightarrow> mutex \<Rightarrow> condition_var \<times> mutex" where
  "cv_wait t cv m = (cv\<lparr>cv_asleep := insert t (cv_asleep cv)\<rparr>, mutex_unlock m)"

definition cv_wake :: "tid \<Rightarrow> condition_var \<Rightarrow> condition_var" where
  "cv_wake t cv = cv\<lparr>cv_asleep := cv_asleep cv - {t}\<rparr>"

definition cv_signalAll :: "condition_var \<Rightarrow> condition_var" where
  "cv_signalAll cv = cv\<lparr>cv_asleep := {}\<rparr>"

section \<open>Reader-writer lock\<close>

record rw_mutex =
  rw_readers :: "tid set"
  rw_writer :: "tid option"

definition new_rw_mutex :: rw_mutex where
  "new_rw_mutex = \<lparr>rw_readers = {}, rw_writer = None\<rparr>"

definition rLock :: "tid \<Rightarrow> rw_mutex \<Rightarrow> rw_mutex option" where
  "rLock t m = (if rw_writer m = None then Some (m\<lparr>rw_readers := insert t (rw_readers m)\<rparr>) else None)"

definition wLock :: "tid \<Rightarrow> rw_mutex \<Rightarrow> rw_mutex option" where
  "wLock t m = (if rw_writer m = None \<and> rw_readers m = {} then Some (m\<lparr>rw_writer := Some t\<rparr>) else None)"

definition rw_unlock :: "tid \<Rightarrow> rw_mutex \<Rightarrow> rw_mutex" where
  "rw_unlock t m = (if rw_writer m = Some t then m\<lparr>rw_writer := None\<rparr> else m\<lparr>rw_readers := rw_readers m - {t}\<rparr>)"

text \<open>Scoped use: a thread that holds nothing locks, and unlocks what it holds.\<close>

definition rw_holds :: "rw_mutex \<Rightarrow> tid \<Rightarrow> bool" where
  "rw_holds m t \<longleftrightarrow> t \<in> rw_readers m \<or> rw_writer m = Some t"

inductive rw_step :: "rw_mutex \<Rightarrow> rw_mutex \<Rightarrow> bool" where
  read_lock: "\<not> rw_holds m t \<Longrightarrow> rLock t m = Some m' \<Longrightarrow> rw_step m m'"
| write_lock: "\<not> rw_holds m t \<Longrightarrow> wLock t m = Some m' \<Longrightarrow> rw_step m m'"
| rw_release: "rw_holds m t \<Longrightarrow> rw_step m (rw_unlock t m)"

definition rw_inv :: "rw_mutex \<Rightarrow> bool" where
  "rw_inv m \<longleftrightarrow> (rw_writer m \<noteq> None \<longrightarrow> rw_readers m = {})"

interpretation writers: lock_protocol "\<lambda>m. m = new_rw_mutex" rw_step "\<lambda>m t. rw_writer m = Some t" rw_inv
proof
  show "rw_inv m" if "m = new_rw_mutex" for m
    using that by (simp add: rw_inv_def new_rw_mutex_def)
  show "rw_inv m'" if "rw_inv m" "rw_step m m'" for m m'
    using that(2,1) by (cases rule: rw_step.cases) (auto simp: rw_inv_def rLock_def wLock_def rw_unlock_def split: if_splits)
  show "t = u" if "rw_inv m" "rw_writer m = Some t" "rw_writer m = Some u" for m t u
    using that by simp
qed

text \<open>While a thread writes no other one reads or writes, whatever the order of the calls.\<close>

theorem writer_alone:
  assumes "reachable (\<lambda>m. m = new_rw_mutex) rw_step m" "rw_writer m = Some t"
  shows "rw_holds m u \<longleftrightarrow> u = t"
  using writers.reachable_inv [OF assms(1)] assms(2) by (auto simp: rw_inv_def rw_holds_def)

section \<open>Notification\<close>

text \<open>
  Where a thread is: outside; in \<open>wait\<close> before the lock, at the test of the loop, asleep, woken, or behind the loop; in \<open>notify\<close>
  before the lock, the assignment, the signal and the unlock; in \<open>reset\<close> before the lock, the assignment and the unlock.
\<close>

datatype nt_pc = NOut | WEnter | WTest | WAsleep | WWoken | WLeave | SEnter | SSet | SSignal | SLeave | REnter | RSet | RLeave

record nt_state =
  ns_m :: mutex
  ns_cv :: condition_var
  ns_notified :: bool
  ns_pc :: "tid \<Rightarrow> nt_pc"

definition nt_init :: "nt_state \<Rightarrow> bool" where
  "nt_init s \<longleftrightarrow> s = \<lparr>ns_m = new_mutex, ns_cv = new_condition_var, ns_notified = False, ns_pc = (\<lambda>_. NOut)\<rparr>"

definition nt_goto :: "tid \<Rightarrow> nt_pc \<Rightarrow> nt_state \<Rightarrow> nt_state" where
  "nt_goto t p s = s\<lparr>ns_pc := (ns_pc s)(t := p)\<rparr>"

definition nt_unlock :: "nt_state \<Rightarrow> nt_state" where
  "nt_unlock s = s\<lparr>ns_m := mutex_unlock (ns_m s)\<rparr>"

text \<open>What follows the lock in each of the methods.\<close>

definition nt_locked :: "nt_pc \<Rightarrow> nt_pc option" where
  "nt_locked p = (case p of WEnter \<Rightarrow> Some WTest | WWoken \<Rightarrow> Some WTest | SEnter \<Rightarrow> Some SSet | REnter \<Rightarrow> Some RSet | _ \<Rightarrow> None)"

text \<open>The threads that call \<open>wait\<close> are those of \<open>ws\<close>; any thread may call the other methods.  A wait may also end without a signal.\<close>

inductive nt_step :: "tid set \<Rightarrow> nt_state \<Rightarrow> nt_state \<Rightarrow> bool" for ws where
  call_wait: "ns_pc s t = NOut \<Longrightarrow> t \<in> ws \<Longrightarrow> nt_step ws s (nt_goto t WEnter s)"
| call_notify: "ns_pc s t = NOut \<Longrightarrow> nt_step ws s (nt_goto t SEnter s)"
| call_reset: "ns_pc s t = NOut \<Longrightarrow> nt_step ws s (nt_goto t REnter s)"
| get_lock: "nt_locked (ns_pc s t) = Some p \<Longrightarrow> mutex_lock t (ns_m s) = Some m \<Longrightarrow> nt_step ws s (nt_goto t p (s\<lparr>ns_m := m\<rparr>))"
| test_true: "ns_pc s t = WTest \<Longrightarrow> ns_notified s \<Longrightarrow> nt_step ws s (nt_goto t WLeave s)"
| test_false: "ns_pc s t = WTest \<Longrightarrow> \<not> ns_notified s \<Longrightarrow> cv_wait t (ns_cv s) (ns_m s) = (cv, m) \<Longrightarrow>
    nt_step ws s (nt_goto t WAsleep (s\<lparr>ns_cv := cv, ns_m := m\<rparr>))"
| spurious: "ns_pc s t = WAsleep \<Longrightarrow> nt_step ws s (nt_goto t WWoken (s\<lparr>ns_cv := cv_wake t (ns_cv s)\<rparr>))"
| set_flag: "ns_pc s t = SSet \<Longrightarrow> nt_step ws s (nt_goto t SSignal (s\<lparr>ns_notified := True\<rparr>))"
| signal_one: "ns_pc s t = SSignal \<Longrightarrow> u \<in> cv_asleep (ns_cv s) \<Longrightarrow>
    nt_step ws s (nt_goto t SLeave (nt_goto u WWoken (s\<lparr>ns_cv := cv_wake u (ns_cv s)\<rparr>)))"
| signal_none: "ns_pc s t = SSignal \<Longrightarrow> cv_asleep (ns_cv s) = {} \<Longrightarrow> nt_step ws s (nt_goto t SLeave s)"
| clear_flag: "ns_pc s t = RSet \<Longrightarrow> nt_step ws s (nt_goto t RLeave (s\<lparr>ns_notified := False\<rparr>))"
| leave: "ns_pc s t \<in> {WLeave, SLeave, RLeave} \<Longrightarrow> nt_step ws s (nt_goto t NOut (nt_unlock s))"

text \<open>The places at which a thread holds the mutex, and those inside \<open>wait\<close>.\<close>

definition pc_holds :: "nt_pc \<Rightarrow> bool" where
  "pc_holds p \<longleftrightarrow> p \<in> {WTest, WLeave, SSet, SSignal, SLeave, RSet, RLeave}"

definition pc_waits :: "nt_pc \<Rightarrow> bool" where
  "pc_waits p \<longleftrightarrow> p \<in> {WEnter, WTest, WAsleep, WWoken, WLeave}"

lemma pc_simps [simp]:
  "pc_holds WTest" "pc_holds WLeave" "pc_holds SSet" "pc_holds SSignal" "pc_holds SLeave" "pc_holds RSet" "pc_holds RLeave"
  "\<not> pc_holds NOut" "\<not> pc_holds WEnter" "\<not> pc_holds WAsleep" "\<not> pc_holds WWoken" "\<not> pc_holds SEnter" "\<not> pc_holds REnter"
  "pc_waits WEnter" "pc_waits WTest" "pc_waits WAsleep" "pc_waits WWoken" "pc_waits WLeave"
  "\<not> pc_waits NOut" "\<not> pc_waits SEnter" "\<not> pc_waits SSet" "\<not> pc_waits SSignal" "\<not> pc_waits SLeave"
  "\<not> pc_waits REnter" "\<not> pc_waits RSet" "\<not> pc_waits RLeave"
  by (simp_all add: pc_holds_def pc_waits_def)

definition nt_inv :: "tid set \<Rightarrow> nt_state \<Rightarrow> bool" where
  "nt_inv ws s \<longleftrightarrow> (\<forall>t. pc_holds (ns_pc s t) \<longleftrightarrow> m_owner (ns_m s) = Some t) \<and>
     cv_asleep (ns_cv s) = {t. ns_pc s t = WAsleep} \<and> (\<forall>t. pc_waits (ns_pc s t) \<longrightarrow> t \<in> ws) \<and>
     (\<forall>t. ns_pc s t = WLeave \<or> ns_pc s t = SSignal \<longrightarrow> ns_notified s)"

lemma nt_invD:
  assumes "nt_inv ws s"
  shows "pc_holds (ns_pc s t) \<Longrightarrow> m_owner (ns_m s) = Some t" "\<not> pc_holds (ns_pc s t) \<Longrightarrow> m_owner (ns_m s) \<noteq> Some t"
    "pc_waits (ns_pc s t) \<Longrightarrow> t \<in> ws"
  using assms unfolding nt_inv_def by blast+

text \<open>A step inside or outside the lock, one that takes it and one that gives it back.\<close>

lemma nt_inv_move:
  assumes "nt_inv ws s" "pc_holds p = pc_holds (ns_pc s t)" "pc_waits p \<Longrightarrow> t \<in> ws" "p \<noteq> WAsleep" "ns_pc s t \<noteq> WAsleep"
    and "p = WLeave \<or> p = SSignal \<Longrightarrow> ns_notified s"
  shows "nt_inv ws (nt_goto t p s)"
  using assms by (auto simp: nt_inv_def nt_goto_def)

lemma nt_inv_take:
  assumes "nt_inv ws s" "m_owner (ns_m s) = None" "m_owner m = Some t" "pc_holds p" "pc_waits p \<Longrightarrow> t \<in> ws" "ns_pc s t \<noteq> WAsleep"
    and "p \<noteq> WLeave" "p \<noteq> SSignal"
  shows "nt_inv ws (nt_goto t p (s\<lparr>ns_m := m\<rparr>))"
  using assms by (auto simp: nt_inv_def nt_goto_def)

lemma nt_inv_give:
  assumes "nt_inv ws s" "pc_holds (ns_pc s t)" "\<not> pc_holds p" "pc_waits p \<Longrightarrow> t \<in> ws" "m_owner m = None"
    and "cv_asleep cv = (if p = WAsleep then insert t (cv_asleep (ns_cv s)) else cv_asleep (ns_cv s))"
  shows "nt_inv ws (nt_goto t p (s\<lparr>ns_cv := cv, ns_m := m\<rparr>))"
proof -
  have w: "ns_pc s t \<noteq> WAsleep"
    using assms(2) by auto
  have o: "\<forall>u. u \<noteq> t \<longrightarrow> \<not> pc_holds (ns_pc s u)"
    using nt_invD(1) [OF assms(1,2)] nt_invD(1) [OF assms(1)] by (metis option.inject)
  have "ns_pc s u \<noteq> WLeave \<and> ns_pc s u \<noteq> SSignal" if "u \<noteq> t" for u
    using o that by fastforce
  then show ?thesis
    using assms(1,3-6) w o unfolding nt_inv_def nt_goto_def by (auto split: if_splits)
qed

lemma nt_inv_wake:
  assumes "nt_inv ws s" "ns_pc s u = WAsleep"
  shows "nt_inv ws (nt_goto u WWoken (s\<lparr>ns_cv := cv_wake u (ns_cv s)\<rparr>))"
proof -
  have u: "m_owner (ns_m s) \<noteq> Some u" "u \<in> ws"
    using nt_invD(2,3) [OF assms(1), of u] assms(2) by simp_all
  show ?thesis
    using assms u unfolding nt_inv_def nt_goto_def cv_wake_def by (auto split: if_splits)
qed

lemma nt_inv_flag:
  assumes "nt_inv ws s" "pc_holds (ns_pc s t)" "ns_pc s t \<noteq> WLeave" "ns_pc s t \<noteq> SSignal"
  shows "nt_inv ws (s\<lparr>ns_notified := b\<rparr>)"
proof -
  have "ns_pc s u \<noteq> WLeave \<and> ns_pc s u \<noteq> SSignal" for u
    using nt_invD(1) [OF assms(1), of u] nt_invD(1) [OF assms(1,2)] assms(3,4) by auto
  then show ?thesis
    using assms(1) by (simp add: nt_inv_def)
qed

lemma nt_step_inv:
  assumes "nt_step ws s s'" "nt_inv ws s"
  shows "nt_inv ws s'"
  using assms(1)
proof (cases rule: nt_step.cases)
  case (get_lock t p m)
  then have p: "ns_pc s t \<noteq> WAsleep" "p \<in> {WTest, SSet, RSet}" "p = WTest \<longrightarrow> pc_waits (ns_pc s t)"
    by (auto simp: nt_locked_def split: nt_pc.splits)
  have o: "m_owner (ns_m s) = None" "m_owner m = Some t"
    using get_lock(3) by (auto simp: mutex_lock_def split: if_splits)
  have "pc_holds p" "p \<noteq> WLeave" "p \<noteq> SSignal" "pc_waits p \<Longrightarrow> t \<in> ws"
    using p nt_invD(3) [OF assms(2), of t] by auto
  then show ?thesis
    unfolding get_lock(1) using nt_inv_take [OF assms(2) o _ _ p(1)] by blast
next
  case (test_true t)
  then show ?thesis
    using nt_inv_move [OF assms(2), of WLeave t] nt_invD(3) [OF assms(2), of t] by simp
next
  case (test_false t cv m)
  then show ?thesis
    using nt_inv_give [OF assms(2), of t WAsleep m cv] nt_invD(3) [OF assms(2), of t] by (auto simp: cv_wait_def mutex_unlock_def)
next
  case (spurious t)
  then show ?thesis
    using nt_inv_wake [OF assms(2)] by simp
next
  case (set_flag t)
  then show ?thesis
    using nt_inv_move [OF nt_inv_flag [OF assms(2), of t True], of SSignal t] by simp
next
  case (signal_one t u)
  then have "ns_pc s u = WAsleep" "u \<noteq> t"
    using assms(2) by (auto simp: nt_inv_def)
  then show ?thesis
    unfolding signal_one(1) using nt_inv_move [OF nt_inv_wake [OF assms(2)], of u SLeave t] signal_one(2) by (simp add: nt_goto_def)
next
  case (clear_flag t)
  then show ?thesis
    using nt_inv_move [OF nt_inv_flag [OF assms(2), of t False], of RLeave t] by simp
next
  case (leave t)
  then show ?thesis
    using nt_inv_give [OF assms(2), of t NOut "mutex_unlock (ns_m s)" "ns_cv s"] by (auto simp: nt_unlock_def mutex_unlock_def)
qed (auto intro!: nt_inv_move [OF assms(2)])

lemma nt_reachable_inv: "reachable nt_init (nt_step ws) s \<Longrightarrow> nt_inv ws s"
proof (induction rule: reachable.induct)
  case (start s)
  then show ?case
    by (simp add: nt_init_def nt_inv_def new_mutex_def new_condition_var_def)
next
  case (continue s s')
  then show ?case
    using nt_step_inv by blast
qed

text \<open>With one waiting thread: when it sleeps although the flag is set, another thread is about to signal.\<close>

definition wake_due :: "tid \<Rightarrow> nt_state \<Rightarrow> bool" where
  "wake_due w s \<longleftrightarrow> (ns_notified s \<and> ns_pc s w = WAsleep \<longrightarrow> (\<exists>u. ns_pc s u = SSignal))"

lemma wake_due_move:
  assumes "wake_due w s" "ns_pc s t \<noteq> SSignal" "p \<noteq> WAsleep" "ns_pc s' = (ns_pc s)(t := p)" "ns_notified s' \<longrightarrow> ns_notified s"
  shows "wake_due w s'"
  using assms unfolding wake_due_def by (metis fun_upd_apply)

lemma nt_step_wake_due:
  assumes "nt_step {w} s s'" "nt_inv {w} s" "wake_due w s"
  shows "wake_due w s'"
  using assms(1)
proof (cases rule: nt_step.cases)
  case (get_lock t p m)
  then have "ns_pc s t \<noteq> SSignal" "p \<noteq> WAsleep"
    by (auto simp: nt_locked_def split: nt_pc.splits)
  then show ?thesis
    using wake_due_move [OF assms(3)] get_lock(1) by (simp add: nt_goto_def)
next
  case (signal_one t u)
  have "u = w"
    using signal_one(3) assms(2) nt_invD(3) [OF assms(2), of u] by (simp add: nt_inv_def)
  then show ?thesis
    using signal_one(1,2) by (auto simp: wake_due_def nt_goto_def)
next
  case (signal_none t)
  then have "ns_pc s w \<noteq> WAsleep"
    using assms(2) by (auto simp: nt_inv_def)
  then show ?thesis
    using signal_none(1) by (auto simp: wake_due_def nt_goto_def)
next
  case (leave t)
  then have "ns_pc s t \<noteq> SSignal"
    by auto
  then show ?thesis
    using wake_due_move [OF assms(3), of t NOut] leave(1) by (simp add: nt_goto_def nt_unlock_def)
next
  case (call_wait t)
  then show ?thesis
    using wake_due_move [OF assms(3), of t WEnter] by (simp add: nt_goto_def)
next
  case (call_notify t)
  then show ?thesis
    using wake_due_move [OF assms(3), of t SEnter] by (simp add: nt_goto_def)
next
  case (call_reset t)
  then show ?thesis
    using wake_due_move [OF assms(3), of t REnter] by (simp add: nt_goto_def)
next
  case (test_true t)
  then show ?thesis
    using wake_due_move [OF assms(3), of t WLeave] by (simp add: nt_goto_def)
next
  case (spurious t)
  then show ?thesis
    using wake_due_move [OF assms(3), of t WWoken] by (simp add: nt_goto_def)
next
  case (test_false t cv m)
  then show ?thesis
    by (simp add: wake_due_def nt_goto_def)
next
  case (set_flag t)
  then show ?thesis
    by (auto simp: wake_due_def nt_goto_def)
next
  case (clear_flag t)
  then show ?thesis
    by (simp add: wake_due_def nt_goto_def)
qed

lemma only_waiter_woken:
  assumes "reachable nt_init (nt_step {w}) s"
  shows "wake_due w s"
  using assms
proof (induction rule: reachable.induct)
  case (start s)
  then show ?case
    by (simp add: nt_init_def wake_due_def)
next
  case (continue s s')
  then show ?case
    using nt_step_wake_due [OF _ nt_reachable_inv] by blast
qed

text \<open>
  C31: Whatever the order of the calls of any number of threads, any of which may wait, at most one thread is between lock and
  unlock of a notification, and \<open>wait\<close> returns only while the flag is set.  When \<open>w\<close> is the only thread that ever waits, no
  notification is lost: if it sleeps while the flag is set, a thread in \<open>notify\<close> is about to wake it.  (With two waiting
  threads this fails, since \<open>notify\<close> wakes one.)
\<close>

theorem notification_not_lost:
  assumes "reachable nt_init (nt_step ws) s"
  shows "(pc_holds (ns_pc s t) \<and> pc_holds (ns_pc s u) \<longrightarrow> t = u) \<and> (ns_pc s t = WLeave \<longrightarrow> ns_notified s) \<and>
    (ws = {w} \<and> ns_pc s w = WAsleep \<and> ns_notified s \<longrightarrow> (\<exists>v. ns_pc s v = SSignal))"
proof -
  have i: "nt_inv ws s"
    by (rule nt_reachable_inv [OF assms])
  have "t = u" if "pc_holds (ns_pc s t)" "pc_holds (ns_pc s u)"
    using nt_invD(1) [OF i that(1)] nt_invD(1) [OF i that(2)] by simp
  moreover have "ns_notified s" if "ns_pc s t = WLeave"
    using i that unfolding nt_inv_def by blast
  moreover have "wake_due w s" if "ws = {w}"
    using assms unfolding that by (rule only_waiter_woken)
  ultimately show ?thesis
    unfolding wake_due_def by blast
qed

text \<open>States of concrete runs.\<close>

definition nt_at :: "tid option \<Rightarrow> tid set \<Rightarrow> bool \<Rightarrow> (tid \<Rightarrow> nt_pc) \<Rightarrow> nt_state" where
  "nt_at owner asleep notified pc = \<lparr>ns_m = \<lparr>m_owner = owner\<rparr>, ns_cv = \<lparr>cv_asleep = asleep\<rparr>, ns_notified = notified, ns_pc = pc\<rparr>"

lemma nt_step_eq: "nt_step ws s s1 \<Longrightarrow> s1 = s2 \<Longrightarrow> nt_step ws s s2"
  by simp

lemmas nt_at_defs = nt_at_def nt_goto_def nt_unlock_def mutex_lock_def mutex_unlock_def cv_wait_def cv_wake_def nt_locked_def fun_eq_iff

theorem notification_not_lost_witness:
  "\<exists>s. reachable nt_init (nt_step {0}) s \<and> ns_pc s 0 = WAsleep \<and> ns_notified s \<and> (\<exists>u. ns_pc s u = SSignal)"
proof -
  have s0: "reachable nt_init (nt_step {0}) (nt_at None {} False ((\<lambda>_. NOut)))"
    by (rule reachable.start) (simp add: nt_init_def nt_at_def new_mutex_def new_condition_var_def)
  have s1: "reachable nt_init (nt_step {0}) (nt_at None {} False ((\<lambda>_. NOut)(0 := WEnter)))"
    by (rule reachable.continue [OF s0], rule nt_step_eq [OF nt_step.call_wait [of _ 0]]) (auto simp: nt_at_defs)
  have s2: "reachable nt_init (nt_step {0}) (nt_at (Some 0) {} False ((\<lambda>_. NOut)(0 := WTest)))"
    by (rule reachable.continue [OF s1], rule nt_step_eq [OF nt_step.get_lock [of _ 0]]) (auto simp: nt_at_defs)
  have s3: "reachable nt_init (nt_step {0}) (nt_at None {0} False ((\<lambda>_. NOut)(0 := WAsleep)))"
    by (rule reachable.continue [OF s2], rule nt_step_eq [OF nt_step.test_false [of _ 0]]) (auto simp: nt_at_defs)
  have s4: "reachable nt_init (nt_step {0}) (nt_at None {0} False ((\<lambda>_. NOut)(0 := WAsleep, 2 := SEnter)))"
    by (rule reachable.continue [OF s3], rule nt_step_eq [OF nt_step.call_notify [of _ 2]]) (auto simp: nt_at_defs)
  have s5: "reachable nt_init (nt_step {0}) (nt_at (Some 2) {0} False ((\<lambda>_. NOut)(0 := WAsleep, 2 := SSet)))"
    by (rule reachable.continue [OF s4], rule nt_step_eq [OF nt_step.get_lock [of _ 2]]) (auto simp: nt_at_defs)
  have s6: "reachable nt_init (nt_step {0}) (nt_at (Some 2) {0} True ((\<lambda>_. NOut)(0 := WAsleep, 2 := SSignal)))"
    by (rule reachable.continue [OF s5], rule nt_step_eq [OF nt_step.set_flag [of _ 2]]) (auto simp: nt_at_defs)
  have "ns_pc (nt_at (Some 2) {0} True ((\<lambda>_. NOut)(0 := WAsleep, 2 := SSignal))) 0 = WAsleep" "ns_notified (nt_at (Some 2) {0} True ((\<lambda>_. NOut)(0 := WAsleep, 2 := SSignal)))"
    by (simp_all add: nt_at_def)
  then show ?thesis
    using notification_not_lost [OF s6, of 0 0 0] s6 by blast
qed

text \<open>
  \<open>notify\<close> wakes one thread only: of two that wait, one may sleep on although the flag is set and no thread is in any call that
  would wake it.
\<close>

theorem second_waiter_sleeps:
  "\<exists>s. reachable nt_init (nt_step {0, 1}) s \<and> ns_notified s \<and> ns_pc s 0 = WAsleep \<and> (\<forall>t. t \<noteq> 0 \<longrightarrow> ns_pc s t = NOut)"
proof -
  have s0: "reachable nt_init (nt_step {0, 1}) (nt_at None {} False ((\<lambda>_. NOut)))"
    by (rule reachable.start) (simp add: nt_init_def nt_at_def new_mutex_def new_condition_var_def)
  have s1: "reachable nt_init (nt_step {0, 1}) (nt_at None {} False ((\<lambda>_. NOut)(0 := WEnter)))"
    by (rule reachable.continue [OF s0], rule nt_step_eq [OF nt_step.call_wait [of _ 0]]) (auto simp: nt_at_defs)
  have s2: "reachable nt_init (nt_step {0, 1}) (nt_at (Some 0) {} False ((\<lambda>_. NOut)(0 := WTest)))"
    by (rule reachable.continue [OF s1], rule nt_step_eq [OF nt_step.get_lock [of _ 0]]) (auto simp: nt_at_defs)
  have s3: "reachable nt_init (nt_step {0, 1}) (nt_at None {0} False ((\<lambda>_. NOut)(0 := WAsleep)))"
    by (rule reachable.continue [OF s2], rule nt_step_eq [OF nt_step.test_false [of _ 0]]) (auto simp: nt_at_defs)
  have s4: "reachable nt_init (nt_step {0, 1}) (nt_at None {0} False ((\<lambda>_. NOut)(0 := WAsleep, 1 := WEnter)))"
    by (rule reachable.continue [OF s3], rule nt_step_eq [OF nt_step.call_wait [of _ 1]]) (auto simp: nt_at_defs)
  have s5: "reachable nt_init (nt_step {0, 1}) (nt_at (Some 1) {0} False ((\<lambda>_. NOut)(0 := WAsleep, 1 := WTest)))"
    by (rule reachable.continue [OF s4], rule nt_step_eq [OF nt_step.get_lock [of _ 1]]) (auto simp: nt_at_defs)
  have s6: "reachable nt_init (nt_step {0, 1}) (nt_at None {0, 1} False ((\<lambda>_. NOut)(0 := WAsleep, 1 := WAsleep)))"
    by (rule reachable.continue [OF s5], rule nt_step_eq [OF nt_step.test_false [of _ 1]]) (auto simp: nt_at_defs)
  have s7: "reachable nt_init (nt_step {0, 1}) (nt_at None {0, 1} False ((\<lambda>_. NOut)(0 := WAsleep, 1 := WAsleep, 2 := SEnter)))"
    by (rule reachable.continue [OF s6], rule nt_step_eq [OF nt_step.call_notify [of _ 2]]) (auto simp: nt_at_defs)
  have s8: "reachable nt_init (nt_step {0, 1}) (nt_at (Some 2) {0, 1} False ((\<lambda>_. NOut)(0 := WAsleep, 1 := WAsleep, 2 := SSet)))"
    by (rule reachable.continue [OF s7], rule nt_step_eq [OF nt_step.get_lock [of _ 2]]) (auto simp: nt_at_defs)
  have s9: "reachable nt_init (nt_step {0, 1}) (nt_at (Some 2) {0, 1} True ((\<lambda>_. NOut)(0 := WAsleep, 1 := WAsleep, 2 := SSignal)))"
    by (rule reachable.continue [OF s8], rule nt_step_eq [OF nt_step.set_flag [of _ 2]]) (auto simp: nt_at_defs)
  have s10: "reachable nt_init (nt_step {0, 1}) (nt_at (Some 2) {0} True ((\<lambda>_. NOut)(0 := WAsleep, 1 := WWoken, 2 := SLeave)))"
    by (rule reachable.continue [OF s9], rule nt_step_eq [OF nt_step.signal_one [of _ 2 1]]) (auto simp: nt_at_defs)
  have s11: "reachable nt_init (nt_step {0, 1}) (nt_at None {0} True ((\<lambda>_. NOut)(0 := WAsleep, 1 := WWoken, 2 := NOut)))"
    by (rule reachable.continue [OF s10], rule nt_step_eq [OF nt_step.leave [of _ 2]]) (auto simp: nt_at_defs)
  have s12: "reachable nt_init (nt_step {0, 1}) (nt_at (Some 1) {0} True ((\<lambda>_. NOut)(0 := WAsleep, 1 := WTest, 2 := NOut)))"
    by (rule reachable.continue [OF s11], rule nt_step_eq [OF nt_step.get_lock [of _ 1]]) (auto simp: nt_at_defs)
  have s13: "reachable nt_init (nt_step {0, 1}) (nt_at (Some 1) {0} True ((\<lambda>_. NOut)(0 := WAsleep, 1 := WLeave, 2 := NOut)))"
    by (rule reachable.continue [OF s12], rule nt_step_eq [OF nt_step.test_true [of _ 1]]) (auto simp: nt_at_defs)
  have s14: "reachable nt_init (nt_step {0, 1}) (nt_at None {0} True ((\<lambda>_. NOut)(0 := WAsleep, 1 := NOut, 2 := NOut)))"
    by (rule reachable.continue [OF s13], rule nt_step_eq [OF nt_step.leave [of _ 1]]) (auto simp: nt_at_defs)
  show ?thesis
    using s14 by (intro exI conjI) (auto simp: nt_at_def)
qed

end
