(* ===== verification/System_Calls.thy ===== *)
theory System_Calls
  imports Io_Manager
begin

text \<open>
  Two thin layers over the system: the epoll wrapper (\<open>descriptor_poller_epoll.cpp\<close>) and the time-stamp counter
  (\<open>ticks_clock.cpp\<close>).  What the system answers is an argument or part of the state.
\<close>

section \<open>The epoll wrapper\<close>

text \<open>The descriptor of the epoll object, the set of its entries, and the events of the last poll.\<close>

record poller =
  pl_fd :: int
  pl_interest :: "(int \<times> addr) list"
  pl_events :: "epoll_event list"
  pl_closed :: "int list"      \<comment> \<open>the arguments of \<open>close\<close>\<close>

definition new_poller :: poller where
  "new_poller = \<lparr>pl_fd = - 1, pl_interest = [], pl_events = [], pl_closed = []\<rparr>"

definition poller_create :: "int \<Rightarrow> poller \<Rightarrow> poller result" where
  "poller_create epoll_fd p = (if epoll_fd < 0 then Inl Fatal else Inr (p\<lparr>pl_fd := epoll_fd\<rparr>))"

definition setEvent :: "int \<Rightarrow> int \<Rightarrow> addr \<Rightarrow> poller \<Rightarrow> poller result" where
  "setEvent rc fd descr p = (if rc \<noteq> 0 then Inl Fatal else Inr (p\<lparr>pl_interest := pl_interest p @ [(fd, descr)]\<rparr>))"

text \<open>\<open>waits k\<close> is the \<open>errno\<close> or the events of the \<open>k\<close>-th \<open>epoll_wait\<close>; an interrupted call is repeated.\<close>

partial_function (option) poller_poll :: "(nat \<Rightarrow> int + epoll_event list) \<Rightarrow> nat \<Rightarrow> poller \<Rightarrow> (nat \<times> nat \<times> poller) result option" where
  "poller_poll waits k p =
     (case waits k of
        Inr evs \<Rightarrow> Some (Inr (length evs, k + 1, p\<lparr>pl_events := evs\<rparr>))
      | Inl e \<Rightarrow> (if e = EINTR then poller_poll waits (k + 1) p else Some (Inl Fatal)))"

definition destroy_poller :: "poller \<Rightarrow> poller" where
  "destroy_poller p = (if pl_fd p = - 1 then p\<lparr>pl_closed := pl_closed p @ [pl_fd p]\<rparr> else p)"

text \<open>A poll that is interrupted any number of times gives the events of the first call that is not.\<close>

lemma poll_after_interrupts:
  assumes "\<forall>i<n. waits (k + i) = Inl EINTR" "waits (k + n) = Inr evs"
  shows "poller_poll waits k p = Some (Inr (length evs, k + n + 1, p\<lparr>pl_events := evs\<rparr>))"
  using assms
proof (induction n arbitrary: k)
  case 0
  then show ?case
    by (subst poller_poll.simps) simp
next
  case (Suc n)
  have "waits k = Inl EINTR"
    using Suc.prems(1) by (auto dest: spec [of _ 0])
  moreover have "\<forall>i<n. waits (k + 1 + i) = Inl EINTR" "waits (k + 1 + n) = Inr evs"
    using Suc.prems by (auto simp: add.assoc)
  ultimately show ?case
    using Suc.IH [of "k + 1"] by (subst poller_poll.simps) simp
qed

text \<open>The destructor never closes the descriptor that \<open>create\<close> has opened.\<close>

lemma poller_never_closed: "poller_create fd new_poller = Inr p \<Longrightarrow> pl_closed (destroy_poller p) = []"
  by (auto simp: poller_create_def destroy_poller_def new_poller_def split: if_splits)

section \<open>The ticks clock\<close>

definition getTicks :: "32 word \<Rightarrow> 32 word \<Rightarrow> 64 word" where
  "getTicks hi lo = push_bit 32 (ucast hi) OR ucast lo"

text \<open>
  The result of \<open>pthread_once\<close> on \<open>moduleInit\<close>, with the counter before and after the sleep of half a second.  The rate is kept as
  the number the code converts to a \<open>double\<close>, which is exact below \<open>2 ^ 53\<close>.
\<close>

record ticks_module =
  tk_once :: bool
  tk_per_second :: "64 word"

definition moduleInit :: "64 word \<Rightarrow> 64 word \<Rightarrow> ticks_module \<Rightarrow> ticks_module" where
  "moduleInit before after tk = tk\<lparr>tk_per_second := (after - before) * 2\<rparr>"

definition ticksPerSecond :: "64 word \<Rightarrow> 64 word \<Rightarrow> ticks_module \<Rightarrow> 64 word \<times> ticks_module" where
  "ticksPerSecond before after tk =
     (let tk = (if tk_once tk then tk else (moduleInit before after tk)\<lparr>tk_once := True\<rparr>)
      in (tk_per_second tk, tk))"

lemma getTicks_value: "unat (getTicks hi lo) = unat hi * 2 ^ 32 + unat lo"
proof -
  have h: "unat (ucast hi :: 64 word) = unat hi" "unat (ucast lo :: 64 word) = unat lo" "unat hi < 2 ^ 32" "unat lo < 2 ^ 32"
    using unsigned_less [of hi, where 'a = nat] unsigned_less [of lo, where 'a = nat]
    by (simp_all add: unsigned_ucast_eq take_bit_eq_mod)
  have "push_bit 32 (ucast hi :: 64 word) AND ucast lo = 0"
    by (rule bit_word_eqI) (auto simp: bit_simps dest: bit_imp_le_length)
  then have "getTicks hi lo = push_bit 32 (ucast hi) + ucast lo"
    by (simp add: getTicks_def disjunctive_add_eq_or)
  also have "unat \<dots> = unat hi * 2 ^ 32 + unat lo"
    using h by (simp add: push_bit_eq_mult unat_word_ariths)
  finally show ?thesis .
qed

text \<open>
  The rate is measured once, and is twice the ticks of the sleep also when the counter wraps around in between.
\<close>

lemma ticks_measured_once:
  assumes "ticksPerSecond b a tk = (r, tk')"
  shows "ticksPerSecond b' a' tk' = (r, tk')"
  using assms by (auto simp: ticksPerSecond_def moduleInit_def Let_def split: if_splits)

lemma ticks_rate:
  assumes "\<not> tk_once tk" "n < 2 ^ 63"
  shows "unat (fst (ticksPerSecond b (b + of_nat n) tk)) = 2 * n"
  using assms by (simp add: ticksPerSecond_def moduleInit_def unat_word_ariths unat_of_nat)

end
