(* ===== verification/Support.thy ===== *)
theory Support
  imports Complex_Main Prelude
begin

text \<open>
  Small parts that the others use: the registry of threads (\<open>thread_registry.cpp\<close>, \<open>thread.cpp\<close>), the timer (\<open>timer.hpp\<close>), the log
  (\<open>log_message.cpp\<close>, \<open>log_writer.cpp\<close>) and the stream that reads a file descriptor (\<open>ifdstream.hpp\<close>).
\<close>

section \<open>Threads\<close>

type_synonym registry = "nat set"

definition registerThread :: "nat \<Rightarrow> registry \<Rightarrow> bool \<times> registry" where
  "registerThread tid ids = (tid \<notin> ids, insert tid ids)"

definition unregisterThread :: "nat \<Rightarrow> registry \<Rightarrow> bool \<times> registry" where
  "unregisterThread tid ids = (tid \<in> ids, ids - {tid})"

definition getAllThreadIDs :: "registry \<Rightarrow> nat set \<Rightarrow> nat set" where
  "getAllThreadIDs ids tids = (let tids = {} in tids \<union> ids)"

text \<open>The body of a thread is a function on the registry, which other threads change while it runs, and on the rest of the state.\<close>

definition threadFunction :: "(registry \<times> 's \<Rightarrow> (registry \<times> 's) result) \<Rightarrow> nat \<Rightarrow> registry \<times> 's \<Rightarrow> (registry \<times> 's) result" where
  "threadFunction body tid = (\<lambda>(ids, s).
     rbind (body (snd (registerThread tid ids), s)) (\<lambda>(ids, s). Inr (snd (unregisterThread tid ids), s)))"

text \<open>\<open>makeThread\<close> gives the identifier of the new thread; without one the process ends.\<close>

definition makeThread :: "nat option \<Rightarrow> nat result" where
  "makeThread created = (case created of None \<Rightarrow> Inl Fatal | Some tid \<Rightarrow> Inr tid)"

lemma thread_is_registered:
  assumes "threadFunction body tid (ids, s) = Inr (ids', s')" "tid \<notin> ids"
    and "\<And>r t r' t'. body (r, t) = Inr (r', t') \<Longrightarrow> tid \<in> r \<Longrightarrow> r' = r"
  shows "ids' = ids"
  using assms
  by (auto simp: threadFunction_def registerThread_def unregisterThread_def rbind_Inr_iff)

section \<open>The timer\<close>

record timeval =
  tv_sec :: int
  tv_usec :: int

record timer =
  tm_start :: timeval
  tm_end :: timeval

definition timer_reset :: "timer \<Rightarrow> timer" where
  "timer_reset t = t\<lparr>tm_start := \<lparr>tv_sec = 0, tv_usec = 0\<rparr>, tm_end := \<lparr>tv_sec = 0, tv_usec = 0\<rparr>\<rparr>"

definition new_timer :: timer where
  "new_timer = timer_reset \<lparr>tm_start = \<lparr>tv_sec = 0, tv_usec = 0\<rparr>, tm_end = \<lparr>tv_sec = 0, tv_usec = 0\<rparr>\<rparr>"

definition timer_start :: "timeval \<Rightarrow> timer \<Rightarrow> timer" where
  "timer_start now t = t\<lparr>tm_start := now\<rparr>"

definition timer_end :: "timeval \<Rightarrow> timer \<Rightarrow> timer" where
  "timer_end now t = t\<lparr>tm_end := now\<rparr>"

text \<open>The computation on doubles, without their rounding.\<close>

definition elapsed :: "timer \<Rightarrow> real" where
  "elapsed t =
     (if tv_usec (tm_end t) < tv_usec (tm_start t)
      then real_of_int (tv_sec (tm_end t) - 1 - tv_sec (tm_start t)) +
           real_of_int (tv_usec (tm_end t) + 1000000 - tv_usec (tm_start t)) / 1000000
      else real_of_int (tv_sec (tm_end t) - tv_sec (tm_start t)) +
           real_of_int (tv_usec (tm_end t) - tv_usec (tm_start t)) / 1000000)"

definition micros :: "timeval \<Rightarrow> int" where
  "micros tv = tv_sec tv * 1000000 + tv_usec tv"

lemma elapsed_exact: "elapsed (timer_end e (timer_start b t)) = real_of_int (micros e - micros b) / 1000000"
  by (simp add: elapsed_def timer_end_def timer_start_def micros_def field_simps)

section \<open>The log\<close>

datatype severity = NORMAL | WARNING | ERROR | FATAL

text \<open>The contents of the log file, if there is one, and the two flags for fatal messages.\<close>

record log_state =
  lg_file :: "string option"
  lg_exit_on_fatal :: bool
  lg_has_fatal_message :: bool

definition label :: "severity \<Rightarrow> char" where
  "label s = (case s of NORMAL \<Rightarrow> CHR '' '' | WARNING \<Rightarrow> CHR ''W'' | ERROR \<Rightarrow> CHR ''E'' | FATAL \<Rightarrow> CHR ''F'')"

text \<open>The prefix of a message; \<open>line\<close> is the text of the line number.\<close>

definition log_prefix :: "string \<Rightarrow> string \<Rightarrow> severity \<Rightarrow> string" where
  "log_prefix file_name line s = [label s] @ '' '' @ file_name @ '':'' @ line @ '' ''"

text \<open>\<open>created\<close> tells whether \<open>fopen\<close> succeeds.\<close>

definition createFile :: "bool \<Rightarrow> log_state \<Rightarrow> bool \<times> log_state" where
  "createFile created lg = (if created then (True, lg\<lparr>lg_file := Some []\<rparr>) else (False, lg\<lparr>lg_file := None\<rparr>))"

definition log_write :: "bool \<Rightarrow> string \<Rightarrow> log_state \<Rightarrow> log_state" where
  "log_write created msg lg =
     (let (ok, lg) = (if lg_file lg = None then createFile created lg else (True, lg))
      in if ok then lg\<lparr>lg_file := map_option (\<lambda>s. s @ msg) (lg_file lg)\<rparr> else lg)"

definition log_flush :: "bool \<Rightarrow> string \<Rightarrow> log_state \<Rightarrow> log_state" where
  "log_flush created msg_stream lg = log_write created (msg_stream @ [CHR 0x0A]) lg"

text \<open>The destructor of a message.\<close>

definition end_message :: "bool \<Rightarrow> severity \<Rightarrow> string \<Rightarrow> log_state \<Rightarrow> log_state result" where
  "end_message created s msg_stream lg =
     (let lg = log_flush created msg_stream lg
      in if s = FATAL
         then if lg_exit_on_fatal lg then Inl Fatal else Inr (lg\<lparr>lg_has_fatal_message := True\<rparr>)
         else Inr lg)"

lemma log_keeps_messages:
  assumes "lg_file lg = Some old" "s \<noteq> FATAL"
  shows "\<exists>lg'. end_message created s msg lg = Inr lg' \<and> lg_file lg' = Some (old @ msg @ [CHR 0x0A])"
  using assms by (simp add: end_message_def log_flush_def log_write_def)

section \<open>Reading a descriptor as a stream\<close>

abbreviation pbSize :: nat where
  "pbSize \<equiv> 4"

abbreviation bufSize :: nat where
  "bufSize \<equiv> 1024"

text \<open>
  The array with the positions of \<open>eback()\<close>, \<open>gptr()\<close> and \<open>egptr()\<close>; \<open>fb_reads\<close> are the bytes the coming calls of \<open>read\<close> give,
  and when there are none left it returns 0.
\<close>

record fdinbuf =
  fb_buffer :: "char list"
  fb_eback :: nat
  fb_gptr :: nat
  fb_egptr :: nat
  fb_reads :: "char list list"

definition new_fdinbuf :: "char list \<Rightarrow> char list list \<Rightarrow> fdinbuf" where
  "new_fdinbuf raw reads = \<lparr>fb_buffer = raw, fb_eback = pbSize, fb_gptr = pbSize, fb_egptr = pbSize, fb_reads = reads\<rparr>"

definition put_at :: "nat \<Rightarrow> char list \<Rightarrow> char list \<Rightarrow> char list" where
  "put_at i data buf = take i buf @ data @ drop (i + length data) buf"

definition underflow :: "fdinbuf \<Rightarrow> char option \<times> fdinbuf" where
  "underflow fb =
     (if fb_gptr fb < fb_egptr fb then (Some (fb_buffer fb ! fb_gptr fb), fb)
      else
        let numPutback = min pbSize (fb_gptr fb - fb_eback fb);
            fb = fb\<lparr>fb_buffer := put_at (pbSize - numPutback) (take numPutback (drop (fb_gptr fb - numPutback) (fb_buffer fb))) (fb_buffer fb)\<rparr>
        in case fb_reads fb of
             [] \<Rightarrow> (None, fb)
           | data # rest \<Rightarrow>
               (let fb = fb\<lparr>fb_buffer := put_at pbSize data (fb_buffer fb), fb_reads := rest\<rparr>
                in if data = [] then (None, fb)
                   else
                     let fb = fb\<lparr>fb_eback := pbSize - numPutback, fb_gptr := pbSize, fb_egptr := pbSize + length data\<rparr>
                     in (Some (fb_buffer fb ! fb_gptr fb), fb)))"

text \<open>\<open>sbumpc\<close> of the standard library: the next character, and one step forward.\<close>

definition sbumpc :: "fdinbuf \<Rightarrow> char option \<times> fdinbuf" where
  "sbumpc fb =
     (case underflow fb of
        (None, fb) \<Rightarrow> (None, fb)
      | (Some c, fb) \<Rightarrow> (Some c, fb\<lparr>fb_gptr := fb_gptr fb + 1\<rparr>))"

primrec read_chars :: "nat \<Rightarrow> fdinbuf \<Rightarrow> char list \<times> fdinbuf" where
  "read_chars 0 fb = ([], fb)"
| "read_chars (Suc n) fb =
     (case sbumpc fb of
        (None, fb) \<Rightarrow> ([], fb)
      | (Some c, fb) \<Rightarrow> (let (cs, fb) = read_chars n fb in (c # cs, fb)))"

text \<open>What is still to be read.\<close>

definition fb_rest :: "fdinbuf \<Rightarrow> char list" where
  "fb_rest fb = take (fb_egptr fb - fb_gptr fb) (drop (fb_gptr fb) (fb_buffer fb)) @ concat (fb_reads fb)"

definition fb_ok :: "fdinbuf \<Rightarrow> bool" where
  "fb_ok fb \<longleftrightarrow> length (fb_buffer fb) = bufSize + pbSize \<and> fb_eback fb \<le> pbSize \<and> fb_eback fb \<le> fb_gptr fb \<and> pbSize \<le> fb_gptr fb \<and>
     fb_gptr fb \<le> fb_egptr fb \<and> fb_egptr fb \<le> bufSize + pbSize \<and> (\<forall>d \<in> set (fb_reads fb). d \<noteq> [] \<and> length d \<le> bufSize)"

lemma put_at_facts:
  assumes "i + length d \<le> length buf"
  shows "length (put_at i d buf) = length buf" "take (length d) (drop i (put_at i d buf)) = d"
    "\<And>j n. i + length d \<le> j \<Longrightarrow> drop j (put_at i d buf) = drop j buf"
    "\<And>j. j \<le> i \<Longrightarrow> take j (put_at i d buf) = take j buf"
  using assms by (auto simp: put_at_def)

text \<open>Filling the array moves the last characters in front of the new ones.\<close>

lemma sbumpc_next:
  assumes "fb_ok fb"
  shows "case sbumpc fb of
      (None, fb') \<Rightarrow> fb_rest fb = [] \<and> fb_rest fb' = [] \<and> fb_ok fb'
    | (Some c, fb') \<Rightarrow> fb_rest fb = c # fb_rest fb' \<and> fb_ok fb'"
proof (cases "fb_gptr fb < fb_egptr fb")
  case True
  then have "fb_gptr fb < length (fb_buffer fb)"
    using assms by (simp add: fb_ok_def)
  then have "take (fb_egptr fb - fb_gptr fb) (drop (fb_gptr fb) (fb_buffer fb)) =
      fb_buffer fb ! fb_gptr fb # take (fb_egptr fb - Suc (fb_gptr fb)) (drop (Suc (fb_gptr fb)) (fb_buffer fb))"
    using True by (simp add: Cons_nth_drop_Suc [symmetric] take_Cons' Suc_diff_Suc)
  then show ?thesis
    using True assms by (simp add: sbumpc_def underflow_def fb_rest_def fb_ok_def)
next
  case False
  define k where "k = min pbSize (fb_gptr fb - fb_eback fb)"
  define buf where "buf = put_at (pbSize - k) (take k (drop (fb_gptr fb - k) (fb_buffer fb))) (fb_buffer fb)"
  have k: "k \<le> pbSize" "fb_egptr fb - fb_gptr fb = 0"
    using False by (simp_all add: k_def)
  have "pbSize - k + length (take k (drop (fb_gptr fb - k) (fb_buffer fb))) \<le> length (fb_buffer fb)"
    using assms k(1) by (simp add: fb_ok_def)
  note buf = put_at_facts(1) [OF this, folded buf_def]
  show ?thesis
  proof (cases "fb_reads fb")
    case Nil
    then show ?thesis
      using False assms k buf by (simp add: sbumpc_def underflow_def fb_rest_def fb_ok_def Let_def buf_def k_def)
  next
    case (Cons d ds)
    have d: "d \<noteq> []" "length d \<le> bufSize"
      using assms Cons by (simp_all add: fb_ok_def)
    define buf2 where "buf2 = put_at pbSize d buf"
    have l: "length buf = bufSize + pbSize"
      using buf assms by (simp add: fb_ok_def)
    then have b2: "length buf2 = bufSize + pbSize" "take (length d) (drop pbSize buf2) = d"
      using put_at_facts(1,2) [of pbSize d buf] d(2) by (simp_all add: buf2_def)
    then have "buf2 ! pbSize # take (length d - 1) (drop (Suc pbSize) buf2) = d"
      using d(1) by (cases d) (simp_all add: Cons_nth_drop_Suc [symmetric])
    moreover have "sbumpc fb = (Some (buf2 ! pbSize), \<lparr>fb_buffer = buf2, fb_eback = pbSize - k, fb_gptr = pbSize + 1,
        fb_egptr = pbSize + length d, fb_reads = ds\<rparr>)"
      using False Cons d(1) by (cases fb) (simp add: sbumpc_def underflow_def Let_def buf2_def buf_def k_def)
    moreover have "0 < length d"
      using d(1) by simp
    ultimately show ?thesis
      using Cons k b2(1) d assms by (auto simp: fb_rest_def fb_ok_def Suc_le_eq)
  qed
qed

lemma stream_reads_all:
  assumes "fb_ok fb"
  shows "fst (read_chars n fb) = take n (fb_rest fb)"
  using assms
proof (induction n arbitrary: fb)
  case (Suc n)
  obtain r fb' where s: "sbumpc fb = (r, fb')"
    by (cases "sbumpc fb")
  then show ?case
    using sbumpc_next [OF Suc.prems] Suc.IH [of fb'] by (cases r) (simp_all add: case_prod_beta)
qed simp

end
