(* ===== verification/Processes.thy ===== *)
theory Processes
  imports Http_Connection Support
begin

text \<open>
  Child processes (\<open>child_process.cpp\<close>) over a table of open descriptors, and the signal handler (\<open>signal_handler.cpp\<close>) over the
  bytes on the standard error, the semaphore between the threads and the disposition of the signals.  What the system calls answer
  is an argument.
\<close>

section \<open>Child processes\<close>

text \<open>What a descriptor stands for: an end of a pipe, or another file.\<close>

datatype open_file = Read_End nat | Write_End nat | Other_File nat

type_synonym fd_table = "int \<rightharpoonup> open_file"

abbreviation STDERR_FILENO :: int where
  "STDERR_FILENO \<equiv> 2"

definition fd_close :: "int \<Rightarrow> fd_table \<Rightarrow> fd_table" where
  "fd_close fd fds = fds(fd := None)"

definition dup2 :: "int \<Rightarrow> int \<Rightarrow> fd_table \<Rightarrow> fd_table" where
  "dup2 old new fds = (if fds old = None then fds else fds(new := fds old))"

record child_process =
  cp_child_pid :: int
  cp_pfd :: "int \<times> int"

text \<open>The array of the pipe is not initialised: \<open>garbage\<close> is what it holds.\<close>

definition new_child_process :: "int \<times> int \<Rightarrow> child_process" where
  "new_child_process garbage = \<lparr>cp_child_pid = - 1, cp_pfd = garbage\<rparr>"

text \<open>
  \<open>start\<close> as one of the two processes sees it: \<open>fork_res\<close> is 0 in the child.  \<open>pipe_res\<close> are the two descriptors of the new pipe,
  whose number is \<open>q\<close>; \<open>cb\<close> is the callback of the child.
\<close>

definition cp_start ::
    "(int \<times> int) option \<Rightarrow> nat \<Rightarrow> int \<Rightarrow> (fd_table \<Rightarrow> fd_table result) \<Rightarrow> child_process \<Rightarrow> fd_table \<Rightarrow>
     (bool \<times> child_process \<times> fd_table) result" where
  "cp_start pipe_res q fork_res cb cp fds =
     (case pipe_res of
        None \<Rightarrow> Inr (False, cp, fds)
      | Some (r, w) \<Rightarrow>
          let cp = cp\<lparr>cp_pfd := (r, w)\<rparr>;
              fds = fds(r \<mapsto> Read_End q, w \<mapsto> Write_End q);
              cp = cp\<lparr>cp_child_pid := fork_res\<rparr>
          in if fork_res = - 1 then Inr (False, cp, fds)
             else if fork_res = 0 then
               let fds = fd_close (fst (cp_pfd cp)) fds;
                   fds = dup2 (snd (cp_pfd cp)) STDERR_FILENO fds;
                   fds = fd_close (snd (cp_pfd cp)) fds
               in rbind (cb fds) (\<lambda>fds. Inr (True, cp, fds))
             else Inr (True, cp, fd_close (snd (cp_pfd cp)) fds))"

text \<open>\<open>waits\<close> is \<open>waitpid\<close> with the option \<open>WUNTRACED\<close>.\<close>

definition cp_wait :: "(int \<Rightarrow> int) \<Rightarrow> child_process \<Rightarrow> int" where
  "cp_wait waits cp = waits (cp_child_pid cp)"

definition getStderrFD :: "child_process \<Rightarrow> int" where
  "getStderrFD cp = fst (cp_pfd cp)"

text \<open>\<open>pipe\<close> gives two descriptors that were not open.\<close>

definition fresh_pipe :: "int \<Rightarrow> int \<Rightarrow> fd_table \<Rightarrow> bool" where
  "fresh_pipe r w fds \<longleftrightarrow> fds r = None \<and> fds w = None \<and> r \<noteq> w"

text \<open>
  The child runs its callback with the descriptors of the parent, except that its standard error is the writing end of the pipe,
  which it holds only there.
\<close>

lemma child_stderr_is_pipe:
  assumes "fresh_pipe r w fds" "w \<noteq> STDERR_FILENO"
  shows "cp_start (Some (r, w)) q 0 cb cp fds =
    rbind (cb (fds(STDERR_FILENO \<mapsto> Write_End q))) (\<lambda>fds. Inr (True, cp\<lparr>cp_pfd := (r, w), cp_child_pid := 0\<rparr>, fds))"
proof -
  have "(fds(r \<mapsto> Read_End q, w \<mapsto> Write_End q, r := None, STDERR_FILENO \<mapsto> Write_End q))(w := None) = fds(STDERR_FILENO \<mapsto> Write_End q)"
    using assms by (auto simp: fresh_pipe_def fun_eq_iff)
  then show ?thesis
    using assms by (simp add: cp_start_def fd_close_def dup2_def fresh_pipe_def)
qed

text \<open>The parent keeps only the reading end, the one \<open>getStderrFD\<close> names.\<close>

lemma parent_reads_pipe:
  assumes "fresh_pipe r w fds" "0 < pid"
  shows "\<exists>cp'. cp_start (Some (r, w)) q pid cb cp fds = Inr (True, cp', fds(r \<mapsto> Read_End q)) \<and> getStderrFD cp' = r \<and>
    cp_wait waits cp' = waits pid"
proof -
  have "(fds(r \<mapsto> Read_End q, w \<mapsto> Write_End q))(w := None) = fds(r \<mapsto> Read_End q)"
    using assms(1) by (auto simp: fresh_pipe_def fun_eq_iff)
  then show ?thesis
    using assms(2) by (simp add: cp_start_def fd_close_def getStderrFD_def cp_wait_def)
qed

text \<open>A \<open>fork\<close> that fails leaves both ends of the pipe open; a child whose standard error was closed loses it again.\<close>

lemma failed_fork_leaks_pipe:
  assumes "fresh_pipe r w fds"
  shows "\<exists>cp' fds'. cp_start (Some (r, w)) q (- 1) cb cp fds = Inr (False, cp', fds') \<and> dom fds' = dom fds \<union> {r, w}"
  using assms by (auto simp: cp_start_def fresh_pipe_def)

lemma closed_stderr_stays_closed:
  assumes "fresh_pipe r STDERR_FILENO fds"
  shows "cp_start (Some (r, STDERR_FILENO)) q 0 cb cp fds =
    rbind (cb fds) (\<lambda>fds. Inr (True, cp\<lparr>cp_pfd := (r, STDERR_FILENO), cp_child_pid := 0\<rparr>, fds))"
proof -
  have "(fds(r \<mapsto> Read_End q, STDERR_FILENO \<mapsto> Write_End q, r := None, STDERR_FILENO \<mapsto> Write_End q))(STDERR_FILENO := None) = fds"
    using assms by (auto simp: fresh_pipe_def fun_eq_iff)
  then show ?thesis
    using assms by (simp add: cp_start_def fd_close_def dup2_def fresh_pipe_def)
qed

section \<open>The signal handler\<close>

datatype sig_handler = SIG_DFL | FatalSignalHandler | DumpStackHandler

text \<open>
  The flag, the value of the semaphore while it is open and whether its name exists, the bytes on the standard error, \<open>errno\<close>, the
  number of \<open>write\<close> calls, the handlers, and the signals raised so far.
\<close>

record sig_state =
  sg_in_progress :: bool
  sg_sem :: "nat option"
  sg_named :: bool
  sg_err :: string
  sg_errno :: int
  sg_writes :: nat
  sg_handlers :: "nat \<Rightarrow> sig_handler"
  sg_raised :: "nat list"

abbreviation SIGSEGV :: nat where
  "SIGSEGV \<equiv> 11"

abbreviation SIGUSR1 :: nat where
  "SIGUSR1 \<equiv> 10"

abbreviation NUL :: char where
  "NUL \<equiv> CHR 0x00"

text \<open>\<open>writes k n\<close> is the \<open>errno\<close> of the \<open>k\<close>-th \<open>write\<close>, of \<open>n\<close> bytes, or the number of bytes it wrote.\<close>

type_synonym err_writes = "nat \<Rightarrow> nat \<Rightarrow> int + nat"

partial_function (option) rawWrite :: "err_writes \<Rightarrow> string \<Rightarrow> nat \<Rightarrow> sig_state \<Rightarrow> sig_state option" where
  "rawWrite writes msg len s =
     (let res = writes (sg_writes s) len;
          s = s\<lparr>sg_writes := sg_writes s + 1\<rparr>
      in case res of
           Inl e \<Rightarrow> (let s = s\<lparr>sg_errno := e\<rparr> in if sg_errno s = EINTR then rawWrite writes msg len s else Some s)
         | Inr n \<Rightarrow>
             (let s = s\<lparr>sg_err := sg_err s @ take n (take len msg)\<rparr>
              in if n = 0 \<and> sg_errno s = EINTR then rawWrite writes msg len s else Some s))"

text \<open>A string literal with the zero byte behind it.\<close>

definition start_mark :: string where
  "start_mark = ''==== start backtrace ====\<newline>'' @ [NUL]"

definition no_trace_mark :: string where
  "no_trace_mark = ''Could not get stack trace\<newline>'' @ [NUL]"

definition end_mark :: string where
  "end_mark = ''==== end backtrace ====\<newline>'' @ [NUL]"

text \<open>\<open>frames\<close> is the result of \<open>backtrace\<close>, as the lines that \<open>backtrace_symbols_fd\<close> writes for them.\<close>

definition printStackTrace :: "err_writes \<Rightarrow> string list \<Rightarrow> sig_state \<Rightarrow> sig_state option" where
  "printStackTrace writes frames s =
     Option.bind (rawWrite writes start_mark 27 s) (\<lambda>s.
     Option.bind (if length frames > 1 then Some (s\<lparr>sg_err := sg_err s @ concat (drop 2 frames)\<rparr>)
                  else rawWrite writes no_trace_mark 27 s) (\<lambda>s.
     rawWrite writes end_mark 25 s))"

definition dumpStackHandler :: "err_writes \<Rightarrow> string list \<Rightarrow> sig_state \<Rightarrow> sig_state option" where
  "dumpStackHandler writes frames s =
     Option.bind (printStackTrace writes frames s) (\<lambda>s. Some (s\<lparr>sg_sem := map_option Suc (sg_sem s)\<rparr>))"

text \<open>\<open>sem_wait\<close>, without interruptions, does not return while the value is 0.\<close>

definition sem_wait :: "sig_state \<Rightarrow> sig_state option" where
  "sem_wait s = (case sg_sem s of Some (Suc n) \<Rightarrow> Some (s\<lparr>sg_sem := Some n\<rparr>) | _ \<Rightarrow> None)"

text \<open>
  The loop over the other threads: a thread that runs, with its frames in \<open>stacks\<close>, handles its signal before the wait returns;
  one that has ended does not.
\<close>

primrec dump_others :: "err_writes \<Rightarrow> (nat \<rightharpoonup> string list) \<Rightarrow> nat \<Rightarrow> nat list \<Rightarrow> sig_state \<Rightarrow> sig_state option" where
  "dump_others writes stacks my_tid [] s = Some s"
| "dump_others writes stacks my_tid (t # tids) s =
     Option.bind
       (if t \<noteq> my_tid
        then Option.bind (case stacks t of None \<Rightarrow> Some s | Some frames \<Rightarrow> dumpStackHandler writes frames s) sem_wait
        else Some s)
       (dump_others writes stacks my_tid tids)"

text \<open>\<open>order\<close> lists the copy of the registry's set as its iterator does; a raised signal stays pending while its handler runs.\<close>

definition fatalSignalHandler ::
    "err_writes \<Rightarrow> (nat \<rightharpoonup> string list) \<Rightarrow> string list \<Rightarrow> nat \<Rightarrow> (nat set \<Rightarrow> nat list) \<Rightarrow> registry \<Rightarrow> nat \<Rightarrow> sig_state \<Rightarrow> sig_state option" where
  "fatalSignalHandler writes stacks my_frames my_tid order ids sig s =
     (let s = (if sg_in_progress s then s\<lparr>sg_raised := sg_raised s @ [sig]\<rparr> else s);
          s = s\<lparr>sg_in_progress := True\<rparr>;
          entry = ''Got signal '' @ dec sig @ [LF]
      in Option.bind (rawWrite writes (take 255 entry @ [NUL]) (length entry) s) (\<lambda>s.
         Option.bind (printStackTrace writes my_frames s) (\<lambda>s.
         Option.bind (dump_others writes stacks my_tid (order (getAllThreadIDs ids {})) s) (\<lambda>s.
           let s = s\<lparr>sg_sem := None\<rparr>;
               s = s\<lparr>sg_named := False\<rparr>;
               s = s\<lparr>sg_handlers := (sg_handlers s)(sig := SIG_DFL)\<rparr>
           in Some (s\<lparr>sg_raised := sg_raised s @ [sig]\<rparr>)))))"

definition installSignalHandler :: "bool \<Rightarrow> bool \<Rightarrow> bool \<Rightarrow> sig_state \<Rightarrow> sig_state result" where
  "installSignalHandler sem_opened segv_set usr1_set s =
     (let s = s\<lparr>sg_named := False\<rparr> in
      if \<not> sem_opened then Inl Fatal
      else
        let s = s\<lparr>sg_sem := Some 0, sg_named := True\<rparr> in
        if \<not> segv_set then Inl Fatal
        else
          let s = s\<lparr>sg_handlers := (sg_handlers s)(SIGSEGV := FatalSignalHandler)\<rparr> in
          if \<not> usr1_set then Inl Fatal
          else Inr (s\<lparr>sg_handlers := (sg_handlers s)(SIGUSR1 := DumpStackHandler)\<rparr>))"

subsection \<open>What the handler prints\<close>

text \<open>Every write is at last not interrupted, and then complete.\<close>

definition writes_ok :: "err_writes \<Rightarrow> bool" where
  "writes_ok writes \<longleftrightarrow>
     (\<forall>k. \<exists>j. (\<forall>i<j. \<forall>n. writes (k + i) n = Inl EINTR) \<and> (\<forall>n. writes (k + j) n = Inr n))"

text \<open>The text of one stack trace, and the state after writing some text.\<close>

definition trace_text :: "string list \<Rightarrow> string" where
  "trace_text frames = start_mark @ (if length frames > 1 then concat (drop 2 frames) else no_trace_mark) @ end_mark"

definition printed :: "string \<Rightarrow> sig_state \<Rightarrow> sig_state \<Rightarrow> bool" where
  "printed txt s s' \<longleftrightarrow> s' = s\<lparr>sg_err := sg_err s @ txt, sg_errno := sg_errno s', sg_writes := sg_writes s'\<rparr>"

lemma printed_trans: "printed a s s1 \<Longrightarrow> printed b s1 s2 \<Longrightarrow> printed (a @ b) s s2"
  unfolding printed_def by (cases s; cases s1; cases s2) simp

lemma printed_fields:
  assumes "printed a s s'"
  shows "sg_err s' = sg_err s @ a" "sg_sem s' = sg_sem s" "sg_named s' = sg_named s" "sg_handlers s' = sg_handlers s"
    "sg_raised s' = sg_raised s"
  using assms unfolding printed_def by (cases s; cases s'; simp)+

lemma rawWrite_writes:
  assumes "(\<forall>i<j. \<forall>n. writes (sg_writes s + i) n = Inl EINTR)" "\<forall>n. writes (sg_writes s + j) n = Inr n"
    and "0 < len" "len \<le> length msg"
  shows "\<exists>s'. rawWrite writes msg len s = Some s' \<and> printed (take len msg) s s'"
  using assms
proof (induction j arbitrary: s)
  case 0
  then show ?case
    by (subst rawWrite.simps) (cases s; auto simp: printed_def min_def)
next
  case (Suc j)
  define s1 where "s1 = s\<lparr>sg_writes := sg_writes s + 1, sg_errno := EINTR\<rparr>"
  have "writes (sg_writes s) len = Inl EINTR"
    using Suc.prems(1) by (auto dest: spec [of _ 0])
  then have "rawWrite writes msg len s = rawWrite writes msg len s1"
    by (subst rawWrite.simps) (simp add: s1_def)
  moreover have "\<exists>s'. rawWrite writes msg len s1 = Some s' \<and> printed (take len msg) s1 s'"
    using Suc.prems by (intro Suc.IH) (auto simp: s1_def)
  ultimately show ?case
    by (auto simp: printed_def s1_def)
qed

lemma rawWrite_ok:
  assumes "writes_ok writes" "0 < len" "len \<le> length msg"
  shows "\<exists>s'. rawWrite writes msg len s = Some s' \<and> printed (take len msg) s s'"
  using assms rawWrite_writes [of _ writes s len msg] unfolding writes_ok_def by blast

lemma printStackTrace_ok:
  assumes "writes_ok writes"
  shows "\<exists>s'. printStackTrace writes frames s = Some s' \<and> printed (trace_text frames) s s'"
proof -
  obtain s1 where 1: "rawWrite writes start_mark 27 s = Some s1" "printed start_mark s s1"
    using rawWrite_ok [OF assms, of 27 start_mark s] by (auto simp: start_mark_def)
  obtain s2 where 2: "(if length frames > 1 then Some (s1\<lparr>sg_err := sg_err s1 @ concat (drop 2 frames)\<rparr>)
        else rawWrite writes no_trace_mark 27 s1) = Some s2"
      "printed (if length frames > 1 then concat (drop 2 frames) else no_trace_mark) s1 s2"
  proof (cases "length frames > 1")
    case True
    have "printed (concat (drop 2 frames)) s1 (s1\<lparr>sg_err := sg_err s1 @ concat (drop 2 frames)\<rparr>)"
      unfolding printed_def by (cases s1) simp
    then show ?thesis
      using True that by simp
  next
    case False
    then show ?thesis
      using rawWrite_ok [OF assms, of 27 no_trace_mark s1] that by (auto simp: no_trace_mark_def)
  qed
  obtain s3 where 3: "rawWrite writes end_mark 25 s2 = Some s3" "printed end_mark s2 s3"
    using rawWrite_ok [OF assms, of 25 end_mark s2] by (auto simp: end_mark_def)
  have "printed (trace_text frames) s s3"
    unfolding trace_text_def by (rule printed_trans [OF 1(2) printed_trans [OF 2(2) 3(2)]])
  moreover have "printStackTrace writes frames s = Some s3"
    unfolding printStackTrace_def 1(1) bind.bind_lunit 2(1) by (rule 3(1))
  ultimately show ?thesis
    by blast
qed

lemma dump_others_ok:
  assumes "writes_ok writes" "\<forall>t \<in> set tids. t \<noteq> my_tid \<longrightarrow> stacks t \<noteq> None" "sg_sem s = Some 0"
  shows "\<exists>s'. dump_others writes stacks my_tid tids s = Some s' \<and>
    printed (concat (map (trace_text \<circ> the \<circ> stacks) (filter (\<lambda>t. t \<noteq> my_tid) tids))) s s'"
  using assms(2,3)
proof (induction tids arbitrary: s)
  case Nil
  show ?case
    by (cases s) (simp add: printed_def)
next
  case (Cons t tids)
  show ?case
  proof (cases "t = my_tid")
    case True
    then show ?thesis
      using Cons by simp
  next
    case False
    then obtain frames where fr: "stacks t = Some frames"
      using Cons.prems(1) by auto
    obtain s1 where 1: "printStackTrace writes frames s = Some s1" "printed (trace_text frames) s s1"
      using printStackTrace_ok [OF assms(1)] by blast
    have sem: "sg_sem s1 = Some 0"
      using printed_fields(2) [OF 1(2)] Cons.prems(2) by simp
    then have "s1\<lparr>sg_sem := Some 0\<rparr> = s1"
      by (cases s1) simp
    then have "Option.bind (dumpStackHandler writes frames s) sem_wait = Some s1"
      using 1(1) sem by (simp add: dumpStackHandler_def sem_wait_def)
    moreover obtain s2 where "dump_others writes stacks my_tid tids s1 = Some s2"
        "printed (concat (map (trace_text \<circ> the \<circ> stacks) (filter (\<lambda>t. t \<noteq> my_tid) tids))) s1 s2"
      using Cons.IH [of s1] Cons.prems(1) sem unfolding list.set by blast
    ultimately show ?thesis
      using False fr printed_trans [OF 1(2)] by (auto simp: o_def)
  qed
qed

text \<open>
  On a first fault, when every other registered thread still runs, the handler returns.  It has printed one stack trace for its own
  thread and then one for each other registered thread, closed the semaphore, and left the signal pending with its default action.
\<close>

lemma fatal_handler_dumps_all:
  assumes "writes_ok writes" "\<not> sg_in_progress s" "sg_sem s = Some 0" "length (dec sig) \<le> 200"
    and "set (order ids) = ids" "\<forall>t \<in> ids. t \<noteq> my_tid \<longrightarrow> stacks t \<noteq> None"
  shows "\<exists>s'. fatalSignalHandler writes stacks my_frames my_tid order ids sig s = Some s' \<and>
    sg_err s' = sg_err s @ ''Got signal '' @ dec sig @ [LF] @ trace_text my_frames @
      concat (map (trace_text \<circ> the \<circ> stacks) (filter (\<lambda>t. t \<noteq> my_tid) (order ids))) \<and>
    sg_sem s' = None \<and> \<not> sg_named s' \<and> sg_handlers s' = (sg_handlers s)(sig := SIG_DFL) \<and> sg_raised s' = sg_raised s @ [sig]"
proof -
  define entry where "entry = ''Got signal '' @ dec sig @ [LF]"
  define s0 where "s0 = s\<lparr>sg_in_progress := True\<rparr>"
  have len: "0 < length entry" "length entry \<le> 255"
    using assms(4) by (simp_all add: entry_def)
  then have full: "take 255 entry = entry" "take (length entry) (entry @ [NUL]) = entry" "length entry \<le> length (entry @ [NUL])"
    by simp_all
  obtain s1 where 1: "rawWrite writes (entry @ [NUL]) (length entry) s0 = Some s1" "printed entry s0 s1"
    using rawWrite_ok [OF assms(1) len(1) full(3), of s0] unfolding full(2) by blast
  obtain s2 where 2: "printStackTrace writes my_frames s1 = Some s2" "printed (trace_text my_frames) s1 s2"
    using printStackTrace_ok [OF assms(1)] by blast
  have "sg_sem s2 = Some 0"
    using printed_fields(2) [OF 1(2)] printed_fields(2) [OF 2(2)] assms(3) by (simp add: s0_def)
  moreover have "\<forall>t \<in> set (order ids). t \<noteq> my_tid \<longrightarrow> stacks t \<noteq> None"
    using assms(5,6) by simp
  ultimately obtain s3 where 3: "dump_others writes stacks my_tid (order ids) s2 = Some s3"
      "printed (concat (map (trace_text \<circ> the \<circ> stacks) (filter (\<lambda>t. t \<noteq> my_tid) (order ids)))) s2 s3"
    using dump_others_ok [OF assms(1), of "order ids" my_tid stacks s2] by blast
  have ids: "getAllThreadIDs ids {} = ids"
    by (simp add: getAllThreadIDs_def)
  have w: "printed (entry @ trace_text my_frames @ concat (map (trace_text \<circ> the \<circ> stacks) (filter (\<lambda>t. t \<noteq> my_tid) (order ids)))) s0 s3"
    by (rule printed_trans [OF 1(2) printed_trans [OF 2(2) 3(2)]])
  have "fatalSignalHandler writes stacks my_frames my_tid order ids sig s =
      Some (s3\<lparr>sg_sem := None, sg_named := False, sg_handlers := (sg_handlers s3)(sig := SIG_DFL), sg_raised := sg_raised s3 @ [sig]\<rparr>)"
    unfolding fatalSignalHandler_def entry_def [symmetric] Let_def
    using assms(2) 1(1) 2(1) 3(1) ids by (simp add: full(1) s0_def)
  then show ?thesis
    using printed_fields [OF w] by (simp add: s0_def entry_def)
qed

text \<open>When one of them has ended but is still registered, the handler waits for ever.\<close>

lemma ended_thread_blocks_handler:
  assumes "writes_ok writes" "sg_sem s = Some 0" "t \<noteq> my_tid" "stacks t = None"
    and "\<forall>u \<in> set us. u \<noteq> my_tid \<longrightarrow> stacks u \<noteq> None"
  shows "dump_others writes stacks my_tid (us @ t # vs) s = None"
proof -
  have app: "dump_others writes stacks my_tid (us @ xs) s =
      Option.bind (dump_others writes stacks my_tid us s) (dump_others writes stacks my_tid xs)" for xs
  proof (induction us arbitrary: s)
    case (Cons u us)
    then show ?case
      by (simp cong: option.case_cong) (metis (no_types, lifting) bind_assoc ext)
  qed simp
  obtain s1 where 1: "dump_others writes stacks my_tid us s = Some s1"
      "printed (concat (map (trace_text \<circ> the \<circ> stacks) (filter (\<lambda>t. t \<noteq> my_tid) us))) s s1"
    using dump_others_ok [OF assms(1,5,2)] by blast
  have "sg_sem s1 = Some 0"
    using printed_fields(2) [OF 1(2)] assms(2) by simp
  then show ?thesis
    using assms(3,4) 1(1) by (simp add: app sem_wait_def)
qed

text \<open>An installed handler is armed: both dispositions are set and the semaphore is at zero, as the handler requires.\<close>

lemma installed_handlers:
  assumes "installSignalHandler a b c s = Inr s'"
  shows "sg_handlers s' SIGSEGV = FatalSignalHandler" "sg_handlers s' SIGUSR1 = DumpStackHandler" "sg_sem s' = Some 0"
    "sg_in_progress s' = sg_in_progress s"
  using assms by (auto simp: installSignalHandler_def Let_def split: if_splits)

end
