(* ===== verification/Server_Main.thy ===== *)
theory Server_Main
  imports Http_Serving
begin

text \<open>
  The main program of the server (\<open>server.cpp\<close>) over the service and the HTTP service: it reads two numbers from its arguments,
  listens, and returns when the service has been stopped.
\<close>

section \<open>Operations\<close>

text \<open>
  What \<open>istringstream >> int\<close> stores: nothing when there is nothing but white space, so that the variable keeps its \<open>garbage\<close>; 0
  without digits; and the closest \<open>int\<close> to a number out of range.
\<close>

definition read_int :: "int \<Rightarrow> string \<Rightarrow> int" where
  "read_int garbage s =
     (let s = dropWhile is_space s in
      if s = [] then garbage
      else
        let neg = hd s = CHR ''-'';
            s = (if hd s = CHR ''-'' \<or> hd s = CHR ''+'' then tl s else s);
            v = int (digits_value (takeWhile is_digit s));
            v = (if neg then - v else v)
        in if v < - (2 ^ 31) then - (2 ^ 31) else if v > 2 ^ 31 - 1 then 2 ^ 31 - 1 else v)"

text \<open>The constructor of \<open>HTTPService\<close>: \<open>cb\<close> is the callback to \<open>acceptConnection\<close>, the other arguments are those of the acceptor.\<close>

definition new_http_service ::
    "int \<Rightarrow> (int \<Rightarrow> int) \<Rightarrow> int \<Rightarrow> addr \<Rightarrow> nat \<Rightarrow> nat \<Rightarrow> int \<Rightarrow> io_service \<times> io_manager \<Rightarrow> (io_service \<times> io_manager) result" where
  "new_http_service socket_res bind_res listen_res cb readUpCall writeUpCall port =
     registerAcceptor (new_acceptor socket_res (bind_res port) listen_res cb readUpCall writeUpCall)"

text \<open>
  A run: the contents of the two variables before they are read, the answers of the system, the rounds of the polling loop, and what
  the other threads do between the end of that loop and the end of \<open>start\<close> and while the destructor waits.
\<close>

record server_run =
  sr_http_port :: int
  sr_num_workers :: int
  sr_socket :: int
  sr_bind :: "int \<Rightarrow> int"
  sr_listen :: int
  sr_accept_cb :: addr
  sr_upcalls :: "nat \<times> nat"
  sr_rounds :: "((int + epoll_event list) \<times> nat \<times> (io_manager \<Rightarrow> io_manager)) list"
  sr_others :: "io_service \<times> io_manager \<Rightarrow> io_service \<times> io_manager"
  sr_polls :: "io_manager \<Rightarrow> io_manager"
  sr_works :: "io_manager \<Rightarrow> io_manager"

text \<open>What \<open>main\<close> prints and returns.  At its end the services are destroyed; the destructor of \<open>HTTPService\<close> does nothing.\<close>

definition usage :: "string list \<Rightarrow> string" where
  "usage argv = ''Usage: '' @ hd argv @ '' <port> <num-threads>'' @ [LF]"

definition server_main :: "server_run \<Rightarrow> string list \<Rightarrow> (string \<times> int) result" where
  "server_main r argv =
     (if length argv \<noteq> 3 then Inr (usage argv, 1)
      else
        let http_port = read_int (sr_http_port r) (argv ! 1);
            num_workers = read_int (sr_num_workers r) (argv ! 2);
            io_service = new_io_service num_workers
        in rbind (new_http_service (sr_socket r) (sr_bind r) (sr_listen r) (sr_accept_cb r) (fst (sr_upcalls r)) (snd (sr_upcalls r))
                    http_port io_service) (\<lambda>s.
           rbind (service_start (sr_rounds r) s) (\<lambda>s.
             let (sv, im) = sr_others r s
             in rbind (of_opt (start_done sv)) (\<lambda>sv.
                rbind (destroy_io_service (sr_polls r) (sr_works r) (sv, im)) (\<lambda>im. Inr ([], 0))))))"

section \<open>Arguments\<close>

lemma read_int_dec:
  assumes "n < 2 ^ 31"
  shows "read_int g (dec n) = int n"
proof -
  obtain c cs where d: "dec n = c # cs"
    using dec_nonempty by (cases "dec n") auto
  have digit: "\<forall>c \<in> set (dec n). is_digit c"
    using dec_chars by (auto simp: is_digit_def)
  then have "is_digit c"
    using d by simp
  then have c: "\<not> is_space c" "c \<noteq> CHR ''-''" "c \<noteq> CHR ''+''"
    by (auto simp: is_space_def is_digit_def)
  have "takeWhile is_digit (dec n) = dec n"
    using digit by (simp add: takeWhile_eq_all_conv)
  then show ?thesis
    using assms c d dec_value [of n] by (simp add: read_int_def Let_def)
qed

lemma usage_without_arguments: "length argv \<noteq> 3 \<Longrightarrow> server_main r argv = Inr (usage argv, 1)"
  by (simp add: server_main_def)

section \<open>The end of the server\<close>

text \<open>A stopped service: the stop is complete, the event loop is stopped and no acceptor has a descriptor.\<close>

definition quiet :: "io_service \<times> io_manager \<Rightarrow> bool" where
  "quiet = (\<lambda>(sv, im). sv_stop_requested sv \<and> sv_stopped sv \<and> im_stopped im \<and> (\<forall>ac \<in> set (sv_acceptors sv). ac_io_descr ac = NULL))"

text \<open>That is what \<open>stop\<close> leaves, when the threads it waits for do not start the event loop again.\<close>

lemma close_all_closed: "close_all acs im = Inr (acs', im') \<Longrightarrow> \<forall>ac \<in> set acs'. ac_io_descr ac = NULL"
  by (induction acs arbitrary: im acs' im') (auto simp: rbind_Inr_iff acceptor_close_def split: if_splits)

lemma delete_list_stopped:
  assumes "delete_list a im = Some r" "r = Inr im'"
  shows "im_stopped im' = im_stopped im"
proof -
  have "\<forall>im'. r = Inr im' \<longrightarrow> im_stopped im' = im_stopped im"
    by (rule delete_list.raw_induct [where P = "\<lambda>a im r. \<forall>im'. r = Inr im' \<longrightarrow> im_stopped im' = im_stopped im", OF _ assms(1)])
      (fastforce split: if_splits sum.splits)
  then show ?thesis
    using assms(2) by blast
qed

lemma stop_finish_stopped:
  assumes "stop_finish me im = Some (Inr im')"
  shows "im_stopped im' = im_stopped im"
proof -
  obtain pool where "delete_list (im_deleted_desc im) (im\<lparr>im_deleted_desc := NULL, im_pool := pool\<rparr>) = Some (Inr im')"
    using assms unfolding stop_finish_def Let_def by (simp split: if_splits)
  from delete_list_stopped [OF this refl] show ?thesis
    by simp
qed

lemma im_stop_stopped:
  assumes "im_stop polls works me im = Inr im'" "\<And>im. im_stopped (polls im) = im_stopped im" "\<And>im. im_stopped (works im) = im_stopped im"
  shows "im_stopped im'"
proof (cases "im_stopped im")
  case True
  then show ?thesis
    using assms(1) by (simp add: im_stop_def stop_begin_def)
next
  case False
  then obtain im1 r where 1: "stop_workers (polls (im\<lparr>im_stopped := True\<rparr>)) = Some im1" "stop_finish me (works im1) = Some r"
      "r = Inr im'"
    using assms(1) unfolding im_stop_def stop_begin_def by (simp add: rbind_Inr_iff of_opt_def split: option.splits)
  have "im_stopped im1"
    using 1(1) assms(2) [of "im\<lparr>im_stopped := True\<rparr>"] by (auto simp: stop_workers_def split: if_splits)
  then show ?thesis
    using stop_finish_stopped [of me "works im1" im'] 1(2,3) assms(3) [of im1] by simp
qed

lemma service_stop_quiet:
  assumes "service_stop polls works me (sv, im) = Inr s" "\<not> sv_stop_requested sv"
    and "\<And>im. im_stopped (polls im) = im_stopped im" "\<And>im. im_stopped (works im) = im_stopped im"
  shows "quiet s"
proof -
  obtain acs im1 im2 where s: "close_all (sv_acceptors sv) im = Inr (acs, im1)" "im_stop polls works me im1 = Inr im2"
      "s = (sv\<lparr>sv_stop_requested := True, sv_acceptors := acs, sv_stopped := True\<rparr>, im2)"
    using assms(1,2) unfolding service_stop_def by (clarsimp simp: rbind_Inr_iff)
  have "im_stopped im2"
    by (rule im_stop_stopped [OF s(2)]) (rule assms(3), rule assms(4))
  then show ?thesis
    using close_all_closed [OF s(1)] unfolding s(3) quiet_def by simp
qed

text \<open>The destructor of a quiet service has nothing to wait for and releases nothing twice.\<close>

lemma destroy_all_closed:
  assumes "\<forall>ac \<in> set acs. ac_io_descr ac = NULL"
  shows "destroy_all acs im = Inr im"
  using assms by (induction acs) (auto simp: destroy_acceptor_def)

lemma destroy_quiet:
  assumes "quiet (sv, im)"
  shows "destroy_io_service polls works (sv, im) = Inr im"
  using assms
  by (simp add: quiet_def destroy_io_service_def service_stop_def destroy_all_closed im_stop_def stop_begin_def)

text \<open>
  The program with a port and a number of threads as its arguments, on a system where it can listen, returns 0 once its event loop
  has ended and the service is quiet: the destructors do not wait.
\<close>

lemma main_returns:
  assumes "argv = [prog, dec port, dec workers]" "port < 2 ^ 31" "workers < 2 ^ 31"
    and "new_http_service (sr_socket r) (sr_bind r) (sr_listen r) (sr_accept_cb r) (fst (sr_upcalls r)) (snd (sr_upcalls r)) (int port)
           (new_io_service (int workers)) = Inr s0"
    and "service_start (sr_rounds r) s0 = Inr s1" "quiet (sr_others r s1)"
  shows "server_main r argv = Inr ([], 0)"
proof -
  obtain sv im where q: "sr_others r s1 = (sv, im)" "quiet (sv, im)"
    using assms(6) by (cases "sr_others r s1") auto
  then have "of_opt (start_done sv) = Inr sv"
    by (simp add: quiet_def start_done_def of_opt_def)
  then show ?thesis
    using assms(4,5) q destroy_quiet [OF q(2)] unfolding server_main_def assms(1)
    by (simp add: read_int_dec [OF assms(2)] read_int_dec [OF assms(3)])
qed

text \<open>It listens on the port of its first argument, and on nothing else.\<close>

lemma listens_once:
  assumes "0 \<le> fd" "0 \<le> bind_res port" "0 \<le> listen_res"
  shows "\<exists>sv im ac. new_http_service fd bind_res listen_res cb up1 up2 port (new_io_service n) = Inr (sv, im) \<and>
    sv_acceptors sv = [ac] \<and> ac_listen_fd ac = fd \<and> ac_accept_cb ac = cb \<and> im_events im = [(fd, ac_io_descr ac)]"
  using assms
  by (simp add: new_http_service_def registerAcceptor_def new_io_service_def new_acceptor_def newDescriptor_def new_io_manager_def
      put_desc_def Let_def)

lemma no_port_ends_server:
  assumes "length argv = 3" "bind_res = sr_bind r" "bind_res (read_int (sr_http_port r) (argv ! 1)) < 0"
  shows "server_main r argv = Inl Fatal"
  using assms
  by (simp add: server_main_def new_http_service_def registerAcceptor_def new_io_service_def new_acceptor_def Let_def)

end
