(* ===== verification/Sbrk_Alloc.thy ===== *)
theory Sbrk_Alloc
  imports Prelude
begin

text \<open>
  The system allocator (\<open>sbrk_alloc.cpp\<close>): aligned memory from the program break, and the release of whole
  pages.  Sizes and addresses are 64-bit words.  The break is state, and \<open>grant\<close> tells what the \<open>k\<close>-th call of \<open>sbrk\<close> does: fail, or move the break up,
  behind a gap that another user of the break has taken.
\<close>

section \<open>Operations\<close>

datatype grant = Refuse | Grant "64 word"

record sbrk_state =
  sk_break :: "64 word"
  sk_grant :: "nat \<Rightarrow> grant"
  sk_calls :: nat
  sk_taken :: "(64 word \<times> 64 word) list"   \<comment> \<open>what was granted so far, last first\<close>

abbreviation sbrk_failed :: "64 word" where
  "sbrk_failed \<equiv> - 1"

definition sbrk :: "64 word \<Rightarrow> sbrk_state \<Rightarrow> 64 word \<times> sbrk_state" where
  "sbrk n s =
     (let g = sk_grant s (sk_calls s);
          s = s\<lparr>sk_calls := sk_calls s + 1\<rparr>
      in case g of
           Refuse \<Rightarrow> (sbrk_failed, s)
         | Grant gap \<Rightarrow>
             (let p = sk_break s + gap
              in (p, s\<lparr>sk_break := p + n, sk_taken := (p, n) # sk_taken s\<rparr>)))"

definition round_size :: "64 word \<Rightarrow> 64 word \<Rightarrow> 64 word" where
  "round_size sz alignment = (sz + alignment - 1) div alignment * alignment"

text \<open>\<open>Alloc\<close> gives the address and \<open>*actual_size\<close>; \<^const>\<open>None\<close> is a null pointer.\<close>

definition sys_Alloc :: "64 word \<Rightarrow> 64 word \<Rightarrow> sbrk_state \<Rightarrow> (64 word \<times> 64 word) option \<times> sbrk_state" where
  "sys_Alloc sz alignment s =
     (if sint (sz + alignment) < 0 then (None, s)
      else
        let sz = round_size sz alignment in
        if sk_break s + sz < sz then (None, s)
        else
          let (result, s) = sbrk sz s in
          if result = sbrk_failed then (None, s)
          else if result AND (alignment - 1) = 0 then (Some (result, sz), s)
          else
            let extra = alignment - (result AND (alignment - 1));
                (r2, s) = sbrk extra s
            in if r2 = result + sz then (Some (result + extra, sz), s)
               else
                 let (result, s) = sbrk (sz + alignment - 1) s in
                 if result = sbrk_failed then (None, s)
                 else if result AND (alignment - 1) \<noteq> 0
                 then (Some (result + (alignment - (result AND (alignment - 1))), sz), s)
                 else (Some (result, sz), s))"

text \<open>The entry point; \<open>min_align\<close> is the size of a type that the file does not declare.\<close>

definition TCMalloc_SystemAlloc ::
    "64 word \<Rightarrow> 64 word \<Rightarrow> 64 word \<Rightarrow> sbrk_state \<Rightarrow> (64 word \<times> 64 word) option \<times> sbrk_state" where
  "TCMalloc_SystemAlloc min_align sz alignment s =
     (if sz + alignment < sz then (None, s)
      else sys_Alloc sz (if alignment < min_align then min_align else alignment) s)"

text \<open>
  The release of memory.  The static \<open>pagesize\<close> is state, with the ranges that were given back to the system; \<open>devmem\<close> is the flag of
  that name, \<open>page\<close> is what \<open>getpagesize\<close> gives, and \<open>advice k\<close> the \<open>errno\<close> of the \<open>k\<close>-th \<open>madvise\<close> or \<^const>\<open>None\<close>.
\<close>

record release_state =
  rl_pagesize :: "64 word"
  rl_released :: "(64 word \<times> 64 word) list"

abbreviation madvise_EAGAIN :: int where
  "madvise_EAGAIN \<equiv> 11"

partial_function (option) advise_loop :: "(nat \<Rightarrow> int option) \<Rightarrow> nat \<Rightarrow> int option option" where
  "advise_loop advice k = (if advice k = Some madvise_EAGAIN then advise_loop advice (k + 1) else Some (advice k))"

definition TCMalloc_SystemRelease ::
    "bool \<Rightarrow> 64 word \<Rightarrow> (nat \<Rightarrow> int option) \<Rightarrow> 64 word \<Rightarrow> 64 word \<Rightarrow> release_state \<Rightarrow> release_state result" where
  "TCMalloc_SystemRelease devmem page advice start len s =
     (if devmem then Inr s
      else
        let s = (if rl_pagesize s = 0 then s\<lparr>rl_pagesize := page\<rparr> else s);
            pagesize = rl_pagesize s;
            pagemask = pagesize - 1;
            new_start = start;
            end_addr = new_start + len;
            new_end = end_addr;
            new_start = (new_start + pagesize - 1) AND NOT pagemask;
            new_end = new_end AND NOT pagemask
        in if new_start AND pagemask \<noteq> 0 then Inl AssertFail
           else if new_end AND pagemask \<noteq> 0 then Inl AssertFail
           else if new_start < start then Inl AssertFail
           else if new_end > end_addr then Inl AssertFail
           else if new_end > new_start then
             rbind (of_opt (advise_loop advice 0)) (\<lambda>res.
               Inr (if res = None then s\<lparr>rl_released := rl_released s @ [(new_start, new_end - new_start)]\<rparr> else s))
           else Inr s)"

section \<open>Alignment\<close>

text \<open>An address is aligned to \<open>2 ^ k\<close> when its low bits are zero; rounding up clears them.\<close>

lemma low_bits: "x AND (2 ^ k - 1) = take_bit k x" for x :: "64 word"
  by (simp add: take_bit_eq_mask mask_eq_exp_minus_1)

lemma round_up_aligned: "(x + (2 ^ k - (x AND (2 ^ k - 1)))) AND (2 ^ k - 1) = 0" for x :: "64 word"
proof -
  have "x - take_bit k x = push_bit k (drop_bit k x)"
    using bits_ident [of k x] by (simp add: algebra_simps)
  then have "x + (2 ^ k - take_bit k x) = push_bit k (drop_bit k x) + push_bit k 1"
    by (simp add: push_bit_eq_mult algebra_simps)
  also have "\<dots> = push_bit k (drop_bit k x + 1)"
    by (simp add: push_bit_eq_mult algebra_simps)
  finally show ?thesis
    by (simp add: low_bits take_bit_push_bit)
qed

text \<open>Whatever \<open>sbrk\<close> answers, an address that is returned is aligned.\<close>

lemma sys_Alloc_aligned:
  assumes "fst (sys_Alloc sz (2 ^ k) s) = Some (p, n)"
  shows "p AND (2 ^ k - 1) = 0"
  using assms round_up_aligned
  by (auto simp: sys_Alloc_def Let_def split: if_splits prod.splits)

section \<open>Release\<close>

abbreviation page_down :: "nat \<Rightarrow> 64 word \<Rightarrow> 64 word" where
  "page_down k x \<equiv> x AND NOT (2 ^ k - 1)"

abbreviation page_up :: "nat \<Rightarrow> 64 word \<Rightarrow> 64 word" where
  "page_up k x \<equiv> page_down k (x + 2 ^ k - 1)"

lemma clear_low_bits: "x AND NOT (2 ^ k - 1) = push_bit k (drop_bit k x)" for x :: "64 word"
  by (simp add: bit_eq_iff bit_simps mask_eq_exp_minus_1 [symmetric]) (metis bit_imp_le_length le_add_diff_inverse linorder_not_le)

lemma round_down: "unat (x AND NOT (2 ^ k - 1)) = unat x div 2 ^ k * 2 ^ k" for x :: "64 word"
proof -
  have x: "unat x < 2 ^ 64"
    using unsigned_less [of x, where 'a = nat] by simp
  have "unat (push_bit k (drop_bit k x)) = take_bit 64 (push_bit k (drop_bit k (take_bit 64 (unat x))))"
    by (simp add: unsigned_push_bit_eq unsigned_drop_bit_eq push_bit_eq_mult [symmetric] drop_bit_eq_div [symmetric])
  also have "\<dots> = unat x div 2 ^ k * 2 ^ k mod 2 ^ 64"
    using x by (simp add: push_bit_eq_mult drop_bit_eq_div take_bit_eq_mod)
  also have "\<dots> = unat x div 2 ^ k * 2 ^ k"
    using x by (intro mod_less le_less_trans [OF div_times_less_eq_dividend])
  finally show ?thesis
    by (simp only: clear_low_bits)
qed

lemma round_down_aligned: "(x AND NOT (2 ^ k - 1)) AND (2 ^ k - 1) = 0" for x :: "64 word"
  by (simp add: clear_low_bits low_bits take_bit_push_bit)

text \<open>The first page boundary at or behind an address.\<close>

lemma round_up_page:
  fixes x :: "64 word"
  assumes "unat x + 2 ^ k \<le> 2 ^ 64"
  shows "unat ((x + 2 ^ k - 1) AND NOT (2 ^ k - 1)) = (unat x + 2 ^ k - 1) div 2 ^ k * 2 ^ k"
proof -
  have "Suc 0 \<le> unat x + 2 ^ k"
    by (simp add: trans_le_add2)
  then have "x + 2 ^ k - 1 = word_of_nat (unat x + 2 ^ k - 1)"
    by (simp add: of_nat_diff)
  moreover have "unat x + 2 ^ k - 1 < 2 ^ 64"
    using assms by (simp add: less_diff_conv2 trans_le_add2)
  ultimately have "unat (x + 2 ^ k - 1) = unat x + 2 ^ k - 1"
    by (simp add: unat_of_nat)
  then show ?thesis
    by (simp add: round_down)
qed

text \<open>The two boundaries lie in the range and enclose every whole page of it.\<close>

lemma page_bounds:
  fixes q :: nat
  assumes "0 < q"
  shows "x \<le> (x + q - 1) div q * q" "y div q * q \<le> y"
    "x \<le> p * q \<Longrightarrow> (x + q - 1) div q * q \<le> p * q" "(p + 1) * q \<le> y \<Longrightarrow> (p + 1) * q \<le> y div q * q"
proof -
  have "x + q - 1 = (x + q - 1) div q * q + (x + q - 1) mod q" "(x + q - 1) mod q < q"
    using assms by simp_all
  then show "x \<le> (x + q - 1) div q * q"
    by linarith
  show "y div q * q \<le> y"
    by simp
  show "(x + q - 1) div q * q \<le> p * q" if "x \<le> p * q"
  proof -
    have "x + q - 1 < (p + 1) * q"
      using that assms by (simp add: algebra_simps)
    then have "(x + q - 1) div q < p + 1"
      using assms by (simp add: div_less_iff_less_mult)
    then show ?thesis
      by simp
  qed
  show "(p + 1) * q \<le> y div q * q" if "(p + 1) * q \<le> y"
    using that assms by (intro mult_le_mono1) (simp add: less_eq_div_iff_mult_less_eq)
qed

text \<open>An interrupted \<open>madvise\<close> is repeated until it is not.\<close>

lemma advise_loop_ends:
  assumes "\<forall>i<n. advice (k + i) = Some madvise_EAGAIN" "advice (k + n) \<noteq> Some madvise_EAGAIN"
  shows "advise_loop advice k = Some (advice (k + n))"
  using assms
proof (induction n arbitrary: k)
  case 0
  then show ?case
    by (subst advise_loop.simps) simp
next
  case (Suc n)
  have "advice k = Some madvise_EAGAIN"
    using Suc.prems(1) by (auto dest: spec [of _ 0])
  moreover have "\<forall>i<n. advice (k + 1 + i) = Some madvise_EAGAIN" "advice (k + 1 + n) \<noteq> Some madvise_EAGAIN"
    using Suc.prems by (auto simp: add.assoc)
  ultimately show ?case
    using Suc.IH [of "k + 1"] by (subst advise_loop.simps) simp
qed

lemma release_run:
  assumes "rl_pagesize s = 0" "page = 2 ^ k" "unat start + unat len + 2 ^ k \<le> 2 ^ 64" "\<forall>i<n. advice i = Some madvise_EAGAIN"
    and "advice n = None"
  shows "unat (page_up k start) = (unat start + 2 ^ k - 1) div 2 ^ k * 2 ^ k"
    and "unat (page_down k (start + len)) = (unat start + unat len) div 2 ^ k * 2 ^ k"
    and "TCMalloc_SystemRelease False page advice start len s = Inr (s\<lparr>rl_pagesize := page, rl_released := rl_released s @
      (if page_up k start < page_down k (start + len) then [(page_up k start, page_down k (start + len) - page_up k start)] else [])\<rparr>)"
proof -
  have "unat start + unat len < 2 ^ 64"
    using assms(3) less_le_trans [of "unat start + unat len" "unat start + unat len + 2 ^ k" "2 ^ 64"] by simp
  then have end_addr: "unat (start + len) = unat start + unat len"
    by (simp add: unat_word_ariths)
  show up: "unat (page_up k start) = (unat start + 2 ^ k - 1) div 2 ^ k * 2 ^ k"
    using assms(3) by (intro round_up_page) simp
  show down: "unat (page_down k (start + len)) = (unat start + unat len) div 2 ^ k * 2 ^ k"
    unfolding round_down end_addr ..
  have "\<not> page_up k start < start" "\<not> start + len < page_down k (start + len)"
    unfolding word_less_nat_alt end_addr up down using page_bounds(1) [of "2 ^ k" "unat start"] by (simp_all add: not_less)
  moreover have "advise_loop advice 0 = Some None"
    using advise_loop_ends [of n advice 0] assms(4,5) by simp
  ultimately show "TCMalloc_SystemRelease False page advice start len s = Inr (s\<lparr>rl_pagesize := page, rl_released := rl_released s @
      (if page_up k start < page_down k (start + len) then [(page_up k start, page_down k (start + len) - page_up k start)] else [])\<rparr>)"
    unfolding TCMalloc_SystemRelease_def Let_def using assms(1,2) round_down_aligned
    by (simp add: of_opt_def)
qed

text \<open>
  No assertion fails for memory that ends before the last page of the address space.  What is released is made of whole pages inside
  the memory, and holds every page that lies in it.
\<close>

lemma releases_whole_pages:
  assumes "rl_pagesize s = 0" "page = 2 ^ k" "unat start + unat len + 2 ^ k \<le> 2 ^ 64" "\<forall>i<n. advice i = Some madvise_EAGAIN"
    and "advice n = None"
  shows "\<exists>s' new. TCMalloc_SystemRelease False page advice start len s = Inr s' \<and> rl_pagesize s' = page \<and>
    rl_released s' = rl_released s @ new \<and>
    (\<forall>(a, m) \<in> set new. 2 ^ k dvd unat a \<and> 2 ^ k dvd unat m \<and> unat start \<le> unat a \<and> unat a + unat m \<le> unat start + unat len) \<and>
    (\<forall>p. unat start \<le> p * 2 ^ k \<and> (p + 1) * 2 ^ k \<le> unat start + unat len \<longrightarrow>
      (\<exists>(a, m) \<in> set new. unat a \<le> p * 2 ^ k \<and> (p + 1) * 2 ^ k \<le> unat a + unat m))"
proof -
  define a b where "a = page_up k start" and "b = page_down k (start + len)"
  note run = release_run [OF assms, folded a_def b_def]
  note bounds = page_bounds [of "2 ^ k :: nat"]
  have m: "unat (b - a) = unat b - unat a" if "a < b"
    using that by (simp add: unat_sub less_imp_le)
  have le: "unat a < unat b" if "a < b"
    using that by (simp add: word_less_nat_alt)
  show ?thesis
  proof (intro exI conjI, rule run(3))
    show "\<forall>(a, m) \<in> set (if a < b then [(a, b - a)] else []). 2 ^ k dvd unat a \<and> 2 ^ k dvd unat m \<and> unat start \<le> unat a \<and>
        unat a + unat m \<le> unat start + unat len"
      using m le bounds(1) [of "unat start"] bounds(2) [of "unat start + unat len"] by (auto simp: run(1,2) intro: dvd_diff_nat)
    show "\<forall>p. unat start \<le> p * 2 ^ k \<and> (p + 1) * 2 ^ k \<le> unat start + unat len \<longrightarrow>
        (\<exists>(a, m) \<in> set (if a < b then [(a, b - a)] else []). unat a \<le> p * 2 ^ k \<and> (p + 1) * 2 ^ k \<le> unat a + unat m)"
    proof (intro allI impI)
      fix p
      assume p: "unat start \<le> p * 2 ^ k \<and> (p + 1) * 2 ^ k \<le> unat start + unat len"
      have "unat a \<le> p * 2 ^ k" "(p + 1) * 2 ^ k \<le> unat b"
        using bounds(3) [of "unat start" p] bounds(4) [of p "unat start + unat len"] p unfolding run(1,2) by simp_all
      moreover from this have "unat a < unat b"
        using zero_less_power [of "2 :: nat" k] by (simp only: add_mult_distrib mult_1) linarith
      ultimately show "\<exists>(a, m) \<in> set (if a < b then [(a, b - a)] else []). unat a \<le> p * 2 ^ k \<and> (p + 1) * 2 ^ k \<le> unat a + unat m"
        using m by (simp add: word_less_nat_alt)
    qed
  qed simp_all
qed

end
