(* ===== verification/Spec2Isabelle.thy ===== *)
theory Spec2Isabelle
  imports Two_Layer_Correct File_Cache_Correct Callbacks Thread_Local Http_Streaming Param_Map Memtest_Heap Locks
    System_Calls Processes Server_Main Sbrk_Alloc
begin

text \<open>
  A verification of a small systems library and of the programs in it: two memory allocators that replace \<open>malloc\<close>, and an HTTP
  server and client with the parts they stand on (streaming buffers, an event loop, thread pools, locks, callbacks, a file cache,
  request counters).  File names are relative to the source directory.

  \<^bold>\<open>Conventions.\<close>  Addresses are natural numbers with \<open>NULL = 0\<close>.  A \<open>size_t\<close> is a 64-bit word where its wrap-around can be
  reached (the allocators, the file cache, the system allocator, the memory test's random numbers) and a natural number elsewhere.
  A call that can abort, use a bad address, end the process, throw or not return is a \<open>result\<close> (theory \<open>Prelude\<close>): \<open>Inl\<close> of the
  fault or \<open>Inr\<close> of its value.  A loop that may not end is a \<open>partial_function\<close> with \<open>None\<close> for not returning.  Classes are records
  whose fields carry a short prefix; pointers to shared objects are addresses in an explicit store.  System calls, the clock, files
  and what other threads do while a call waits are arguments of the definitions that use them.

  \<^bold>\<open>The one-layer allocator\<close> (\<open>myAlloc_1Layer/MyMalloc.cpp\<close>).  \<open>Byte_Memory\<close>: bytes, words and what a write leaves alone.
  \<open>Free_Lists\<close> and \<open>Free_List_Refinement\<close>: the array of doubly linked free lists in memory, with insertion and removal, refined to
  lists of blocks.  \<open>Alloc_Core\<close>: header and footer, splitting and stamping, shared by both allocators.  \<open>One_Layer\<close>: the class
  \<open>Allocator\<close> and \<open>malloc\<close>, \<open>free\<close>, \<open>realloc\<close>.  \<open>Mem_Source\<close>, \<open>Heap_Contract\<close>, \<open>Heap_Checks\<close> and \<open>Object_Heap\<close>: the
  interfaces (locales) between an allocator and where its memory comes from, and between \<open>realloc\<close> and an allocator, each interpreted
  on the models.  \<open>One_Layer_Correct\<close>: every operation keeps the invariant, returns disjoint objects of at least the requested size
  and keeps the contents of the others; all histories pass the allocator's own checks and conserve its memory; what happens on every
  heap for sizes that wrap around, for a failing \<open>sbrk\<close> (a store through its failure value, behind the program break) and for blocks
  of \<open>2 ^ 34\<close> bytes or more, whose size class is not an \<open>int\<close>.

  \<^bold>\<open>The two-layer allocator\<close> (\<open>myAlloc_2Layer_lock/heap_alloc.cpp\<close>, \<open>thread_cache.cpp\<close>).  \<open>Two_Layer\<close>: the central heap and the
  thread caches that take chunks from it.  \<open>Two_Layer_Correct\<close>: the same contract for both layers together.  The locks around the
  operations make each of them one step.

  \<^bold>\<open>Buffers\<close> (\<open>buffer.cpp\<close>).  \<open>Buffer\<close>: chunks, positions and iterators.  \<open>Buffer_Correct\<close>, \<open>Buffer_Transfer\<close>, \<open>Buffer_Streams\<close>: a
  buffer refines a queue of bytes (locale \<open>byte_stream\<close>), iterators yield its contents, moving and copying between buffers, and
  well-formedness under every sequence of these calls.

  \<^bold>\<open>HTTP messages\<close> (\<open>http_parser.cpp\<close>, \<open>http_request.cpp\<close>).  \<open>Http_Parser\<close> on the iterators of a buffer; \<open>Http_Correct\<close>: complete
  messages parse to their fields, prefixes ask for more, and what \<open>toBuffer\<close> writes is read back.

  \<^bold>\<open>Event loop, connections, service\<close>.  \<open>Io_Manager\<close> (\<open>io_manager.cpp\<close>, over the pool of \<open>Thread_Pool\<close>): descriptors with their
  readiness flags, timers, the polling loop.  \<open>Io_Service\<close> (\<open>acceptor.cpp\<close>, \<open>io_service.cpp\<close>): listening and stopping.  \<open>Connection\<close>
  (\<open>connection.cpp\<close>): reading and writing a non-blocking socket, with the count of references whose last one deletes the connection; an
  operation on a deleted one is a fault.  \<open>Http_Connection\<close> (\<open>http_connection.cpp\<close>, \<open>http_service.cpp\<close>): the
  two ends of an HTTP connection as subclasses, whose \<open>readDone\<close> and \<open>connDone\<close> are arguments of the connection's operations.
  \<open>Http_Serving\<close>: the server answers the requests of its input in order, the client gives the responses to its callbacks in order.
  \<open>Read_Loop\<close> (locale \<open>stream_reader\<close>) and \<open>Http_Streaming\<close>: the same for the read loop of the connection, however the socket cuts the
  stream into reads, except right behind a carriage return.  The last section of this theory composes both ends: the files of the server reach the callbacks of the client.
  \<open>Server_Main\<close> (\<open>server.cpp\<close>): the main program over the service, which returns once the service has been stopped.

  \<^bold>\<open>File cache\<close> (\<open>file_cache.cpp\<close>): \<open>File_Cache\<close>, \<open>File_Cache_Correct\<close>.  Loading, pinning and eviction over a store of nodes; each
  operation is one step.

  \<^bold>\<open>Concurrency\<close>.  \<open>Spin_Locks\<close> (\<open>spinlock.hpp\<close>, \<open>spinlock_mcs.hpp\<close>), \<open>Barrier\<close> (\<open>thread_barrier.hpp\<close>),
  \<open>Locks\<close> (\<open>lock.hpp\<close>), \<open>Thread_Pool\<close> (\<open>thread_pool_fast.cpp\<close>, \<open>thread_pool_normal.cpp\<close>): step relations whose steps are the atomic accesses
  or critical sections of the code, over any number of threads, with invariants by induction over all interleavings (locales
  \<open>lock_protocol\<close> and \<open>task_pool\<close>).  \<open>Thread_Local\<close> (\<open>thread_local.hpp\<close>) and \<open>Request_Stats\<close> (\<open>request_stats.cpp\<close>): per-thread cells
  and counters over histories of operations of many threads.

  \<^bold>\<open>Other parts\<close>.  \<open>Callbacks\<close> (\<open>callback_instances.hpp\<close>): every callback class and factory over a heap of callback objects.
  \<open>Param_Map\<close> (\<open>param_map.cpp\<close>): arguments are read as they were written.  \<open>Memtest\<close> (\<open>memtest_binsmgr.cpp\<close>): the memory test and the
  exactness of its checks; \<open>Memtest_Heap\<close> (locale \<open>test_heap\<close>): on the one-layer allocator no check of the test fails.  \<open>Support\<close>: threads and their registry, the timer, the log, and the stream over a file descriptor.
  \<open>System_Calls\<close>: the epoll wrapper (\<open>descriptor_poller_epoll.cpp\<close>) and the time-stamp counter (\<open>ticks_clock.cpp\<close>).  \<open>Processes\<close>: child
  processes (\<open>child_process.cpp\<close>) and the signal handler (\<open>signal_handler.cpp\<close>), with the text it prints.  \<open>Sbrk_Alloc\<close>
  (\<open>sbrk_alloc.cpp\<close>): aligned memory from the program break, and the release of whole pages.

  \<^bold>\<open>Bounds.\<close>  There is no fuel.  The loops of the allocators, buffers and lists are total functions with a measure; those that wait for
  a socket, a file or the random numbers are partial, and the properties about them state that they return.  \<open>Request_Stats\<close> compares
  ticks as exact numbers, which agrees with the doubles of the code below \<open>2 ^ 53\<close>.  The properties
  of the one-layer allocator are for blocks of less than \<open>2 ^ 34\<close> bytes and those of the two-layer allocator for less than \<open>2 ^ 32\<close>.  The properties of \<open>Thread_Local\<close> are for at most
  sixteen cells, the size of the array of the code; those of the file cache for files of at most one block, since larger ones are not
  loaded correctly.  The properties of the two ends of an HTTP connection are for documents of at most one block, reads that do not end
  in a carriage return and answers that do not fill a chunk exactly, each of which the code gets wrong; a socket may interrupt reads and
  writes any finite number of times.

  \<^bold>\<open>Not modelled\<close>: \<open>list_set.cpp\<close> and \<open>circular_buffer.cpp\<close>, whose methods are placeholders that return a constant, and
  \<open>page_map.hpp\<close>, which has declarations only; the script \<open>callback.py\<close> that prints the callback classes; the headers that the
  allocators duplicate; tests and benchmarks, which use the components and define no behaviour.  Memory is sequentially consistent in
  the step relations, and what happens inside a critical section is one step.  Of the file cache and the request counters the
  operations are steps; the interleavings that their locks or unprotected reads allow inside an operation are not modelled.  Signals
  that interrupt a wait on a semaphore or a condition variable are not modelled either.  The queue lock is modelled for one lock; the
  code shares a thread's queue node between all of them.  Counts that are 32-bit integers in the file cache are unbounded.
\<close>

section \<open>From the files of the server to the callbacks of the client\<close>

text \<open>The response that holds a file.\<close>

definition file_response :: "char list \<Rightarrow> response" where
  "file_response data = \<lparr>rs_statusLine = ''HTTP/1.1 200 OK'', rs_headerRemainder = concat (ok_lines (length data)), rs_body = data\<rparr>"

definition has_file :: "http_env \<Rightarrow> request \<times> string list \<Rightarrow> char list \<Rightarrow> bool" where
  "has_file env x data \<longleftrightarrow> (\<exists>f. he_open env (c_str (document_name (rq_address (fst x)))) = Some f \<and> is_file f data)"

lemma responses_are_files:
  assumes "list_all2 (has_file env) reqs docs" "fits env r (map (rq_address \<circ> fst) reqs)"
  shows "\<exists>ms. map message_text ms = map (response_text env \<circ> rq_address \<circ> fst) reqs \<and> (\<forall>m \<in> set ms. message_ok m) \<and>
    map message_response ms = map file_response docs"
  using assms
proof (induction arbitrary: r rule: list_all2_induct)
  case (Cons x reqs data docs)
  obtain f where f: "he_open env (c_str (document_name (rq_address (fst x)))) = Some f" "is_file f data"
    using Cons.hyps(1) by (auto simp: has_file_def)
  have "length data < 2 ^ 64"
    using Cons.prems f by (auto simp: doc_ok_def is_file_def BlockSize_def)
  note m = file_message [OF f this]
  have "fits env (room_after env (rq_address (fst x)) r) (map (rq_address \<circ> fst) reqs)"
    using Cons.prems by (simp add: o_def)
  from Cons.IH [OF this] obtain ms where "map message_text ms = map (response_text env \<circ> rq_address \<circ> fst) reqs"
      "\<forall>m \<in> set ms. message_ok m" "map message_response ms = map file_response docs"
    by blast
  then show ?case
    using m by (intro exI [of _ "(''HTTP/1.1 200 OK'', ok_lines (length data), data) # ms"])
      (simp add: message_response_def file_response_def)
qed simp

text \<open>
  C8: Let a server have files of at most one block for the requests that its socket delivers, and let no answer end exactly at the
  end of a chunk of its output.  Then it produces a stream that, when it arrives at a client, makes the client run the callbacks
  of its requests, in order, on responses with exactly the contents of the files.  Both streams may be cut into any reads, some
  of them interrupted, except that no read of either end stops right behind a carriage return; both connections are referred to.
\<close>

theorem documents_reach_client:
  assumes "serving env w r" "produced w = []" "contents (cn_in (cx_conn w)) = []"
    and "feeds (so_read (cx_sock w)) (so_reads (cx_sock w)) (concat (map req_text reqs))"
    and "\<forall>x \<in> set reqs. is_document x" "fits env r (map (rq_address \<circ> fst) reqs)" "list_all2 (has_file env) reqs docs"
    and "conn_ok c" "readable (cn_in (cx_conn c))" "contents (cn_in (cx_conn c)) = []"
  shows "\<exists>w'. doRead raw (server_readDone env) w = Some (Inr w') \<and>
    (feeds (so_read (cx_sock c)) (so_reads (cx_sock c)) (produced w') \<longrightarrow>
       (\<exists>c'. doRead raw client_readDone c = Some (Inr c') \<and> contents (cn_in (cx_conn c')) = [] \<and>
          hc_user (cx_app c') = deliver (hc_response_cbs (cx_app c)) (map file_response docs) (hc_user (cx_app c))))"
proof -
  have "req_ok (demo_request, [])"
    using demo_request_facts by (simp add: req_ok_def)
  then have rs: "request_stream env r reqs (demo_request, []) []"
    using assms(5,6) strict_prefix_empty [OF req_text_nonempty] by (simp add: request_stream_def)
  have s: "contents (cn_in (cx_conn w)) @ concat (map req_text reqs) = concat (map req_text reqs) @ []"
      "strict_prefix (contents (cn_in (cx_conn w))) (req_text ((reqs @ [(demo_request, [])]) ! 0))"
    using assms(3) strict_prefix_empty [OF req_text_nonempty] by simp_all
  obtain w' where w': "doRead raw (server_readDone env) w = Some (Inr w')" "produced w' = answers env reqs"
    using server_reads_all [OF assms(1) rs assms(4) s, of raw] unfolding assms(2) append_Nil by blast
  obtain ms where ms: "map message_text ms = map (response_text env \<circ> rq_address \<circ> fst) reqs" "\<forall>m \<in> set ms. message_ok m"
      "map message_response ms = map file_response docs"
    using responses_are_files [OF assms(7,6)] by blast
  then have st: "message_stream ms demo_message []"
    using demo_message_ok strict_prefix_empty [OF message_text_nonempty] by (simp add: message_stream_def)
  have c: "contents (cn_in (cx_conn c)) @ produced w' = concat (map message_text ms) @ []"
      "strict_prefix (contents (cn_in (cx_conn c))) (message_text ((ms @ [demo_message]) ! 0))"
    using assms(10) w'(2) ms(1) strict_prefix_empty [OF message_text_nonempty] by (simp_all add: answers_def)
  have "\<exists>c'. doRead raw client_readDone c = Some (Inr c') \<and> contents (cn_in (cx_conn c')) = [] \<and>
      hc_user (cx_app c') = deliver (hc_response_cbs (cx_app c)) (map file_response docs) (hc_user (cx_app c))"
    if "feeds (so_read (cx_sock c)) (so_reads (cx_sock c)) (produced w')"
    using client_reads_all [OF assms(8,9) st that c, of raw] unfolding ms(3) by blast
  then show ?thesis
    using w'(1) by blast
qed

text \<open>The server of the example with one request in two pieces, and a client to which the response comes in two pieces.\<close>

definition demo_pair :: "server_world \<times> string list client_world" where
  "demo_pair =
     (demo_streaming\<lparr>cx_sock := demo_socket\<lparr>so_read := pieces [take 7 (request_text demo_request []), drop 7 (request_text demo_request [])]\<rparr>\<rparr>,
      demo_waiting\<lparr>cx_sock := demo_socket\<lparr>so_read := pieces [take 7 (response_text demo_env ''a''), drop 7 (response_text demo_env ''a'')]\<rparr>\<rparr>)"

lemma demo_pair_server:
  "serving demo_env (fst demo_pair) BlockSize" "produced (fst demo_pair) = []" "contents (cn_in (cx_conn (fst demo_pair))) = []"
  "feeds (so_read (cx_sock (fst demo_pair))) (so_reads (cx_sock (fst demo_pair))) (concat (map req_text [(demo_request, [])]))"
proof -
  show "serving demo_env (fst demo_pair) BlockSize" "produced (fst demo_pair) = []" "contents (cn_in (cx_conn (fst demo_pair))) = []"
    using demo_streaming_facts(1-3) demo_socket_ok(1)
    by (simp_all add: demo_pair_def serving_def conn_ok_def write_ok_def produced_def) (simp add: demo_socket_def)
  have "\<forall>c \<in> set [take 7 (request_text demo_request []), drop 7 (request_text demo_request [])]. c \<noteq> [] \<and> length c \<le> 1024 \<and> last c \<noteq> CR"
    by (simp add: request_text_def start_line_def demo_request_def)
  from feeds_pieces [OF this]
  show "feeds (so_read (cx_sock (fst demo_pair))) (so_reads (cx_sock (fst demo_pair))) (concat (map req_text [(demo_request, [])]))"
    by (simp add: demo_pair_def demo_socket_def req_text_def)
qed

lemma demo_pair_client:
  "conn_ok (snd demo_pair)" "readable (cn_in (cx_conn (snd demo_pair)))" "contents (cn_in (cx_conn (snd demo_pair))) = []"
  "cx_app (snd demo_pair) = cx_app demo_client"
  "feeds (so_read (cx_sock (snd demo_pair))) (so_reads (cx_sock (snd demo_pair))) (response_text demo_env ''a'')"
proof -
  show "conn_ok (snd demo_pair)" "readable (cn_in (cx_conn (snd demo_pair)))" "contents (cn_in (cx_conn (snd demo_pair))) = []"
      "cx_app (snd demo_pair) = cx_app demo_client"
    using demo_waiting_facts(1-3,5) demo_socket_ok(1) by (simp_all add: demo_pair_def conn_ok_def write_ok_def)
  have "length (dec 2) = 1"
    by (simp add: dec.simps [of 2])
  then have "\<forall>c \<in> set [take 7 (response_text demo_env ''a''), drop 7 (response_text demo_env ''a'')]. c \<noteq> [] \<and> length c \<le> 1024 \<and> last c \<noteq> CR"
    by (simp add: demo_response ok_head_def)
  from feeds_pieces [OF this]
  show "feeds (so_read (cx_sock (snd demo_pair))) (so_reads (cx_sock (snd demo_pair))) (response_text demo_env ''a'')"
    by (simp add: demo_pair_def demo_socket_def)
qed

theorem documents_reach_client_witness:
  "\<exists>w' c'. doRead (\<lambda>_ _. CHR 0x00) (server_readDone demo_env) (fst demo_pair) = Some (Inr w') \<and> produced w' = response_text demo_env ''a'' \<and>
     doRead (\<lambda>_ _. CHR 0x00) client_readDone (snd demo_pair) = Some (Inr c') \<and> hc_user (cx_app c') = [''hi'']"
proof -
  let ?x = "(demo_request, []) :: request \<times> string list" and ?raw = "\<lambda>_ _. CHR 0x00"
  have a: "rq_address demo_request = ''a''"
    by (simp add: demo_request_def)
  have doc: "\<forall>x \<in> set [?x]. is_document x" "fits demo_env BlockSize (map (rq_address \<circ> fst) [?x])"
    using demo_request_facts demo_fits by (simp_all add: is_document_def a)
  have "he_open demo_env (c_str (document_name ''a'')) = Some (2, \<lambda>_. RData ''hi'')"
    by (simp add: demo_env_def document_name_def c_str_def)
  then have f: "list_all2 (has_file demo_env) [?x] [''hi'']"
    by (simp add: has_file_def a is_file_def)
  have d: "deliver (hc_response_cbs (cx_app demo_client)) [file_response ''hi''] (hc_user (cx_app demo_client)) = [''hi'']"
    by (simp add: demo_client_def deliver_def file_response_def)
  have rs: "request_stream demo_env BlockSize [?x] ?x []"
    using doc demo_request_facts strict_prefix_empty [OF req_text_nonempty] by (simp add: request_stream_def req_ok_def)
  have s: "contents (cn_in (cx_conn (fst demo_pair))) @ concat (map req_text [?x]) = concat (map req_text [?x]) @ []"
      "strict_prefix (contents (cn_in (cx_conn (fst demo_pair)))) (req_text (([?x] @ [?x]) ! 0))"
    using demo_pair_server(3) strict_prefix_empty [OF req_text_nonempty] by simp_all
  have "answers demo_env [?x] = response_text demo_env ''a''"
    by (simp add: answers_def a)
  then obtain w1 where w1: "doRead ?raw (server_readDone demo_env) (fst demo_pair) = Some (Inr w1)" "produced w1 = response_text demo_env ''a''"
    using server_reads_all [OF demo_pair_server(1) rs demo_pair_server(4) s, of ?raw] unfolding demo_pair_server(2) append_Nil by metis
  obtain w2 where w2: "doRead ?raw (server_readDone demo_env) (fst demo_pair) = Some (Inr w2)"
      "feeds (so_read (cx_sock (snd demo_pair))) (so_reads (cx_sock (snd demo_pair))) (produced w2) \<longrightarrow>
       (\<exists>c'. doRead ?raw client_readDone (snd demo_pair) = Some (Inr c') \<and> contents (cn_in (cx_conn c')) = [] \<and>
          hc_user (cx_app c') = deliver (hc_response_cbs (cx_app (snd demo_pair))) (map file_response [''hi'']) (hc_user (cx_app (snd demo_pair))))"
    using documents_reach_client [OF demo_pair_server doc f demo_pair_client(1-3), of ?raw] by blast
  have "w2 = w1"
    using w1(1) w2(1) by simp
  then show ?thesis
    using w1 w2(2) demo_pair_client(5) d unfolding demo_pair_client(4) by auto
qed

end
